(* ===== verification/Prelude.thy ===== *)
theory Prelude
  imports Main "HOL-Library.Word"
begin

text \<open>
  Shared vocabulary of the development: the value types of the C++ sources (bytes, byte
  strings, exceptions, the outcome of a \<^verbatim>\<open>noexcept\<close> function), the part of the standard library
  the sources call (\<^verbatim>\<open>std::unordered_map\<close>, \<^verbatim>\<open>std::string\<close> searching), and the lemma collections
  the component theories fill.

  A \<^verbatim>\<open>std::string\<close> that carries payload is a list of bytes (8-bit words), a \<^verbatim>\<open>std::string\<close> that
  carries text (header names and values, service names) is a HOL string.
\<close>

section \<open>Lemma collections\<close>

named_theorems message_simps \<open>unfolding of the length-prefixed message\<close>

section \<open>Values, exceptions, outcomes\<close>

type_synonym byte = "8 word"
type_synonym bytes = "byte list"
type_synonym u32 = "32 word"
type_synonym stream_id = int
type_synonym header = "string \<times> string"

text \<open>
  The exceptions the sources throw or let pass. \<open>App_exception\<close> stands for an exception of
  application code derived from \<^verbatim>\<open>std::exception\<close>, \<open>Foreign_exception\<close> for anything else that
  can be thrown (an \<^verbatim>\<open>int\<close>, a class of its own).
\<close>

datatype cpp_exn =
    Length_error string
  | Runtime_error string
  | Out_of_range
  | Bad_alloc
  | App_exception string
  | Foreign_exception

fun is_std_exception :: "cpp_exn \<Rightarrow> bool" where
  "is_std_exception Foreign_exception = False"
| "is_std_exception _ = True"

text \<open>A \<^verbatim>\<open>noexcept\<close> function returns or, when an exception reaches its boundary, calls
  \<^verbatim>\<open>std::terminate\<close>.\<close>

datatype 'a outcome = Terminate | Return 'a

section \<open>std::unordered_map\<close>

text \<open>
  An unordered map is an association list with distinct keys; the order of the list stands
  for the unspecified iteration order. \<open>um_emplace\<close> is \<^verbatim>\<open>emplace\<close> and \<^verbatim>\<open>insert\<close> (no effect on a
  key that is present), \<open>um_assign\<close> a write through the iterator of a present key,
  \<open>um_erase\<close> is \<^verbatim>\<open>erase(key)\<close>.
\<close>

type_synonym ('k, 'v) umap = "('k \<times> 'v) list"

definition um_find :: "'k \<Rightarrow> ('k, 'v) umap \<Rightarrow> 'v option" where
  "um_find k m = map_of m k"

definition um_emplace :: "'k \<Rightarrow> 'v \<Rightarrow> ('k, 'v) umap \<Rightarrow> ('k, 'v) umap" where
  "um_emplace k v m = (if um_find k m = None then (k, v) # m else m)"

definition um_assign :: "'k \<Rightarrow> 'v \<Rightarrow> ('k, 'v) umap \<Rightarrow> ('k, 'v) umap" where
  "um_assign k v m = map (\<lambda>(k', v'). if k' = k then (k', v) else (k', v')) m"

definition um_erase :: "'k \<Rightarrow> ('k, 'v) umap \<Rightarrow> ('k, 'v) umap" where
  "um_erase k m = filter (\<lambda>(k', _). k' \<noteq> k) m"

definition um_wf :: "('k, 'v) umap \<Rightarrow> bool" where
  "um_wf m = distinct (map fst m)"

subsection \<open>The contract the clients rely on\<close>

locale unordered_map =
  fixes empty :: 'm
    and find :: "'k \<Rightarrow> 'm \<Rightarrow> 'v option"
    and emplace :: "'k \<Rightarrow> 'v \<Rightarrow> 'm \<Rightarrow> 'm"
    and assign :: "'k \<Rightarrow> 'v \<Rightarrow> 'm \<Rightarrow> 'm"
    and erase :: "'k \<Rightarrow> 'm \<Rightarrow> 'm"
    and invar :: "'m \<Rightarrow> bool"
  assumes find_empty: "find k empty = None"
    and find_emplace: "find k (emplace k' v m) =
          (if k = k' \<and> find k' m = None then Some v else find k m)"
    and find_assign: "find k (assign k' v m) =
          (if k = k' \<and> find k' m \<noteq> None then Some v else find k m)"
    and find_erase: "find k (erase k' m) = (if k = k' then None else find k m)"
    and invar_empty: "invar empty"
    and invar_emplace: "invar m \<Longrightarrow> invar (emplace k' v m)"
    and invar_assign: "invar m \<Longrightarrow> invar (assign k' v m)"
    and invar_erase: "invar m \<Longrightarrow> invar (erase k' m)"
begin

text \<open>Inserting a sequence of entries keeps what is there and, for a new key, the first
  entry of the sequence: the law behind duplicate headers, methods and services.\<close>

lemma find_emplace_all:
  "find k (fold (\<lambda>(k', v). emplace k' v) kvs m) =
     (case find k m of Some v \<Rightarrow> Some v | None \<Rightarrow> map_of kvs k)"
  by (induction kvs arbitrary: m) (auto simp: find_emplace split: option.splits)

lemma invar_emplace_all:
  "invar m \<Longrightarrow> invar (fold (\<lambda>(k', v). emplace k' v) kvs m)"
  by (induction kvs arbitrary: m) (auto simp: invar_emplace)

lemma emplace_idle: "find k m \<noteq> None \<Longrightarrow> find k' (emplace k v m) = find k' m"
  by (auto simp: find_emplace)

lemma find_emplace_assign:
  "find k (assign k' w (emplace k' v m)) = (if k = k' then Some w else find k m)"
  by (auto simp: find_assign find_emplace)

lemma find_erase_emplace:
  "find k (erase k' (emplace k' v m)) = (if k = k' then None else find k m)"
  by (auto simp: find_erase find_emplace)

end

lemma um_find_map_assign:
  "map_of (map (\<lambda>(k', v'). if k' = k then (k', v) else (k', v')) m) x =
     (if x = k \<and> map_of m k \<noteq> None then Some v else map_of m x)"
  by (induction m) auto

lemma um_find_filter_erase:
  "map_of (filter (\<lambda>(k', _). k' \<noteq> k) m) x = (if x = k then None else map_of m x)"
  by (induction m) auto

lemma map_fst_assign:
  "map fst (map (\<lambda>(k', v'). if k' = k then (k', v) else (k', v')) m) = map fst m"
  by (induction m) auto

lemma distinct_fst_filter: "distinct (map fst m) \<Longrightarrow> distinct (map fst (filter P m))"
  by (induction m) auto

interpretation um: unordered_map "[]" um_find um_emplace um_assign um_erase um_wf
proof unfold_locales
  fix m :: "('a, 'b) umap" and k' :: 'a and v :: 'b
  assume "um_wf m"
  then show "um_wf (um_emplace k' v m)"
    by (auto simp: um_wf_def um_emplace_def um_find_def map_of_eq_None_iff)
next
  fix m :: "('a, 'b) umap" and k' :: 'a and v :: 'b
  assume "um_wf m"
  then show "um_wf (um_assign k' v m)"
    by (simp only: um_wf_def um_assign_def map_fst_assign)
next
  fix m :: "('a, 'b) umap" and k' :: 'a
  assume "um_wf m"
  then show "um_wf (um_erase k' m)"
    by (simp add: um_wf_def um_erase_def distinct_fst_filter)
qed (auto simp: um_find_def um_emplace_def um_assign_def um_erase_def um_wf_def
       um_find_map_assign um_find_filter_erase)

text \<open>The iteration order carries no information: two maps with the same entries answer every
  lookup alike.\<close>

lemma um_find_order:
  "um_wf m \<Longrightarrow> um_wf m' \<Longrightarrow> set m = set m' \<Longrightarrow> um_find k m = um_find k m'"
  by (metis um_wf_def um_find_def map_of_eq_Some_iff not_Some_eq)

section \<open>std::string\<close>

fun index_of :: "'a \<Rightarrow> 'a list \<Rightarrow> nat option" where
  "index_of c [] = None"
| "index_of c (x # xs) = (if x = c then Some 0 else map_option Suc (index_of c xs))"

text \<open>\<^verbatim>\<open>s.find(c, pos)\<close>; \<open>None\<close> is \<^verbatim>\<open>npos\<close>.\<close>

definition str_find :: "'a list \<Rightarrow> 'a \<Rightarrow> nat \<Rightarrow> nat option" where
  "str_find s c pos =
     (if length s < pos then None else map_option ((+) pos) (index_of c (drop pos s)))"

text \<open>\<^verbatim>\<open>s.substr(pos, n)\<close> and \<^verbatim>\<open>s.substr(pos)\<close> for a position in range.\<close>

definition str_substr :: "'a list \<Rightarrow> nat \<Rightarrow> nat \<Rightarrow> 'a list" where
  "str_substr s pos n = take n (drop pos s)"

definition str_substr_from :: "'a list \<Rightarrow> nat \<Rightarrow> 'a list" where
  "str_substr_from s pos = drop pos s"

definition starts_with :: "'a list \<Rightarrow> 'a list \<Rightarrow> bool" where
  "starts_with s p = (take (length p) s = p)"

text \<open>\<^verbatim>\<open>s.front()\<close>. On an empty string the C++ call is outside its precondition; the character
  stored there is the terminating NUL, which is what the call reads.\<close>

definition str_front :: "string \<Rightarrow> char" where
  "str_front s = (case s of [] \<Rightarrow> CHR 0x00 | c # _ \<Rightarrow> c)"

lemma index_of_None: "index_of c s = None \<longleftrightarrow> c \<notin> set s"
  by (induction s) auto

lemma index_of_absent [simp]: "c \<notin> set s \<Longrightarrow> index_of c s = None"
  by (simp add: index_of_None)

lemma index_of_append:
  "c \<notin> set xs \<Longrightarrow> index_of c (xs @ c # ys) = Some (length xs)"
  by (induction xs) auto

lemma index_of_SomeD:
  "index_of c s = Some n \<Longrightarrow> n < length s \<and> s ! n = c \<and> c \<notin> set (take n s)"
proof (induction s arbitrary: n)
  case (Cons x xs)
  then show ?case by (cases n) (auto split: if_splits)
qed simp

lemma index_of_takeWhile:
  "index_of c s = Some n \<Longrightarrow>
     takeWhile (\<lambda>x. x \<noteq> c) s = take n s \<and> dropWhile (\<lambda>x. x \<noteq> c) s = c # drop (Suc n) s"
proof (induction s arbitrary: n)
  case (Cons x xs)
  then show ?case by (cases n) (auto split: if_splits)
qed simp

lemma str_find_SomeD:
  assumes "str_find s c pos = Some n"
  shows "pos \<le> n" "n < length s" "s ! n = c" "c \<notin> set (take (n - pos) (drop pos s))"
proof -
  from assms obtain j where j: "index_of c (drop pos s) = Some j" and n: "n = pos + j"
    and "pos \<le> length s"
    by (auto simp: str_find_def split: if_splits)
  with index_of_SomeD [OF j]
  show "pos \<le> n" "n < length s" "s ! n = c" "c \<notin> set (take (n - pos) (drop pos s))"
    by auto
qed

lemma starts_with_append [simp]: "starts_with (p @ s) p"
  by (simp add: starts_with_def)

lemma starts_with_iff: "starts_with s p \<longleftrightarrow> (\<exists>r. s = p @ r)"
  unfolding starts_with_def by (metis append_eq_conv_conj append_take_drop_id)

section \<open>Forward simulation\<close>

text \<open>A machine whose steps, in the states of an invariant, leave its abstraction alone or take the abstraction
  one step of another machine. Both machines are partial functions from an action and a state.\<close>

locale forward_simulation =
  fixes cstep :: "'b \<Rightarrow> 'c \<Rightarrow> 'c option"
    and astep :: "'a \<Rightarrow> 's \<Rightarrow> 's option"
    and inv :: "'c \<Rightarrow> bool"
    and abs_of :: "'c \<Rightarrow> 's"
  assumes inv_step: "inv c \<Longrightarrow> cstep b c = Some c' \<Longrightarrow> inv c'"
    and simulates: "inv c \<Longrightarrow> cstep b c = Some c' \<Longrightarrow>
          abs_of c' = abs_of c \<or> (\<exists>a. astep a (abs_of c) = Some (abs_of c'))"
begin

text \<open>What all steps of the abstract machine preserve, all steps of the concrete one do.\<close>

lemma transfer_step:
  assumes "\<And>a x x'. P x \<Longrightarrow> astep a x = Some x' \<Longrightarrow> P x'" "inv c" "P (abs_of c)" "cstep b c = Some c'"
  shows "inv c' \<and> P (abs_of c')"
  using inv_step [OF assms(2,4)] simulates [OF assms(2,4)] assms(1,3) by metis

end

end
