(* ===== verification/Message.thy ===== *)
theory Message
  imports Prelude
begin

unbundle bit_operations_syntax

text \<open>
  \<^verbatim>\<open>grpcxx::detail::message\<close> (lib/grpcxx/message.h, message.cpp): the gRPC length-prefixed message,
  a compression flag and a 4-byte big-endian length followed by the payload. The class is
  used in both directions: the constructor from a string frames an outgoing payload, the
  member \<^verbatim>\<open>bytes(std::string_view)\<close> accumulates the chunks of an incoming one.

  \<^verbatim>\<open>char\<close> is signed on every platform the project builds for (x86-64 Linux and Windows, macOS),
  so reading a byte of \<open>_prefix\<close> into an \<^verbatim>\<open>int\<close> sign-extends it: the model reads it with
  \<open>scast\<close>. The memory that \<^verbatim>\<open>parse\<close> reserves for the announced length is added in the
  theory \<open>Message_Memory\<close>.
\<close>

section \<open>State and operations\<close>

record message =
  msg_compressed :: byte
  msg_length :: "u32 option"
  msg_data :: bytes
  msg_prefix :: bytes

definition message_default :: message where
  "message_default = \<lparr>msg_compressed = 0, msg_length = None, msg_data = [], msg_prefix = []\<rparr>"

text \<open>The five bytes the constructor writes for a size.\<close>

definition prefix_bytes :: "u32 \<Rightarrow> bytes" where
  "prefix_bytes sz =
     [0,
      ucast (drop_bit 24 sz AND 0xff),
      ucast (drop_bit 16 sz AND 0xff),
      ucast (drop_bit 8 sz AND 0xff),
      ucast (sz AND 0xff)]"

text \<open>\<^verbatim>\<open>message(std::string &&data)\<close>: members are initialised in declaration order, so \<open>_length\<close>
  takes \<^verbatim>\<open>data.size()\<close> (cut to 32 bits) before \<open>data\<close> is moved from.\<close>

definition message_of_string :: "bytes \<Rightarrow> message" where
  "message_of_string d =
     (let sz = word_of_nat (length d) :: u32
      in \<lparr>msg_compressed = 0, msg_length = Some sz, msg_data = d, msg_prefix = prefix_bytes sz\<rparr>)"

definition message_bytes :: "message \<Rightarrow> bytes" where
  "message_bytes m = msg_prefix m @ msg_data m"

text \<open>The length expression of \<^verbatim>\<open>parse()\<close>: each \<^verbatim>\<open>char\<close> is promoted to \<^verbatim>\<open>int\<close>; only the last
  one is masked.\<close>

definition prefix_length :: "bytes \<Rightarrow> u32" where
  "prefix_length p =
     push_bit 24 (scast (p ! 1)) OR push_bit 16 (scast (p ! 2)) OR
     push_bit 8 (scast (p ! 3)) OR (scast (p ! 4) AND 0xff)"

definition message_parse :: "message \<Rightarrow> message" where
  "message_parse m =
     (if msg_length m \<noteq> None then m
      else if length (msg_prefix m) < 5 then m
      else m\<lparr>msg_compressed := msg_prefix m ! 0,
             msg_length := Some (prefix_length (msg_prefix m))\<rparr>)"

definition too_large :: "message \<Rightarrow> bool" where
  "too_large m = (case msg_length m of None \<Rightarrow> False | Some n \<Rightarrow> unat n \<le> length (msg_data m))"

text \<open>\<^verbatim>\<open>void message::bytes(std::string_view bytes)\<close>.\<close>

definition message_read :: "message \<Rightarrow> bytes \<Rightarrow> cpp_exn + message" where
  "message_read m bs =
     (if too_large m
      then Inl (Length_error ''Message larger than what's indicated in the prefix.'')
      else
        let n = (if 5 < length bs then 5 else length bs);
            (m1, head) =
              (if length (msg_prefix m) < 5
               then (m\<lparr>msg_prefix := msg_prefix m @ take n bs\<rparr>, n) else (m, 0));
            m2 = message_parse m1
        in Inr (if 0 < length bs - head
                then m2\<lparr>msg_data := msg_data m2 @ drop head bs\<rparr> else m2))"

definition message_data :: "message \<Rightarrow> bytes" where
  "message_data m =
     (case msg_length m of
        None \<Rightarrow> []
      | Some n \<Rightarrow> if length (msg_data m) \<noteq> unat n then [] else msg_data m)"

text \<open>The chunks of a stream, one after the other; the first exception stops.\<close>

fun message_read_all :: "message \<Rightarrow> bytes list \<Rightarrow> cpp_exn + message" where
  "message_read_all m [] = Inr m"
| "message_read_all m (c # cs) =
     (case message_read m c of Inl e \<Rightarrow> Inl e | Inr m' \<Rightarrow> message_read_all m' cs)"

lemmas [message_simps] =
  message_default_def message_of_string_def message_bytes_def message_parse_def
  message_read_def message_data_def too_large_def Let_def

section \<open>The invariant\<close>

text \<open>The length is known exactly when five prefix bytes are there, payload arrives only
  after the prefix, and at most nine bytes ever reach the prefix.\<close>

definition message_wf :: "message \<Rightarrow> bool" where
  "message_wf m \<longleftrightarrow>
     (msg_length m = None \<longleftrightarrow> length (msg_prefix m) < 5) \<and>
     (msg_length m = None \<longrightarrow> msg_data m = []) \<and>
     length (msg_prefix m) \<le> 9"

section \<open>The length field, bit by bit\<close>

lemma mask_bytes:
  "(0xff :: u32) = mask 8" "(0xFFFF0000 :: u32) = push_bit 16 (mask 16)" "(0xFF000000 :: u32) = push_bit 24 (mask 8)"
  by (simp_all add: mask_eq_exp_minus_1 push_bit_eq_mult)

lemma bit_char_promoted:
  "bit (scast (ucast (x AND mask 8 :: u32) :: byte) :: u32) i \<longleftrightarrow> i < 32 \<and> bit x (min 7 i)"
  by (auto simp: bit_simps min_def dest: bit_imp_le_length)

lemma prefix_length_split:
  "prefix_length (prefix_bytes n) =
     push_bit 24 (scast (ucast (drop_bit 24 n AND mask 8) :: byte)) OR
     push_bit 16 (scast (ucast (drop_bit 16 n AND mask 8) :: byte)) OR
     push_bit 8 (scast (ucast (drop_bit 8 n AND mask 8) :: byte)) OR
     (scast (ucast (n AND mask 8) :: byte) AND mask 8)"
  by (simp add: prefix_length_def prefix_bytes_def flip: mask_bytes(1))

lemma min_shift: "k \<le> i \<Longrightarrow> k + min 7 (i - k) = min (k + 7) (i :: nat)"
  by arith

lemma prefix_length_bits:
  assumes "i < 32"
  shows "bit (prefix_length (prefix_bytes n)) i \<longleftrightarrow>
     24 \<le> i \<and> bit n (min 31 i) \<or> 16 \<le> i \<and> bit n (min 23 i) \<or>
     8 \<le> i \<and> bit n (min 15 i) \<or> i < 8 \<and> bit n i"
proof -
  have *: "bit (push_bit k (scast (ucast (drop_bit k n AND mask 8) :: byte)) :: u32) i
    \<longleftrightarrow> k \<le> i \<and> bit n (min (k + 7) i)" for k
    using assms by (auto simp: bit_push_bit_iff bit_char_promoted bit_drop_bit_eq min_shift)
  have **: "bit (scast (ucast (n AND mask 8) :: byte) AND mask 8 :: u32) i \<longleftrightarrow> i < 8 \<and> bit n i"
    using assms by (auto simp: bit_and_iff bit_char_promoted bit_mask_iff min_absorb2)
  show ?thesis
    unfolding prefix_length_split bit_or_iff * ** by auto
qed

lemma prefix_length_prefix_bytes:
  "prefix_length (prefix_bytes n) =
     n OR (if bit n 15 then 0xFFFF0000 else 0) OR (if bit n 23 then 0xFF000000 else 0)"
proof (rule bit_word_eqI)
  fix i assume "i < LENGTH(32)"
  then have i: "i < 32" by simp
  have hi: "bit (0xFFFF0000 :: u32) i \<longleftrightarrow> 16 \<le> i" "bit (0xFF000000 :: u32) i \<longleftrightarrow> 24 \<le> i"
    unfolding mask_bytes bit_push_bit_iff bit_mask_iff using i by auto
  have zero: "\<not> bit (0 :: u32) i" by simp
  from i consider "i < 8" | "8 \<le> i" "i \<le> 15" | "16 \<le> i" "i \<le> 23" | "24 \<le> i" "i \<le> 31" by linarith
  then have "bit (prefix_length (prefix_bytes n)) i \<longleftrightarrow> bit n i \<or> 16 \<le> i \<and> bit n 15 \<or> 24 \<le> i \<and> bit n 23"
    unfolding prefix_length_bits [OF i] by cases (auto simp: min_absorb1 min_absorb2)
  also have "\<dots> \<longleftrightarrow> bit (n OR (if bit n 15 then 0xFFFF0000 else 0) OR (if bit n 23 then 0xFF000000 else 0)) i"
    by (auto simp only: bit_or_iff hi zero split: if_split)
  finally show "bit (prefix_length (prefix_bytes n)) i \<longleftrightarrow> \<dots>" .
qed

section \<open>Lemmas on single reads\<close>

lemma message_wf_default: "message_wf message_default"
  by (simp add: message_wf_def message_default_def)

lemma message_wf_of_string: "message_wf (message_of_string d)"
  by (simp add: message_wf_def message_of_string_def prefix_bytes_def Let_def)

lemma message_read_prefix:
  assumes "length p = 5"
  shows "message_read message_default (p @ r) =
    Inr \<lparr>msg_compressed = p ! 0, msg_length = Some (prefix_length p), msg_data = r, msg_prefix = p\<rparr>"
  using assms by (simp add: message_simps)

lemma message_read_payload:
  assumes "5 \<le> length (msg_prefix m)" "msg_length m = Some n" "length (msg_data m) < unat n"
  shows "message_read m bs = Inr (m\<lparr>msg_data := msg_data m @ bs\<rparr>)"
  using assms by (simp add: message_simps)

lemma msg_data_parse [simp]: "msg_data (message_parse m) = msg_data m"
  by (simp add: message_parse_def)

lemma message_read_data:
  "\<not> too_large m \<Longrightarrow> \<exists>m'. message_read m bs = Inr m' \<and>
     msg_data m' = msg_data m @ (if length (msg_prefix m) < 5 then drop 5 bs else bs)"
  by (auto simp: message_read_def Let_def)

lemma message_read_wf: "message_wf m \<Longrightarrow> message_read m bs = Inr m' \<Longrightarrow> message_wf m'"
  by (auto simp: message_wf_def message_simps split: if_splits)

lemma message_read_all_wf: "message_wf m \<Longrightarrow> message_read_all m cs = Inr m' \<Longrightarrow> message_wf m'"
  by (induction cs arbitrary: m) (auto split: sum.splits intro: message_read_wf)

lemma message_read_all_payload:
  assumes "5 \<le> length (msg_prefix m)" "msg_length m = Some n"
    and "length (msg_data m @ concat cs) = unat n" "[] \<notin> set cs"
  shows "message_read_all m cs = Inr (m\<lparr>msg_data := msg_data m @ concat cs\<rparr>)"
  using assms
proof (induction cs arbitrary: m)
  case (Cons c cs)
  then have "length (msg_data m) < unat n" by (cases c) auto
  with Cons.prems have "message_read m c = Inr (m\<lparr>msg_data := msg_data m @ c\<rparr>)"
    by (intro message_read_payload)
  with Cons.prems Cons.IH [of "m\<lparr>msg_data := msg_data m @ c\<rparr>"] show ?case by simp
qed simp

lemma length_prefix_bytes [simp]: "length (prefix_bytes n) = 5"
  by (simp add: prefix_bytes_def)

lemma prefix_bytes_flag [simp]: "prefix_bytes n ! 0 = 0"
  by (simp add: prefix_bytes_def)

lemma unat_size: "n < 2 ^ 32 \<Longrightarrow> unat (word_of_nat n :: u32) = n"
  by (simp add: unat_of_nat take_bit_nat_eq_self)

lemma message_bytes_of_string:
  "message_bytes (message_of_string d) = prefix_bytes (word_of_nat (length d)) @ d"
  by (simp add: message_simps)

lemma bit_of_size: "bit (word_of_nat n :: u32) i \<longleftrightarrow> i < 32 \<and> bit n i"
  by (simp add: bit_simps)

lemma prefix_length_exact:
  "\<not> bit n 15 \<Longrightarrow> \<not> bit n 23 \<Longrightarrow> prefix_length (prefix_bytes n) = n"
  by (simp add: prefix_length_prefix_bytes)

lemma prefix_length_sign:
  assumes "bit n 15 \<or> bit n 23" "\<not> bit n 31"
  shows "prefix_length (prefix_bytes n) \<noteq> n"
proof
  assume "prefix_length (prefix_bytes n) = n"
  with assms(2) have "\<not> bit (prefix_length (prefix_bytes n)) 31" by simp
  with assms(1) show False by (simp add: prefix_length_bits)
qed

lemma message_reassembles:
  assumes "length d < 2 ^ 32" "\<not> bit (length d) 15" "\<not> bit (length d) 23"
    and "concat (c # cs) = message_bytes (message_of_string d)"
    and "5 \<le> length c" "[] \<notin> set cs"
  shows "\<exists>m. message_read_all message_default (c # cs) = Inr m \<and> message_data m = d"
proof -
  let ?n = "word_of_nat (length d) :: u32" and ?p = "prefix_bytes (word_of_nat (length d))"
  define r where "r = drop 5 c"
  have eq: "c @ concat cs = ?p @ d" using assms(4) by (simp add: message_bytes_of_string)
  have "take 5 (c @ concat cs) = ?p" unfolding eq by simp
  then have "take 5 c = ?p" using assms(5) by simp
  then have c: "c = ?p @ r" by (metis append_take_drop_id r_def)
  with eq have d: "d = r @ concat cs" by simp
  have n: "unat ?n = length d" using assms(1) by (rule unat_size)
  let ?m = "\<lparr>msg_compressed = 0, msg_length = Some ?n, msg_data = r, msg_prefix = ?p\<rparr>"
  have "prefix_length ?p = ?n"
    using assms(2,3) by (intro prefix_length_exact) (simp_all add: bit_of_size)
  then have "message_read message_default c = Inr ?m"
    unfolding c by (simp add: message_read_prefix)
  moreover have "message_read_all ?m cs = Inr (?m\<lparr>msg_data := r @ concat cs\<rparr>)"
    using message_read_all_payload [of ?m ?n cs] assms(6) n d by simp
  ultimately show ?thesis using n d by (simp add: message_data_def)
qed

section \<open>Properties\<close>

text \<open>C13: reassembly. However the framed payload is cut into chunks, as long as the first chunk
  holds the whole prefix and no chunk is empty, reading the chunks in order ends without an
  exception in a message whose data is the payload. The two bit conditions are those under
  which the sign extension in \<open>parse\<close> is harmless.\<close>

theorem message_reassembly:
  assumes "length d < 2 ^ 32" "\<not> bit (length d) 15" "\<not> bit (length d) 23"
    and "concat (c # cs) = message_bytes (message_of_string d)"
    and "5 \<le> length c" "[] \<notin> set cs"
  shows "\<exists>m. message_read_all message_default (c # cs) = Inr m \<and> message_data m = d"
  by (rule message_reassembles [OF assms])

theorem message_reassembly_witness:
  "\<exists>m. message_read_all message_default [[0, 0, 0, 0, 3, 7], [8, 9]] = Inr m \<and>
     message_data m = [7, 8, 9]"
  by (rule message_reassembly) (simp_all add: message_simps prefix_bytes_def bit_iff_odd)

text \<open>C23: encode/decode round trip, exactly. For a non-empty payload below 2 GiB, decoding the
  encoded bytes in one read gives the payload back if and only if bits 15 and 23 of its
  length are clear. A payload of 32768 to 65535 bytes, say, always sets bit 15.\<close>

theorem message_roundtrip_iff:
  assumes "length d < 2 ^ 31" "d \<noteq> []"
  shows "\<exists>m. message_read message_default (message_bytes (message_of_string d)) = Inr m \<and>
     (message_data m = d \<longleftrightarrow> \<not> bit (length d) 15 \<and> \<not> bit (length d) 23)"
proof -
  let ?n = "word_of_nat (length d) :: u32"
  let ?m = "\<lparr>msg_compressed = 0, msg_length = Some (prefix_length (prefix_bytes ?n)),
      msg_data = d, msg_prefix = prefix_bytes ?n\<rparr>"
  have n: "unat ?n = length d" using assms(1) by (intro unat_size) simp
  have "\<not> bit (length d) 31" using assms(1) by (simp add: bit_iff_odd)
  then have top: "\<not> bit ?n 31" by (simp add: bit_of_size)
  have m: "message_read message_default (message_bytes (message_of_string d)) = Inr ?m"
    by (simp add: message_bytes_of_string message_read_prefix)
  have "message_data ?m = d \<longleftrightarrow> prefix_length (prefix_bytes ?n) = ?n"
    using assms(2) n unfolding message_data_def by (auto simp: word_unat_eq_iff)
  also have "\<dots> \<longleftrightarrow> \<not> bit ?n 15 \<and> \<not> bit ?n 23"
    using prefix_length_exact prefix_length_sign top by blast
  finally show ?thesis using m by (simp add: bit_of_size)
qed

theorem message_roundtrip_iff_witness:
  "\<exists>d m. length d = 40000 \<and>
     message_read message_default (message_bytes (message_of_string d)) = Inr m \<and> message_data m \<noteq> d"
proof -
  obtain d :: bytes where len: "length d = 40000" by (rule that [OF length_replicate])
  then have "length d < 2 ^ 31" "d \<noteq> []" "bit (length d) 15" by (auto simp: bit_iff_odd)
  with message_roundtrip_iff [of d] len show ?thesis by blast
qed

text \<open>A prefix that is split across two chunks, with payload in the second one, loses payload:
  the second read takes five more bytes into the prefix instead of the missing ones.\<close>

theorem message_split_prefix:
  assumes "d \<noteq> []" "0 < k" "k < 5" "b = message_bytes (message_of_string d)"
  shows "\<exists>m. message_read_all message_default [take k b, drop k b] = Inr m \<and> message_data m \<noteq> d"
proof -
  let ?p = "prefix_bytes (word_of_nat (length d))"
  have b: "b = ?p @ d" using assms(4) by (simp add: message_bytes_of_string)
  let ?m1 = "message_default\<lparr>msg_prefix := take k b\<rparr>"
  have 1: "message_read message_default (take k b) = Inr ?m1"
    using assms(2,3) b by (simp add: message_simps)
  have "\<not> too_large ?m1" "length (msg_prefix ?m1) < 5" "msg_data ?m1 = []"
    using assms(3) by (simp_all add: too_large_def message_default_def)
  with message_read_data [of ?m1 "drop k b"] obtain m where
    m: "message_read ?m1 (drop k b) = Inr m" "msg_data m = drop 5 (drop k b)" by auto
  have "length (msg_data m) < length d" using m(2) b assms(1,2) by (cases d) auto
  then have "message_data m \<noteq> d"
    using assms(1) by (auto simp: message_data_def split: option.splits if_splits)
  with 1 m(1) show ?thesis by simp
qed

theorem message_split_prefix_witness:
  "\<exists>m. message_read_all message_default [[0, 0], [0, 0, 1, 42]] = Inr m \<and> message_data m \<noteq> [42]"
  using message_split_prefix [of "[42]" 2 "[0, 0, 0, 0, 1, 42]"]
  by (simp add: message_simps prefix_bytes_def)

text \<open>A read fails exactly when the message is complete: the exception guards against payload
  beyond the announced length, and a complete message rejects even an empty chunk.\<close>

theorem message_read_error_iff:
  "(\<exists>e. message_read m bs = Inl e) \<longleftrightarrow>
     (\<exists>n. msg_length m = Some n \<and> unat n \<le> length (msg_data m))"
  by (auto simp: message_read_def too_large_def Let_def split: prod.splits option.splits)

text \<open>Every state reached by reading chunks into a fresh message is well formed.\<close>

theorem message_reads_wf:
  "message_read_all message_default cs = Inr m \<Longrightarrow> message_wf m"
  by (rule message_read_all_wf [OF message_wf_default])

theorem message_reads_wf_witness:
  "message_wf \<lparr>msg_compressed = 0, msg_length = Some 1, msg_data = [5], msg_prefix = [0, 0, 0, 0, 1]\<rparr>"
  by (rule message_reads_wf [of "[[0, 0, 0, 0, 1, 5]]"])
    (simp add: message_simps prefix_length_def)

end
