(* ===== verification/Request.thy ===== *)
theory Request
  imports Message
begin

unbundle bit_operations_syntax

text \<open>
  \<^verbatim>\<open>grpcxx::detail::request\<close> (lib/grpcxx/request.h, request.cpp): what a connection knows of one
  HTTP/2 stream. Headers and data chunks arrive one at a time; the object keeps a set of
  flags, of which \<open>invalid\<close> is sticky, the service and method named by \<^verbatim>\<open>:path\<close>, the custom
  metadata and the message being read.
\<close>

section \<open>State and operations\<close>

datatype flags_t = Flag_invalid | Flag_header_method | Flag_header_path | Flag_header_content_type

fun flag_bits :: "flags_t \<Rightarrow> byte" where
  "flag_bits Flag_invalid = 0x01"
| "flag_bits Flag_header_method = push_bit 1 0x01"
| "flag_bits Flag_header_path = push_bit 2 0x01"
| "flag_bits Flag_header_content_type = push_bit 3 0x01"

record request =
  req_flags :: byte
  req_id :: stream_id
  req_metadata :: "(string, string) umap"
  req_msg :: message
  req_method :: string
  req_service :: string

definition request_new :: "stream_id \<Rightarrow> request" where
  "request_new i =
     \<lparr>req_flags = 0, req_id = i, req_metadata = [], req_msg = message_default,
      req_method = [], req_service = []\<rparr>"

definition request_set_flag :: "flags_t \<Rightarrow> request \<Rightarrow> request" where
  "request_set_flag f r = r\<lparr>req_flags := req_flags r OR flag_bits f\<rparr>"

definition request_flag :: "flags_t \<Rightarrow> request \<Rightarrow> bool" where
  "request_flag f r = (req_flags r AND flag_bits f = flag_bits f)"

definition request_invalid :: "request \<Rightarrow> bool" where
  "request_invalid r = request_flag Flag_invalid r"

text \<open>\<^verbatim>\<open>operator bool\<close>.\<close>

definition request_bool :: "request \<Rightarrow> bool" where
  "request_bool r = (\<not> request_invalid r \<and> req_service r \<noteq> [] \<and> req_method r \<noteq> [])"

definition request_header :: "string \<Rightarrow> string \<Rightarrow> request \<Rightarrow> request" where
  "request_header name val r =
     (if request_invalid r then r
      else if name = '':method'' then
        (let r1 = request_set_flag Flag_header_method r
         in if val \<noteq> ''POST'' then request_set_flag Flag_invalid r1 else r1)
      else if name = '':path'' then
        (let r1 = request_set_flag Flag_header_path r
         in if str_front val \<noteq> CHR ''/'' then request_set_flag Flag_invalid r1
            else case str_find val (CHR ''/'') 1 of
                None \<Rightarrow> request_set_flag Flag_invalid r1
              | Some n \<Rightarrow>
                  (let r2 = r1\<lparr>req_service := str_substr val 1 (n - 1),
                               req_method := str_substr_from val (n + 1)\<rparr>
                   in if req_method r2 = [] then request_set_flag Flag_invalid r2 else r2))
      else if name = ''content-type'' then
        (let r1 = request_set_flag Flag_header_content_type r
         in if \<not> starts_with val ''application/grpc'' then request_set_flag Flag_invalid r1 else r1)
      else if starts_with name '':'' \<or> starts_with name ''grpc-'' then r
      else r\<lparr>req_metadata := um_emplace name val (req_metadata r)\<rparr>)"

definition request_read :: "bytes \<Rightarrow> request \<Rightarrow> request" where
  "request_read d r =
     (if request_invalid r then r
      else case message_read (req_msg r) d of
          Inl _ \<Rightarrow> request_set_flag Flag_invalid r
        | Inr m \<Rightarrow> r\<lparr>req_msg := m\<rparr>)"

definition request_data :: "request \<Rightarrow> bytes" where
  "request_data r = message_data (req_msg r)"

definition request_headers :: "header list \<Rightarrow> request \<Rightarrow> request" where
  "request_headers hs r = fold (\<lambda>(n, v). request_header n v) hs r"

definition request_reads :: "bytes list \<Rightarrow> request \<Rightarrow> request" where
  "request_reads cs r = fold request_read cs r"

section \<open>Specification\<close>

text \<open>What a path names: \<^verbatim>\<open>/service/method\<close>, cut at the second slash, with a non-empty method.\<close>

definition split_path :: "string \<Rightarrow> (string \<times> string) option" where
  "split_path v =
     (case v of
        [] \<Rightarrow> None
      | c # cs \<Rightarrow>
          if c \<noteq> CHR ''/'' then None
          else case dropWhile (\<lambda>x. x \<noteq> CHR ''/'') cs of
              [] \<Rightarrow> None
            | _ # meth \<Rightarrow>
                if meth = [] then None else Some (takeWhile (\<lambda>x. x \<noteq> CHR ''/'') cs, meth))"

definition bad_header :: "header \<Rightarrow> bool" where
  "bad_header h \<longleftrightarrow>
     fst h = '':method'' \<and> snd h \<noteq> ''POST'' \<or>
     fst h = '':path'' \<and> split_path (snd h) = None \<or>
     fst h = ''content-type'' \<and> \<not> starts_with (snd h) ''application/grpc''"

definition custom_header :: "header \<Rightarrow> bool" where
  "custom_header h \<longleftrightarrow>
     fst h \<noteq> ''content-type'' \<and> \<not> starts_with (fst h) '':'' \<and> \<not> starts_with (fst h) ''grpc-''"

definition path_target :: "header list \<Rightarrow> string \<times> string" where
  "path_target hs =
     fold (\<lambda>h acc. if fst h = '':path'' then the (split_path (snd h)) else acc) hs ([], [])"

section \<open>Flags\<close>

fun flag_index :: "flags_t \<Rightarrow> nat" where
  "flag_index Flag_invalid = 0"
| "flag_index Flag_header_method = 1"
| "flag_index Flag_header_path = 2"
| "flag_index Flag_header_content_type = 3"

lemma flag_bits_index: "flag_bits f = push_bit (flag_index f) 1"
  by (cases f) simp_all

lemma flag_index_less: "flag_index f < 8"
  by (cases f) simp_all

lemma flag_index_inj: "flag_index f = flag_index g \<longleftrightarrow> f = g"
  by (cases f; cases g) simp_all

lemma and_single_bit:
  assumes "k < 8"
  shows "(w AND push_bit k 1 = (push_bit k 1 :: byte)) \<longleftrightarrow> bit w k"
proof
  assume eq: "w AND push_bit k 1 = push_bit k 1"
  have "bit (w AND push_bit k 1) k" unfolding eq using assms by (simp add: bit_simps)
  then show "bit w k" by (simp add: bit_and_iff)
next
  assume "bit w k"
  then show "w AND push_bit k 1 = push_bit k 1" by (intro bit_word_eqI) (auto simp: bit_simps)
qed

lemma request_flag_bit: "request_flag f r \<longleftrightarrow> bit (req_flags r) (flag_index f)"
  unfolding request_flag_def flag_bits_index by (rule and_single_bit [OF flag_index_less])

lemma request_flag_set [simp]:
  "request_flag f (request_set_flag g r) \<longleftrightarrow> f = g \<or> request_flag f r"
  using flag_index_less [of f] flag_index_less [of g]
  by (auto simp: request_flag_bit request_set_flag_def flag_bits_index bit_simps flag_index_inj)

lemma request_invalid_set [simp]:
  "request_invalid (request_set_flag f r) \<longleftrightarrow> f = Flag_invalid \<or> request_invalid r"
  by (auto simp: request_invalid_def)

lemma request_set_flag_fields [simp]:
  "req_id (request_set_flag f r) = req_id r"
  "req_metadata (request_set_flag f r) = req_metadata r"
  "req_msg (request_set_flag f r) = req_msg r"
  "req_method (request_set_flag f r) = req_method r"
  "req_service (request_set_flag f r) = req_service r"
  by (simp_all add: request_set_flag_def)

lemma request_invalid_update [simp]:
  "request_invalid (r\<lparr>req_metadata := md\<rparr>) = request_invalid r"
  "request_invalid (r\<lparr>req_msg := m\<rparr>) = request_invalid r"
  "request_invalid (r\<lparr>req_service := s\<rparr>) = request_invalid r"
  "request_invalid (r\<lparr>req_method := s\<rparr>) = request_invalid r"
  by (simp_all add: request_invalid_def request_flag_def)

lemma request_new_valid [simp]: "\<not> request_invalid (request_new i)"
  by (simp add: request_invalid_def request_flag_def request_new_def)

section \<open>One header\<close>

lemma request_new_fields [simp]:
  "req_id (request_new i) = i" "req_metadata (request_new i) = []"
  "req_msg (request_new i) = message_default" "req_service (request_new i) = []"
  "req_method (request_new i) = []"
  by (simp_all add: request_new_def)

lemma path_search:
  "str_find (c # cs) x (Suc 0) = map_option Suc (index_of x cs)"
  by (cases "index_of x cs") (simp_all add: str_find_def)

lemma split_path_find:
  "split_path v =
     (if str_front v \<noteq> CHR ''/'' then None
      else case str_find v (CHR ''/'') 1 of
          None \<Rightarrow> None
        | Some n \<Rightarrow> if str_substr_from v (n + 1) = [] then None
                    else Some (str_substr v 1 (n - 1), str_substr_from v (n + 1)))"
proof (cases v)
  case (Cons c cs)
  show ?thesis
  proof (cases "index_of (CHR ''/'') cs")
    case None
    then have "dropWhile (\<lambda>x. x \<noteq> CHR ''/'') cs = []" by (auto simp: index_of_None)
    with None Cons show ?thesis
      by (simp add: split_path_def str_front_def path_search del: dropWhile_eq_Nil_conv)
  next
    case (Some n)
    with index_of_takeWhile [OF Some] Cons show ?thesis
      by (simp add: split_path_def str_front_def path_search str_substr_def str_substr_from_def)
  qed
qed (simp add: split_path_def str_front_def)

lemma request_flag_update [simp]:
  "request_flag f (r\<lparr>req_service := s\<rparr>) = request_flag f r"
  "request_flag f (r\<lparr>req_method := s\<rparr>) = request_flag f r"
  by (simp_all add: request_flag_def)

lemma split_path_join:
  assumes "CHR ''/'' \<notin> set svc" "meth \<noteq> []"
  shows "split_path (''/'' @ svc @ ''/'' @ meth) = Some (svc, meth)"
  using assms(2) index_of_takeWhile [OF index_of_append [OF assms(1), of meth]]
  by (simp add: split_path_def)

lemma request_header_path:
  assumes "\<not> request_invalid r" "split_path v = Some (svc, meth)"
  shows "request_header '':path'' v r =
     (request_set_flag Flag_header_path r)\<lparr>req_service := svc, req_method := meth\<rparr>"
  using assms unfolding split_path_find
  by (auto simp: request_header_def Let_def split: if_splits option.splits)

lemma request_header_bad:
  "bad_header (n, v) \<Longrightarrow> request_invalid (request_header n v r)"
  unfolding bad_header_def split_path_find
  by (auto simp: request_header_def Let_def split: if_splits option.splits)

lemma request_header_valid:
  "\<not> bad_header (n, v) \<Longrightarrow> request_invalid (request_header n v r) = request_invalid r"
  unfolding bad_header_def split_path_find
  by (auto simp: request_header_def Let_def split: if_splits option.splits)

lemma request_header_invalid: "request_invalid r \<Longrightarrow> request_header n v r = r"
  by (simp add: request_header_def)

lemma request_header_id [simp]: "req_id (request_header n v r) = req_id r"
  by (simp add: request_header_def Let_def split: option.splits)

lemma request_header_msg [simp]: "req_msg (request_header n v r) = req_msg r"
  by (simp add: request_header_def Let_def split: option.splits)

lemma request_header_metadata:
  assumes "\<not> request_invalid r" "\<not> bad_header (n, v)"
  shows "req_metadata (request_header n v r) =
     (if custom_header (n, v) then um_emplace n v (req_metadata r) else req_metadata r)"
  using assms unfolding bad_header_def custom_header_def
  by (auto simp: request_header_def Let_def starts_with_def split: option.splits)

lemma request_header_target:
  assumes "\<not> request_invalid r" "\<not> bad_header (n, v)"
  shows "(req_service (request_header n v r), req_method (request_header n v r)) =
     (if n = '':path'' then the (split_path v) else (req_service r, req_method r))"
proof (cases "n = '':path''")
  case True
  with assms(2) obtain svc meth where "split_path v = Some (svc, meth)"
    by (auto simp: bad_header_def)
  with assms(1) True show ?thesis by (simp add: request_header_path)
next
  case False
  then show ?thesis by (simp add: request_header_def Let_def)
qed

section \<open>Header sequences\<close>

lemma request_headers_Cons [simp]:
  "request_headers [] r = r"
  "request_headers ((n, v) # hs) r = request_headers hs (request_header n v r)"
  by (simp_all add: request_headers_def)

lemma request_headers_id [simp]: "req_id (request_headers hs r) = req_id r"
  by (induction hs arbitrary: r) auto

lemma request_headers_msg [simp]: "req_msg (request_headers hs r) = req_msg r"
  by (induction hs arbitrary: r) auto

lemma request_headers_sticky: "request_invalid r \<Longrightarrow> request_headers hs r = r"
  by (induction hs) (auto simp: request_header_invalid)

lemma request_headers_invalid:
  "request_invalid (request_headers hs r) \<longleftrightarrow> request_invalid r \<or> list_ex bad_header hs"
proof (induction hs arbitrary: r)
  case (Cons h hs)
  obtain n v where h: "h = (n, v)" by force
  show ?case
    by (cases "bad_header h") (simp_all add: h Cons.IH request_header_bad request_header_valid)
qed simp

lemma request_headers_metadata:
  assumes "\<not> request_invalid r" "\<not> list_ex bad_header hs"
  shows "req_metadata (request_headers hs r) =
     fold (\<lambda>(k, v). um_emplace k v) (filter custom_header hs) (req_metadata r)"
  using assms
proof (induction hs arbitrary: r)
  case (Cons h hs)
  then show ?case
    by (cases h) (auto simp: request_header_metadata request_header_valid)
qed simp

lemma request_headers_target:
  assumes "\<not> request_invalid r" "\<not> list_ex bad_header hs"
  shows "(req_service (request_headers hs r), req_method (request_headers hs r)) =
     fold (\<lambda>h acc. if fst h = '':path'' then the (split_path (snd h)) else acc) hs
       (req_service r, req_method r)"
  using assms
proof (induction hs arbitrary: r)
  case (Cons h hs)
  obtain n v where h: "h = (n, v)" by force
  with Cons show ?case
    by (simp add: request_header_valid request_header_target [symmetric] split: prod.splits)
qed simp

section \<open>Data chunks\<close>

lemma request_reads_Cons [simp]:
  "request_reads [] r = r"
  "request_reads (c # cs) r = request_reads cs (request_read c r)"
  by (simp_all add: request_reads_def)

lemma request_read_id [simp]: "req_id (request_read d r) = req_id r"
  by (simp add: request_read_def split: sum.splits)

lemma request_read_invalid: "request_invalid r \<Longrightarrow> request_read d r = r"
  by (simp add: request_read_def)

lemma request_reads_sticky: "request_invalid r \<Longrightarrow> request_reads cs r = r"
  by (induction cs) (auto simp: request_read_invalid)

lemma request_reads_ok:
  "\<not> request_invalid r \<Longrightarrow> message_read_all (req_msg r) cs = Inr m \<Longrightarrow>
     request_reads cs r = r\<lparr>req_msg := m\<rparr>"
  by (induction cs arbitrary: r) (auto simp: request_read_def split: sum.splits)

lemma request_reads_error:
  "\<not> request_invalid r \<Longrightarrow> message_read_all (req_msg r) cs = Inl e \<Longrightarrow>
     request_invalid (request_reads cs r)"
  by (induction cs arbitrary: r) (auto simp: request_read_def request_reads_sticky split: sum.splits)

section \<open>Properties\<close>

text \<open>Which header sequences make a request invalid: exactly those with a \<^verbatim>\<open>:method\<close> other than
  POST, a \<^verbatim>\<open>:path\<close> that is not \<^verbatim>\<open>/service/method\<close>, or a \<^verbatim>\<open>content-type\<close> outside
  \<^verbatim>\<open>application/grpc*\<close>, wherever it stands in the sequence.\<close>

theorem request_headers_invalid_iff:
  "request_invalid (request_headers hs (request_new i)) \<longleftrightarrow> list_ex bad_header hs"
  by (simp add: request_headers_invalid)

text \<open>C15: \<^verbatim>\<open>operator bool\<close>, the test the server applies: a request is accepted exactly when no
  header is bad and the last \<^verbatim>\<open>:path\<close> names a service (the method is then non-empty).\<close>

theorem request_accepted_iff:
  "request_bool (request_headers hs (request_new i)) \<longleftrightarrow>
     \<not> list_ex bad_header hs \<and> fst (path_target hs) \<noteq> [] \<and> snd (path_target hs) \<noteq> []"
proof (cases "list_ex bad_header hs")
  case False
  let ?r = "request_headers hs (request_new i)"
  have "(req_service ?r, req_method ?r) = path_target hs"
    using request_headers_target [of "request_new i" hs] False by (simp add: path_target_def)
  then have "req_service ?r = fst (path_target hs)" "req_method ?r = snd (path_target hs)"
    by (metis fst_conv, metis snd_conv)
  with False show ?thesis by (simp add: request_bool_def request_headers_invalid)
qed (simp add: request_bool_def request_headers_invalid)

text \<open>Path round trip: the path \<^verbatim>\<open>/svc/meth\<close> is cut into \<open>svc\<close> and \<open>meth\<close>, where \<open>meth\<close> may
  itself contain slashes.\<close>

theorem request_path_roundtrip:
  assumes "CHR ''/'' \<notin> set svc" "meth \<noteq> []" "\<not> request_invalid r"
  shows "let r' = request_header '':path'' (''/'' @ svc @ ''/'' @ meth) r
     in req_service r' = svc \<and> req_method r' = meth \<and> \<not> request_invalid r' \<and>
        request_flag Flag_header_path r'"
proof -
  from split_path_join [OF assms(1,2)] assms(3) show ?thesis
    by (simp add: request_header_path)
qed

theorem request_path_roundtrip_witness:
  "let r' = request_header '':path'' ''/helloworld.v1.Greeter/Hello'' (request_new 1)
   in req_service r' = ''helloworld.v1.Greeter'' \<and> req_method r' = ''Hello'' \<and>
      \<not> request_invalid r' \<and> request_flag Flag_header_path r'"
  using request_path_roundtrip [of "''helloworld.v1.Greeter''" "''Hello''" "request_new 1"] by simp

text \<open>Custom metadata: after a sequence without a bad header, a lookup finds the first value
  sent under that name, and only names that are neither \<^verbatim>\<open>content-type\<close> nor start with
  \<^verbatim>\<open>:\<close> or \<^verbatim>\<open>grpc-\<close>.\<close>

theorem request_metadata_first:
  assumes "\<not> list_ex bad_header hs"
  shows "um_find k (req_metadata (request_headers hs (request_new i))) =
     map_of (filter custom_header hs) k"
  using assms
  by (simp add: request_headers_metadata um.find_emplace_all um.find_empty)

theorem request_metadata_first_witness:
  "um_find ''k'' (req_metadata (request_headers
     [('':method'', ''POST''), (''k'', ''1''), (''grpc-timeout'', ''1S''), (''k'', ''2'')] (request_new 3))) =
   Some ''1''"
  by (subst request_metadata_first)
    (simp_all add: bad_header_def custom_header_def starts_with_def)

text \<open>The invalid flag is sticky: no header and no data chunk changes an invalid request.\<close>

theorem request_invalid_sticky:
  "request_invalid r \<Longrightarrow> request_reads cs (request_headers hs r) = r"
  by (simp add: request_headers_sticky request_reads_sticky)

theorem request_invalid_sticky_witness:
  "let r = request_header '':method'' ''GET'' (request_new 1)
   in request_reads [[0, 0, 0, 0, 0]] (request_headers [('':method'', ''POST'')] r) = r"
proof -
  have "request_invalid (request_header '':method'' ''GET'' (request_new 1))"
    by (rule request_header_bad) (simp add: bad_header_def)
  then show ?thesis unfolding Let_def by (rule request_invalid_sticky)
qed

end
