(* ===== verification/Status.thy ===== *)
theory Status
  imports Prelude
begin

text \<open>
  \<^verbatim>\<open>grpcxx::status\<close> (lib/grpcxx/status.h): a gRPC status code with optional details. \<^verbatim>\<open>str()\<close>
  computes the decimal text of the code once and keeps it in the mutable member \<open>_str\<close>; the
  connection sends that text in the \<^verbatim>\<open>grpc-status\<close> trailer.
\<close>

datatype code_t =
    Code_ok | Code_cancelled | Code_unknown | Code_invalid_argument | Code_deadline_exceeded
  | Code_not_found | Code_already_exists | Code_permission_denied | Code_resource_exhausted
  | Code_failed_precondition | Code_aborted | Code_out_of_range | Code_unimplemented
  | Code_internal | Code_unavailable | Code_data_loss | Code_unauthenticated

fun code_value :: "code_t \<Rightarrow> int" where
  "code_value Code_ok = 0"
| "code_value Code_cancelled = 1"
| "code_value Code_unknown = 2"
| "code_value Code_invalid_argument = 3"
| "code_value Code_deadline_exceeded = 4"
| "code_value Code_not_found = 5"
| "code_value Code_already_exists = 6"
| "code_value Code_permission_denied = 7"
| "code_value Code_resource_exhausted = 8"
| "code_value Code_failed_precondition = 9"
| "code_value Code_aborted = 10"
| "code_value Code_out_of_range = 11"
| "code_value Code_unimplemented = 12"
| "code_value Code_internal = 13"
| "code_value Code_unavailable = 14"
| "code_value Code_data_loss = 15"
| "code_value Code_unauthenticated = 16"

text \<open>Scoped enumerators compare by their underlying value.\<close>

lemma code_value_inject: "code_value c = code_value d \<longleftrightarrow> c = d"
  by (cases c; cases d) simp_all

instantiation code_t :: linorder
begin

definition less_eq_code_t :: "code_t \<Rightarrow> code_t \<Rightarrow> bool" where
  "less_eq_code_t c d = (code_value c \<le> code_value d)"

definition less_code_t :: "code_t \<Rightarrow> code_t \<Rightarrow> bool" where
  "less_code_t c d = (code_value c < code_value d)"

instance
  by standard (auto simp: less_eq_code_t_def less_code_t_def code_value_inject)

end

text \<open>\<^verbatim>\<open>std::to_string\<close> of an integer.\<close>

fun digits :: "nat \<Rightarrow> string" where
  "digits n = (if n < 10 then [''0123456789'' ! n] else digits (n div 10) @ [''0123456789'' ! (n mod 10)])"

declare digits.simps [simp del]

definition to_string :: "int \<Rightarrow> string" where
  "to_string i = (if i < 0 then CHR ''-'' # digits (nat (- i)) else digits (nat i))"

record status =
  st_code :: code_t
  st_details :: string
  st_str :: string

definition status_of_code :: "code_t \<Rightarrow> status" where
  "status_of_code c = \<lparr>st_code = c, st_details = [], st_str = []\<rparr>"

definition status_of_details :: "code_t \<Rightarrow> string \<Rightarrow> status" where
  "status_of_details c d = \<lparr>st_code = c, st_details = d, st_str = []\<rparr>"

text \<open>\<^verbatim>\<open>str()\<close>, also \<^verbatim>\<open>operator std::string_view\<close>: the text and the status with its cache filled.\<close>

definition status_text :: "status \<Rightarrow> string \<times> status" where
  "status_text s =
     (let s' = (if st_str s = [] then s\<lparr>st_str := to_string (code_value (st_code s))\<rparr> else s)
      in (st_str s', s'))"

text \<open>The cache is empty or holds the code's text.\<close>

definition status_wf :: "status \<Rightarrow> bool" where
  "status_wf s \<longleftrightarrow> st_str s = [] \<or> st_str s = to_string (code_value (st_code s))"

text \<open>What a peer reads in the \<^verbatim>\<open>grpc-status\<close> trailer: a decimal number that is a known code.\<close>

definition all_codes :: "code_t list" where
  "all_codes =
     [Code_ok, Code_cancelled, Code_unknown, Code_invalid_argument, Code_deadline_exceeded,
      Code_not_found, Code_already_exists, Code_permission_denied, Code_resource_exhausted,
      Code_failed_precondition, Code_aborted, Code_out_of_range, Code_unimplemented,
      Code_internal, Code_unavailable, Code_data_loss, Code_unauthenticated]"

definition digit_value :: "char \<Rightarrow> nat" where
  "digit_value c = the (index_of c ''0123456789'')"

definition code_of_text :: "string \<Rightarrow> code_t option" where
  "code_of_text t =
     find (\<lambda>c. code_value c = int (foldl (\<lambda>n c. 10 * n + digit_value c) 0 t)) all_codes"

section \<open>Lemmas\<close>

lemma digits_nonempty: "digits n \<noteq> []"
  by (subst digits.simps) simp

lemma digit_value_nth: "n < 10 \<Longrightarrow> digit_value (''0123456789'' ! n) = n"
  unfolding digit_value_def
  by (auto simp: less_Suc_eq numeral_eq_Suc)

lemma digits_value: "foldl (\<lambda>m c. 10 * m + digit_value c) 0 (digits n) = n"
proof (induction n rule: digits.induct)
  case (1 n)
  show ?case
  proof (cases "n < 10")
    case True
    then show ?thesis by (subst digits.simps) (simp add: digit_value_nth)
  next
    case False
    with 1 show ?thesis by (subst digits.simps) (simp add: digit_value_nth)
  qed
qed

lemma code_value_nonneg: "0 \<le> code_value c"
  by (cases c) simp_all

lemma to_string_code: "to_string (code_value c) = digits (nat (code_value c))"
  using code_value_nonneg [of c] by (simp add: to_string_def)

lemma to_string_code_nonempty: "to_string (code_value c) \<noteq> []"
  by (simp add: to_string_code digits_nonempty)

lemma find_code: "find (\<lambda>d. code_value d = code_value c) all_codes = Some c"
  by (cases c) (simp_all add: all_codes_def)

lemma code_of_to_string: "code_of_text (to_string (code_value c)) = Some c"
  using code_value_nonneg [of c] find_code [of c]
  by (simp add: code_of_text_def to_string_code digits_value)

lemma status_text_wf:
  "status_wf s \<Longrightarrow> fst (status_text s) = to_string (code_value (st_code s)) \<and>
     status_wf (snd (status_text s)) \<and> st_code (snd (status_text s)) = st_code s \<and>
     st_details (snd (status_text s)) = st_details s"
  by (auto simp: status_text_def status_wf_def Let_def)

lemma status_wf_new [simp]: "status_wf (status_of_code c)" "status_wf (status_of_details c d)"
  by (simp_all add: status_wf_def status_of_code_def status_of_details_def)

section \<open>Properties\<close>

text \<open>The text a status renders to determines its code, whether or not the cache was filled
  before: a peer that reads the decimal number gets the code back, and rendering leaves code
  and details as they are.\<close>

theorem status_text_roundtrip:
  assumes "status_wf s"
  shows "code_of_text (fst (status_text s)) = Some (st_code s) \<and>
     code_of_text (fst (status_text (snd (status_text s)))) = Some (st_code s) \<and>
     st_details (snd (status_text s)) = st_details s"
  using assms status_text_wf [of s] status_text_wf [of "snd (status_text s)"]
  by (simp add: code_of_to_string)

theorem status_text_roundtrip_witness:
  "code_of_text (fst (status_text (status_of_code Code_unauthenticated))) = Some Code_unauthenticated"
  using status_text_roundtrip [OF status_wf_new(1), of Code_unauthenticated]
  by (simp add: status_of_code_def)

end
