(* ===== verification/Service.thy ===== *)
theory Service
  imports Request Status
begin

text \<open>
  The request/response layer above the transport: \<^verbatim>\<open>grpcxx::context\<close> (context.h, context.cpp),
  \<^verbatim>\<open>detail::response\<close> (response.h), \<^verbatim>\<open>fixed_string\<close> (fixed_string.h), \<^verbatim>\<open>grpcxx::rpc\<close> (rpc.h),
  \<^verbatim>\<open>grpcxx::service\<close> (service.h) and \<^verbatim>\<open>server_base\<close> (server_base.h, server_base.cpp).

  Protobuf's \<^verbatim>\<open>ParseFromArray\<close> and \<^verbatim>\<open>SerializeToString\<close> are fields of the rpc, the application's
  \<^verbatim>\<open>call<rpc>\<close> is an argument of the service constructor. An application call may return a status
  with an optional response, or throw.
\<close>

section \<open>context\<close>

record call_context =
  ctx_meta :: "(string, string) umap"

definition context_of_request :: "request \<Rightarrow> call_context" where
  "context_of_request r = \<lparr>ctx_meta = fold (\<lambda>(k, v). um_emplace k v) (req_metadata r) []\<rparr>"

definition context_meta :: "call_context \<Rightarrow> string \<Rightarrow> string" where
  "context_meta c key = (case um_find key (ctx_meta c) of None \<Rightarrow> [] | Some v \<Rightarrow> v)"

section \<open>response\<close>

record response =
  resp_id :: stream_id
  resp_msg :: message
  resp_status :: status

definition response_new :: "stream_id \<Rightarrow> code_t \<Rightarrow> response" where
  "response_new i c = \<lparr>resp_id = i, resp_msg = message_default, resp_status = status_of_code c\<rparr>"

definition response_bytes :: "response \<Rightarrow> bytes" where
  "response_bytes r = message_bytes (resp_msg r)"

definition response_set_data :: "bytes \<Rightarrow> response \<Rightarrow> response" where
  "response_set_data d r = r\<lparr>resp_msg := message_of_string d\<rparr>"

definition response_set_status :: "status \<Rightarrow> response \<Rightarrow> response" where
  "response_set_status s r = r\<lparr>resp_status := s\<rparr>"

section \<open>fixed_string\<close>

text \<open>\<open>fs_N\<close> is the template argument of \<^verbatim>\<open>basic_fixed_string\<close>, \<open>fs_value\<close> its array of
  \<open>N + 1\<close> characters.\<close>

record fixed_string =
  fs_N :: nat
  fs_value :: string

text \<open>Construction from a character array (a literal with its terminating NUL).\<close>

definition fixed_string_new :: "string \<Rightarrow> fixed_string" where
  "fixed_string_new str = (let n = length str - 1 in \<lparr>fs_N = n, fs_value = take (n + 1) str\<rparr>)"

definition fixed_string_view :: "fixed_string \<Rightarrow> string" where
  "fixed_string_view s = take (fs_N s) (fs_value s)"

definition fixed_string_size :: "fixed_string \<Rightarrow> nat" where
  "fixed_string_size s = fs_N s"

definition fixed_string_eq :: "fixed_string \<Rightarrow> fixed_string \<Rightarrow> bool" where
  "fixed_string_eq a b = (fs_N a = fs_N b \<and> fixed_string_view a = fixed_string_view b)"

definition literal :: "string \<Rightarrow> string" where
  "literal s = s @ [CHR 0x00]"

section \<open>rpc\<close>

record ('q, 'p) rpc =
  rpc_name :: fixed_string
  rpc_parse :: "bytes \<Rightarrow> 'q option"
  rpc_serialize :: "'p \<Rightarrow> bytes option"

definition rpc_method :: "('q, 'p) rpc \<Rightarrow> string" where
  "rpc_method r = fixed_string_view (rpc_name r)"

definition rpc_map_request :: "('q, 'p) rpc \<Rightarrow> bytes \<Rightarrow> cpp_exn + 'q" where
  "rpc_map_request r d =
     (case rpc_parse r d of
        None \<Rightarrow> Inl (Runtime_error ''Failed to deserialize data'')
      | Some q \<Rightarrow> Inr q)"

definition rpc_map_response :: "('q, 'p) rpc \<Rightarrow> 'p option \<Rightarrow> cpp_exn + bytes" where
  "rpc_map_response r res =
     (case res of
        None \<Rightarrow> Inr []
      | Some p \<Rightarrow>
          (case rpc_serialize r p of
             None \<Rightarrow> Inl (Runtime_error ''Failed to serialize data'')
           | Some d \<Rightarrow> Inr d))"

section \<open>service\<close>

type_synonym handler = "call_context \<Rightarrow> bytes \<Rightarrow> cpp_exn + (status \<times> bytes)"
type_synonym ('q, 'p) impl =
  "('q, 'p) rpc \<Rightarrow> call_context \<Rightarrow> 'q \<Rightarrow> cpp_exn + (status \<times> 'p option)"

record service =
  svc_name :: fixed_string
  svc_handlers :: "(string, handler) umap"

text \<open>The lambda \<^verbatim>\<open>handler\<close> of the constructor.\<close>

definition service_handler :: "('q, 'p) impl \<Rightarrow> ('q, 'p) rpc \<Rightarrow> handler" where
  "service_handler impl rpc ctx d =
     (case rpc_map_request rpc d of
        Inl e \<Rightarrow> Inl e
      | Inr req \<Rightarrow>
          (case impl rpc ctx req of
             Inl e \<Rightarrow> Inl e
           | Inr (st, res) \<Rightarrow>
               (case rpc_map_response rpc res of
                  Inl e \<Rightarrow> Inl e
                | Inr out \<Rightarrow> Inr (st, out))))"

definition service_new :: "fixed_string \<Rightarrow> ('q, 'p) impl \<Rightarrow> ('q, 'p) rpc list \<Rightarrow> service" where
  "service_new name impl rpcs =
     \<lparr>svc_name = name,
      svc_handlers =
        fold (\<lambda>rpc. um_emplace (rpc_method rpc) (service_handler impl rpc)) rpcs []\<rparr>"

definition service_call :: "service \<Rightarrow> call_context \<Rightarrow> string \<Rightarrow> bytes \<Rightarrow> cpp_exn + (status \<times> bytes)" where
  "service_call svc ctx meth d =
     (case um_find meth (svc_handlers svc) of
        None \<Rightarrow> Inr (status_of_code Code_not_found, [])
      | Some h \<Rightarrow> h ctx d)"

definition service_name :: "service \<Rightarrow> string" where
  "service_name svc = fixed_string_view (svc_name svc)"

section \<open>server_base\<close>

type_synonym fn_t = "call_context \<Rightarrow> string \<Rightarrow> bytes \<Rightarrow> cpp_exn + (status \<times> bytes)"

record server_base =
  sb_services :: "(string, fn_t) umap"

definition server_base_new :: server_base where
  "server_base_new = \<lparr>sb_services = []\<rparr>"

definition server_add :: "service \<Rightarrow> server_base \<Rightarrow> server_base" where
  "server_add s sb = sb\<lparr>sb_services := um_emplace (service_name s) (service_call s) (sb_services sb)\<rparr>"

text \<open>\<^verbatim>\<open>process\<close> is \<^verbatim>\<open>noexcept\<close> and catches \<^verbatim>\<open>std::exception\<close> only.\<close>

definition server_process :: "server_base \<Rightarrow> request \<Rightarrow> response outcome" where
  "server_process sb req =
     (if \<not> request_bool req then Return (response_new (req_id req) Code_invalid_argument)
      else
        case um_find (req_service req) (sb_services sb) of
          None \<Rightarrow> Return (response_new (req_id req) Code_not_found)
        | Some fn \<Rightarrow>
            (let ctx = context_of_request req;
                 resp = response_new (req_id req) Code_ok
             in case fn ctx (req_method req) (request_data req) of
                  Inl e \<Rightarrow>
                    if is_std_exception e then Return (response_new (req_id req) Code_internal)
                    else Terminate
                | Inr (st, out) \<Rightarrow>
                    Return (response_set_data out (response_set_status st resp))))"

definition server_of :: "service list \<Rightarrow> server_base" where
  "server_of svcs = fold server_add svcs server_base_new"

section \<open>Lemmas\<close>

lemma fixed_string_literal [simp]: "fixed_string_view (fixed_string_new (literal s)) = s"
  by (simp add: fixed_string_view_def fixed_string_new_def literal_def)

lemma fold_emplace_map:
  "fold (\<lambda>x. um_emplace (f x) (g x)) xs m =
     fold (\<lambda>(k, v). um_emplace k v) (map (\<lambda>x. (f x, g x)) xs) m"
  by (induction xs arbitrary: m) auto

lemma find_handler:
  "um_find meth (svc_handlers (service_new name impl rpcs)) =
     map_of (map (\<lambda>rpc. (rpc_method rpc, service_handler impl rpc)) rpcs) meth"
  by (simp add: service_new_def fold_emplace_map um.find_emplace_all um.find_empty)

lemma sb_services_of:
  "sb_services (fold server_add svcs sb) =
     fold (\<lambda>s. um_emplace (service_name s) (service_call s)) svcs (sb_services sb)"
  by (induction svcs arbitrary: sb) (simp_all add: server_add_def)

lemma find_service:
  "um_find n (sb_services (server_of svcs)) =
     map_of (map (\<lambda>s. (service_name s, service_call s)) svcs) n"
  by (simp add: server_of_def sb_services_of server_base_new_def fold_emplace_map
      um.find_emplace_all um.find_empty)

lemma find_append:
  "find P (xs @ ys) = (case find P xs of None \<Rightarrow> find P ys | Some x \<Rightarrow> Some x)"
  by (induction xs) auto

lemma find_snoc_taken:
  assumes "f y \<in> f ` set xs"
  shows "find (\<lambda>x. f x = k) (xs @ [y]) = find (\<lambda>x. f x = k) xs"
proof (cases "find (\<lambda>x. f x = k) xs")
  case None
  with assms have "f y \<noteq> k" by (auto simp: find_None_iff)
  with None show ?thesis by (simp add: find_append)
qed (simp add: find_append)

lemma service_name_new [simp]: "service_name (service_new n impl rpcs) = fixed_string_view n"
  by (simp add: service_name_def service_new_def)

lemma map_of_find:
  "map_of (map (\<lambda>x. (f x, g x)) xs) k = map_option g (find (\<lambda>x. f x = k) xs)"
  by (induction xs) auto

lemma find_context_meta:
  "um_find k (ctx_meta (context_of_request r)) = um_find k (req_metadata r)"
  unfolding context_of_request_def
  by (simp add: um.find_emplace_all um.find_empty) (simp add: um_find_def)

lemma response_new_bytes [simp]: "response_bytes (response_new i c) = []"
  by (simp add: response_bytes_def response_new_def message_simps)

lemma response_set_fields [simp]:
  "resp_id (response_set_data d r) = resp_id r" "resp_id (response_set_status s r) = resp_id r"
  "resp_status (response_set_data d r) = resp_status r" "resp_status (response_set_status s r) = s"
  "response_bytes (response_set_data d r) = message_bytes (message_of_string d)"
  by (simp_all add: response_set_data_def response_set_status_def response_bytes_def)

lemma response_new_fields [simp]:
  "resp_id (response_new i c) = i" "resp_status (response_new i c) = status_of_code c"
  by (simp_all add: response_new_def)

lemma server_process_found:
  assumes "request_bool req" "um_find (req_service req) (sb_services sb) = Some fn"
  shows "server_process sb req =
     (case fn (context_of_request req) (req_method req) (request_data req) of
        Inl e \<Rightarrow> if is_std_exception e then Return (response_new (req_id req) Code_internal) else Terminate
      | Inr (st, out) \<Rightarrow>
          Return (response_set_data out (response_set_status st (response_new (req_id req) Code_ok))))"
  using assms by (simp add: server_process_def Let_def)

text \<open>The outcome is a response for the stream \<open>i\<close> with the status \<open>st\<close> and the framed data \<open>d\<close>.\<close>

definition answered_with :: "int \<Rightarrow> status \<Rightarrow> bytes \<Rightarrow> response outcome \<Rightarrow> bool" where
  "answered_with i st d r =
     (case r of
        Return resp \<Rightarrow>
          resp_id resp = i \<and> resp_status resp = st \<and> response_bytes resp = message_bytes (message_of_string d)
      | Terminate \<Rightarrow> False)"

lemma server_process_rejected:
  "\<not> request_bool req \<Longrightarrow> server_process sb req = Return (response_new (req_id req) Code_invalid_argument)"
  by (simp add: server_process_def)

lemma server_process_unrouted:
  assumes "request_bool req" "find (\<lambda>s. service_name s = req_service req) svcs = None"
  shows "server_process (server_of svcs) req = Return (response_new (req_id req) Code_not_found)"
proof -
  have "um_find (req_service req) (sb_services (server_of svcs)) = None"
    using assms(2) by (simp add: find_service map_of_find)
  with assms(1) show ?thesis by (simp add: server_process_def)
qed

lemma service_call_found:
  "find (\<lambda>r. rpc_method r = meth) rpcs = Some rpc \<Longrightarrow>
     service_call (service_new name impl rpcs) ctx meth d = service_handler impl rpc ctx d"
  by (simp add: service_call_def find_handler map_of_find)

lemma service_call_unknown:
  "find (\<lambda>r. rpc_method r = meth) rpcs = None \<Longrightarrow>
     service_call (service_new name impl rpcs) ctx meth d = Inr (status_of_code Code_not_found, [])"
  by (simp add: service_call_def find_handler map_of_find)

lemma server_dispatches:
  assumes "request_bool req"
    and "find (\<lambda>s. service_name s = req_service req) svcs = Some (service_new name impl rpcs)"
    and "find (\<lambda>r. rpc_method r = req_method req) rpcs = Some rpc"
    and "rpc_parse rpc (request_data req) = Some q"
    and "impl rpc (context_of_request req) q = Inr (st, Some p)"
    and "rpc_serialize rpc p = Some out"
  shows "\<exists>resp. server_process (server_of svcs) req = Return resp \<and> resp_id resp = req_id req \<and>
     resp_status resp = st \<and> response_bytes resp = message_bytes (message_of_string out)"
proof -
  have "um_find (req_service req) (sb_services (server_of svcs)) =
      Some (service_call (service_new name impl rpcs))"
    using assms(2) by (simp add: find_service map_of_find)
  moreover have "service_call (service_new name impl rpcs) (context_of_request req) (req_method req)
      (request_data req) = Inr (st, out)"
    using assms(3-6)
    by (simp add: service_call_found service_handler_def rpc_map_request_def rpc_map_response_def)
  ultimately show ?thesis using assms(1) by (simp add: server_process_found)
qed

lemma server_process_routed:
  assumes "request_bool req"
    and "find (\<lambda>s. service_name s = req_service req) svcs = Some (service_new name impl rpcs)"
  shows "let r = server_process (server_of svcs) req
     in case find (\<lambda>r. rpc_method r = req_method req) rpcs of
          None \<Rightarrow> answered_with (req_id req) (status_of_code Code_not_found) [] r
        | Some rpc \<Rightarrow>
            (case rpc_parse rpc (request_data req) of
               None \<Rightarrow> r = Return (response_new (req_id req) Code_internal)
             | Some q \<Rightarrow>
                 (case impl rpc (context_of_request req) q of
                    Inl e \<Rightarrow> r = (if is_std_exception e then Return (response_new (req_id req) Code_internal) else Terminate)
                  | Inr (st, None) \<Rightarrow> answered_with (req_id req) st [] r
                  | Inr (st, Some p) \<Rightarrow>
                      (case rpc_serialize rpc p of
                         None \<Rightarrow> r = Return (response_new (req_id req) Code_internal)
                       | Some out \<Rightarrow> answered_with (req_id req) st out r)))"
proof -
  have "um_find (req_service req) (sb_services (server_of svcs)) = Some (service_call (service_new name impl rpcs))"
    using assms(2) by (simp add: find_service map_of_find)
  note p = server_process_found [OF assms(1) this]
  show ?thesis
  proof (cases "find (\<lambda>r. rpc_method r = req_method req) rpcs")
    case None
    then show ?thesis by (simp add: p service_call_unknown answered_with_def)
  next
    case (Some rpc)
    then show ?thesis
      by (auto simp: p service_call_found service_handler_def rpc_map_request_def rpc_map_response_def answered_with_def
          split: option.splits sum.splits)
  qed
qed

lemma context_meta_headers:
  assumes "\<not> list_ex bad_header hs"
  shows "context_meta (context_of_request (request_headers hs (request_new i))) key =
     (case map_of (filter custom_header hs) key of None \<Rightarrow> [] | Some v \<Rightarrow> v)"
proof -
  have "um_find key (req_metadata (request_headers hs (request_new i))) = map_of (filter custom_header hs) key"
    using assms by (simp add: request_headers_metadata um.find_emplace_all um.find_empty)
  then show ?thesis by (simp add: context_meta_def find_context_meta)
qed

text \<open>Two string literals used as template arguments compare equal exactly when they are the same text.\<close>

lemma fixed_string_eq_literal:
  "fixed_string_eq (fixed_string_new (literal s)) (fixed_string_new (literal t)) \<longleftrightarrow> s = t"
  by (auto simp: fixed_string_eq_def)

section \<open>Properties\<close>



text \<open>\<^verbatim>\<open>process\<close> answers every request, with a response for the stream of the request, unless
  the function the request is routed to throws something that is not a \<^verbatim>\<open>std::exception\<close>: then
  the \<^verbatim>\<open>noexcept\<close> member ends the program.\<close>

theorem server_process_answers:
  "(\<exists>resp. server_process sb req = Return resp \<and> resp_id resp = req_id req) \<longleftrightarrow>
     \<not> (request_bool req \<and>
        (\<exists>fn e. um_find (req_service req) (sb_services sb) = Some fn \<and>
           fn (context_of_request req) (req_method req) (request_data req) = Inl e \<and>
           \<not> is_std_exception e))"
  by (auto simp: server_process_def Let_def split: option.splits sum.splits if_splits)

text \<open>C32: every way a request can be answered, and with which code. A request that is not accepted gets
  \<^verbatim>\<open>invalid_argument\<close>, one for a service that was not added \<^verbatim>\<open>not_found\<close>, both without a message; one for
  a method that the service does not have gets \<^verbatim>\<open>not_found\<close> with an empty length-prefixed message. If
  the payload does not parse, the application throws a \<^verbatim>\<open>std::exception\<close> or its answer does not
  serialise, the code is \<^verbatim>\<open>internal\<close> and there is no message; if the application throws anything else
  the program ends. Otherwise the status is the application's, with its framed answer, or an
  empty message if it gave none. Each response is for the stream of its request.\<close>

theorem server_error_codes:
  "let r = server_process (server_of svcs) req in
    (\<not> request_bool req \<longrightarrow> r = Return (response_new (req_id req) Code_invalid_argument)) \<and>
    (request_bool req \<and> find (\<lambda>s. service_name s = req_service req) svcs = None \<longrightarrow>
       r = Return (response_new (req_id req) Code_not_found)) \<and>
    (request_bool req \<and> find (\<lambda>s. service_name s = req_service req) svcs = Some (service_new name impl rpcs) \<longrightarrow>
       (case find (\<lambda>r. rpc_method r = req_method req) rpcs of
          None \<Rightarrow> answered_with (req_id req) (status_of_code Code_not_found) [] r
        | Some rpc \<Rightarrow>
            (case rpc_parse rpc (request_data req) of
               None \<Rightarrow> r = Return (response_new (req_id req) Code_internal)
             | Some q \<Rightarrow>
                 (case impl rpc (context_of_request req) q of
                    Inl e \<Rightarrow> r = (if is_std_exception e then Return (response_new (req_id req) Code_internal) else Terminate)
                  | Inr (st, None) \<Rightarrow> answered_with (req_id req) st [] r
                  | Inr (st, Some p) \<Rightarrow>
                      (case rpc_serialize rpc p of
                         None \<Rightarrow> r = Return (response_new (req_id req) Code_internal)
                       | Some out \<Rightarrow> answered_with (req_id req) st out r)))))"
  unfolding Let_def
  by (intro conjI impI; (elim conjE)?;
      (erule server_process_rejected | erule (1) server_process_unrouted | erule (1) server_process_routed [unfolded Let_def]))

theorem server_error_codes_witness:
  "server_process
      (server_of [service_new (fixed_string_new (literal ''S''))
         (\<lambda>rpc ctx q. Inl (Runtime_error ''no'') :: cpp_exn + (status \<times> bytes option))
         [\<lparr>rpc_name = fixed_string_new (literal ''M''), rpc_parse = Some, rpc_serialize = Some\<rparr>]])
      (request_header '':path'' ''/S/M'' (request_new 7)) = Return (response_new 7 Code_internal)"
proof -
  let ?b = "(request_set_flag Flag_header_path (request_new 7))\<lparr>req_service := ''S'', req_method := ''M''\<rparr>"
  let ?rpc = "\<lparr>rpc_name = fixed_string_new (literal ''M''), rpc_parse = Some, rpc_serialize = Some\<rparr> :: (bytes, bytes) rpc"
  let ?impl = "(\<lambda>rpc ctx q. Inl (Runtime_error ''no'')) :: (bytes, bytes) impl"
  have "split_path ''/S/M'' = Some (''S'', ''M'')" by (simp add: split_path_def)
  then have h: "request_header '':path'' ''/S/M'' (request_new 7) = ?b"
    by (simp add: request_header_path)
  show ?thesis
    unfolding h
    using server_error_codes [where req = ?b and svcs = "[service_new (fixed_string_new (literal ''S'')) ?impl [?rpc]]"
        and name = "fixed_string_new (literal ''S'')" and impl = ?impl and rpcs = "[?rpc]"]
    by (simp add: request_bool_def rpc_method_def)
qed

text \<open>Adding a service under a name that is taken changes nothing: every request is answered
  as before.\<close>

theorem server_add_duplicate:
  assumes "service_name s \<in> service_name ` set svcs"
  shows "server_process (server_of (svcs @ [s])) req = server_process (server_of svcs) req"
proof -
  have "find (\<lambda>s. service_name s = n) (svcs @ [s]) = find (\<lambda>s. service_name s = n) svcs" for n
    using assms by (rule find_snoc_taken)
  then have "um_find n (sb_services (server_of (svcs @ [s]))) = um_find n (sb_services (server_of svcs))" for n
    unfolding find_service map_of_find by simp
  then show ?thesis by (simp add: server_process_def)
qed

theorem server_add_duplicate_witness:
  "server_process (server_of ([\<lparr>svc_name = fixed_string_new (literal ''S''), svc_handlers = []\<rparr>] @
       [\<lparr>svc_name = fixed_string_new (literal ''S''),
         svc_handlers = [(''M'', \<lambda>ctx d. Inl Foreign_exception)]\<rparr>])) (request_new 1) =
   server_process (server_of [\<lparr>svc_name = fixed_string_new (literal ''S''), svc_handlers = []\<rparr>]) (request_new 1)"
  by (rule server_add_duplicate) (simp add: service_name_def)

text \<open>What a handler sees as metadata is what the client sent: \<^verbatim>\<open>meta(key)\<close> is the first
  value of the custom header \<open>key\<close>, and empty when there is none.\<close>

theorem context_meta_of_headers:
  assumes "\<not> list_ex bad_header hs"
  shows "context_meta (context_of_request (request_headers hs (request_new i))) key =
     (case map_of (filter custom_header hs) key of None \<Rightarrow> [] | Some v \<Rightarrow> v)"
  by (rule context_meta_headers [OF assms])

theorem context_meta_of_headers_witness:
  "context_meta (context_of_request (request_headers
     [('':method'', ''POST''), (''k'', ''1''), (''k'', ''2'')] (request_new 3))) ''k'' = ''1''"
  by (subst context_meta_of_headers)
    (simp_all add: bad_header_def custom_header_def starts_with_def)

end
