(* ===== verification/H2_Session.thy ===== *)
theory H2_Session
  imports Prelude
begin

unbundle bit_operations_syntax

text \<open>
  \<^verbatim>\<open>grpcxx::h2::detail::session\<close> (lib/grpcxx/h2/session.h, session.cpp) with the event and header types
  of event.h and headers.h: a thin layer over nghttp2 that turns its callbacks into a list of
  events and hands it headers, data and trailers to send.

  nghttp2 is not part of the sources. It is a record of functions over an unspecified state:
  what a call returns, which of the registered callbacks it makes, in order, and, for
  \<^verbatim>\<open>nghttp2_session_mem_send2\<close>, the requests it makes to the data source's read callback before
  it returns. Those requests are a tree: nghttp2 asks for up to a number of bytes and goes on
  with what it gets.
\<close>

section \<open>Events\<close>

datatype type_t = Noop | Stream_close | Stream_data | Stream_end | Stream_header

record event =
  ev_data :: bytes
  ev_stream_id :: stream_id
  ev_type :: type_t
  ev_header :: "header option"

definition event_default :: event where
  "event_default = \<lparr>ev_data = [], ev_stream_id = -1, ev_type = Noop, ev_header = None\<rparr>"

section \<open>The nghttp2 interface\<close>

datatype ng_callback =
    On_header stream_id string string
  | On_data_chunk stream_id bytes
  | On_frame_recv byte stream_id
  | On_stream_close stream_id u32

datatype 'ng ng_send =
    Send_done int bytes "ng_callback list" 'ng
  | Send_read stream_id nat "bytes \<times> bool \<Rightarrow> 'ng ng_send"

record 'ng nghttp2 =
  ng_server_new :: 'ng
  ng_submit_settings :: "(int \<times> nat) list \<Rightarrow> 'ng \<Rightarrow> int \<times> 'ng"
  ng_mem_recv :: "bytes \<Rightarrow> 'ng \<Rightarrow> int \<times> ng_callback list \<times> 'ng"
  ng_mem_send :: "'ng \<Rightarrow> 'ng ng_send"
  ng_submit_headers :: "stream_id \<Rightarrow> header list \<Rightarrow> 'ng \<Rightarrow> int \<times> 'ng"
  ng_submit_data :: "stream_id \<Rightarrow> 'ng \<Rightarrow> int \<times> 'ng"
  ng_submit_trailer :: "stream_id \<Rightarrow> header list \<Rightarrow> 'ng \<Rightarrow> int \<times> 'ng"

section \<open>State and operations\<close>

record 'ng session =
  ses_data :: bytes
  ses_events :: "event list"
  ses_ng :: 'ng

definition NGHTTP2_SETTINGS_MAX_CONCURRENT_STREAMS :: int where
  "NGHTTP2_SETTINGS_MAX_CONCURRENT_STREAMS = 3"

definition NGHTTP2_FLAG_END_STREAM :: byte where
  "NGHTTP2_FLAG_END_STREAM = 0x01"

definition session_new :: "'ng nghttp2 \<Rightarrow> cpp_exn + 'ng session" where
  "session_new ng =
     (let (r, ng') = ng_submit_settings ng [(NGHTTP2_SETTINGS_MAX_CONCURRENT_STREAMS, 10)] (ng_server_new ng)
      in if r \<noteq> 0 then Inl (Runtime_error [])
         else Inr \<lparr>ses_data = [], ses_events = [], ses_ng = ng'\<rparr>)"

definition session_emit :: "event \<Rightarrow> 'ng session \<Rightarrow> 'ng session" where
  "session_emit ev s = s\<lparr>ses_events := ses_events s @ [ev]\<rparr>"

definition data_recv_cb :: "stream_id \<Rightarrow> bytes \<Rightarrow> 'ng session \<Rightarrow> 'ng session" where
  "data_recv_cb sid d s =
     session_emit (event_default\<lparr>ev_data := d, ev_stream_id := sid, ev_type := Stream_data\<rparr>) s"

definition frame_recv_cb :: "byte \<Rightarrow> stream_id \<Rightarrow> 'ng session \<Rightarrow> 'ng session" where
  "frame_recv_cb flags sid s =
     (if 0 \<noteq> flags AND NGHTTP2_FLAG_END_STREAM
      then session_emit (event_default\<lparr>ev_stream_id := sid, ev_type := Stream_end\<rparr>) s
      else s)"

definition header_cb :: "stream_id \<Rightarrow> string \<Rightarrow> string \<Rightarrow> 'ng session \<Rightarrow> 'ng session" where
  "header_cb sid name val s =
     session_emit
       (event_default\<lparr>ev_stream_id := sid, ev_type := Stream_header, ev_header := Some (name, val)\<rparr>) s"

definition stream_close_cb :: "stream_id \<Rightarrow> u32 \<Rightarrow> 'ng session \<Rightarrow> 'ng session" where
  "stream_close_cb sid error_code s =
     session_emit (event_default\<lparr>ev_stream_id := sid, ev_type := Stream_close\<rparr>) s"

text \<open>The registration of the four callbacks in the constructor.\<close>

fun session_callback :: "ng_callback \<Rightarrow> 'ng session \<Rightarrow> 'ng session" where
  "session_callback (On_header sid n v) s = header_cb sid n v s"
| "session_callback (On_data_chunk sid d) s = data_recv_cb sid d s"
| "session_callback (On_frame_recv flags sid) s = frame_recv_cb flags sid s"
| "session_callback (On_stream_close sid ec) s = stream_close_cb sid ec s"

definition session_callbacks :: "ng_callback list \<Rightarrow> 'ng session \<Rightarrow> 'ng session" where
  "session_callbacks cbs s = fold session_callback cbs s"

text \<open>\<^verbatim>\<open>read_cb\<close> over the string the data source points to: the bytes handed over, the end-of-data
  flag and what is left of the string.\<close>

definition read_cb :: "nat \<Rightarrow> bytes \<Rightarrow> (bytes \<times> bool) \<times> bytes" where
  "read_cb len str =
     (let (n, eof) = (if length str \<le> len then (length str, True) else (len, False))
      in ((take n str, eof), drop n str))"

text \<open>A call of \<^verbatim>\<open>nghttp2_session_mem_send2\<close>, its requests served by \<^verbatim>\<open>read_cb\<close> from \<open>_data\<close>.\<close>

primrec run_send :: "'ng ng_send \<Rightarrow> bytes \<Rightarrow> (int \<times> bytes \<times> ng_callback list \<times> 'ng) \<times> bytes" where
  "run_send (Send_done n out cbs ng) d = ((n, out, cbs, ng), d)"
| "run_send (Send_read sid len k) d =
     (let (got, d') = read_cb len d in run_send (k got) d')"

definition session_pending :: "'ng nghttp2 \<Rightarrow> 'ng session \<Rightarrow> (cpp_exn + bytes) \<times> 'ng session" where
  "session_pending ng s =
     (let ((n, out, cbs, ng'), d') = run_send (ng_mem_send ng (ses_ng s)) (ses_data s);
          s' = session_callbacks cbs (s\<lparr>ses_ng := ng', ses_data := d'\<rparr>)
      in if n < 0 then (Inl (Runtime_error ''Failed to retrieve pending session data: ''), s')
         else (Inr (take (nat n) out), s'))"

definition session_read ::
  "'ng nghttp2 \<Rightarrow> bytes \<Rightarrow> 'ng session \<Rightarrow> (cpp_exn + event list) \<times> 'ng session" where
  "session_read ng bs s =
     (let (n, cbs, ng') = ng_mem_recv ng bs (ses_ng s);
          s' = session_callbacks cbs (s\<lparr>ses_ng := ng'\<rparr>)
      in if n < 0 then (Inl (Runtime_error ''Failed to read session data: ''), s')
         else (Inr (ses_events s'), s'\<lparr>ses_events := []\<rparr>))"

text \<open>The name/value array: a header with an empty value is left out.\<close>

fun session_nv :: "header list \<Rightarrow> header list" where
  "session_nv [] = []"
| "session_nv ((n, v) # hs) = (if v = [] then session_nv hs else (n, v) # session_nv hs)"

definition session_headers ::
  "'ng nghttp2 \<Rightarrow> stream_id \<Rightarrow> header list \<Rightarrow> 'ng session \<Rightarrow> (cpp_exn + unit) \<times> 'ng session" where
  "session_headers ng sid hdrs s =
     (let (r, ng') = ng_submit_headers ng sid (session_nv hdrs) (ses_ng s); s' = s\<lparr>ses_ng := ng'\<rparr>
      in if r \<noteq> 0 then (Inl (Runtime_error ''Failed to submit headers: ''), s') else (Inr (), s'))"

definition session_data ::
  "'ng nghttp2 \<Rightarrow> stream_id \<Rightarrow> bytes \<Rightarrow> 'ng session \<Rightarrow> (cpp_exn + unit) \<times> 'ng session" where
  "session_data ng sid d s =
     (let s1 = s\<lparr>ses_data := d\<rparr>;
          (r, ng') = ng_submit_data ng sid (ses_ng s1); s' = s1\<lparr>ses_ng := ng'\<rparr>
      in if r \<noteq> 0 then (Inl (Runtime_error ''Failed to submit data: ''), s') else (Inr (), s'))"

definition session_trailers ::
  "'ng nghttp2 \<Rightarrow> stream_id \<Rightarrow> header list \<Rightarrow> 'ng session \<Rightarrow> (cpp_exn + unit) \<times> 'ng session" where
  "session_trailers ng sid hdrs s =
     (let (r, ng') = ng_submit_trailer ng sid (session_nv hdrs) (ses_ng s); s' = s\<lparr>ses_ng := ng'\<rparr>
      in if r \<noteq> 0 then (Inl (Runtime_error ''Failed to submit trailers: ''), s') else (Inr (), s'))"

section \<open>Specification\<close>

text \<open>The event a callback stands for, if any.\<close>

fun event_of :: "ng_callback \<Rightarrow> event list" where
  "event_of (On_header sid n v) =
     [\<lparr>ev_data = [], ev_stream_id = sid, ev_type = Stream_header, ev_header = Some (n, v)\<rparr>]"
| "event_of (On_data_chunk sid d) =
     [\<lparr>ev_data = d, ev_stream_id = sid, ev_type = Stream_data, ev_header = None\<rparr>]"
| "event_of (On_frame_recv flags sid) =
     (if bit flags 0 then [\<lparr>ev_data = [], ev_stream_id = sid, ev_type = Stream_end, ev_header = None\<rparr>]
      else [])"
| "event_of (On_stream_close sid ec) =
     [\<lparr>ev_data = [], ev_stream_id = sid, ev_type = Stream_close, ev_header = None\<rparr>]"

definition events_of :: "ng_callback list \<Rightarrow> event list" where
  "events_of cbs = concat (map event_of cbs)"

text \<open>The calls a connection makes on its session that can run callbacks, as a sequence. The
  trace records the events handed out and the callbacks nghttp2 made.\<close>

datatype session_call = Call_read bytes | Call_pending

fun session_run ::
  "'ng nghttp2 \<Rightarrow> session_call list \<Rightarrow> 'ng session \<Rightarrow> event list \<times> ng_callback list \<times> 'ng session" where
  "session_run ng [] s = ([], [], s)"
| "session_run ng (Call_read bs # cs) s =
     (let (n, cbs, _) = ng_mem_recv ng bs (ses_ng s);
          (res, s') = session_read ng bs s;
          (evs, cbs', s'') = session_run ng cs s'
      in ((case res of Inl _ \<Rightarrow> [] | Inr es \<Rightarrow> es) @ evs, cbs @ cbs', s''))"
| "session_run ng (Call_pending # cs) s =
     (let ((n, out, cbs, _), _) = run_send (ng_mem_send ng (ses_ng s)) (ses_data s);
          (res, s') = session_pending ng s;
          (evs, cbs', s'') = session_run ng cs s'
      in (evs, cbs @ cbs', s''))"

text \<open>Serving a sequence of requests of the given lengths from one string.\<close>

fun read_cb_all :: "nat list \<Rightarrow> bytes \<Rightarrow> (bytes \<times> bool) list \<times> bytes" where
  "read_cb_all [] d = ([], d)"
| "read_cb_all (n # ns) d =
     (let (got, d') = read_cb n d; (gots, d'') = read_cb_all ns d' in (got # gots, d''))"

section \<open>Lemmas\<close>

lemma end_stream_bit: "(0 \<noteq> flags AND NGHTTP2_FLAG_END_STREAM) = bit flags 0"
proof -
  have "flags AND NGHTTP2_FLAG_END_STREAM = flags mod 2"
    unfolding NGHTTP2_FLAG_END_STREAM_def by (simp add: and_one_eq)
  then show ?thesis by (simp only: bit_0 even_iff_mod_2_eq_zero eq_commute)
qed

lemma session_emit_fields [simp]:
  "ses_events (session_emit ev s) = ses_events s @ [ev]"
  "ses_data (session_emit ev s) = ses_data s" "ses_ng (session_emit ev s) = ses_ng s"
  by (simp_all add: session_emit_def)

lemma frame_recv_cb_bit:
  "frame_recv_cb flags sid s =
     (if bit flags 0 then session_emit (event_default\<lparr>ev_stream_id := sid, ev_type := Stream_end\<rparr>) s else s)"
  unfolding frame_recv_cb_def end_stream_bit by (rule refl)

lemmas callback_defs = header_cb_def data_recv_cb_def frame_recv_cb_bit stream_close_cb_def event_default_def

lemma session_callback_events:
  "ses_events (session_callback cb s) = ses_events s @ event_of cb"
  "ses_data (session_callback cb s) = ses_data s" "ses_ng (session_callback cb s) = ses_ng s"
  by (cases cb; simp add: callback_defs)+

lemma session_callbacks_events [simp]:
  "ses_events (session_callbacks cbs s) = ses_events s @ events_of cbs"
  "ses_data (session_callbacks cbs s) = ses_data s" "ses_ng (session_callbacks cbs s) = ses_ng s"
  unfolding session_callbacks_def events_of_def
  by (induction cbs arbitrary: s) (simp_all add: session_callback_events)

lemma session_nv_filter: "session_nv hs = filter (\<lambda>h. snd h \<noteq> []) hs"
  by (induction hs rule: session_nv.induct) auto

lemma read_cb_split: "fst (fst (read_cb len d)) @ snd (read_cb len d) = d"
  by (simp add: read_cb_def Let_def)

lemma read_cb_eof: "snd (fst (read_cb len d)) \<longleftrightarrow> snd (read_cb len d) = []"
  by (auto simp: read_cb_def Let_def)

lemma read_cb_length: "length (fst (fst (read_cb len d))) \<le> len"
  by (auto simp: read_cb_def Let_def)

lemma read_cb_left: "snd (read_cb len d) = drop len d"
  by (simp add: read_cb_def Let_def)

lemma events_of_append [simp]: "events_of (xs @ ys) = events_of xs @ events_of ys"
  by (simp add: events_of_def)

text \<open>The contract of an event: it carries a header exactly when it is a header event.\<close>

definition event_wf :: "event \<Rightarrow> bool" where
  "event_wf e = ((ev_type e = Stream_header) = (ev_header e \<noteq> None))"

lemma event_of_wf: "list_all event_wf (event_of cb)"
  by (cases cb) (simp_all add: event_wf_def)

lemma events_of_wf: "list_all event_wf (events_of cbs)"
  by (induction cbs) (simp_all add: events_of_def event_of_wf)

lemma session_read_events:
  assumes "ng_mem_recv ng bs (ses_ng s) = (n, cbs, ng')" "session_read ng bs s = (res, s')"
  shows "(case res of Inl _ \<Rightarrow> [] | Inr es \<Rightarrow> es) @ ses_events s' = ses_events s @ events_of cbs"
  using assms by (auto simp: session_read_def Let_def split: if_splits)

lemma session_pending_events:
  assumes "run_send (ng_mem_send ng (ses_ng s)) (ses_data s) = ((n, out, cbs, ng'), d')"
    and "session_pending ng s = (res, s')"
  shows "ses_events s' = ses_events s @ events_of cbs"
  using assms by (auto simp: session_pending_def Let_def split: if_splits)

lemma session_run_events:
  "session_run ng cs s = (evs, cbs, s') \<Longrightarrow> evs @ ses_events s' = ses_events s @ events_of cbs"
proof (induction cs arbitrary: s evs cbs s')
  case Nil
  then show ?case by (simp add: events_of_def)
next
  case (Cons c cs)
  show ?case
  proof (cases c)
    case (Call_read bs)
    obtain n cbs1 ng' where r: "ng_mem_recv ng bs (ses_ng s) = (n, cbs1, ng')" by (metis prod_cases3)
    obtain res s1 where sr: "session_read ng bs s = (res, s1)" by force
    obtain evs2 cbs2 s2 where rest: "session_run ng cs s1 = (evs2, cbs2, s2)" by (metis prod_cases3)
    let ?es = "case res of Inl _ \<Rightarrow> [] | Inr es \<Rightarrow> es"
    have "(?es @ evs2) @ ses_events s2 = ses_events s @ events_of (cbs1 @ cbs2)"
      using session_read_events [OF r sr] Cons.IH [OF rest] by (metis append_assoc events_of_append)
    with Cons.prems Call_read r sr rest show ?thesis by auto
  next
    case Call_pending
    obtain n out cbs1 ng' d' where
      r: "run_send (ng_mem_send ng (ses_ng s)) (ses_data s) = ((n, out, cbs1, ng'), d')"
      by (metis prod.exhaust)
    obtain res s1 where sr: "session_pending ng s = (res, s1)" by force
    obtain evs2 cbs2 s2 where rest: "session_run ng cs s1 = (evs2, cbs2, s2)" by (metis prod_cases3)
    from Cons.prems Call_pending r sr rest session_pending_events [OF r sr] Cons.IH [OF rest]
    show ?thesis by auto
  qed
qed

section \<open>A small nghttp2\<close>

text \<open>
  A concrete library for the witnesses, small enough to evaluate: a queue of frames to send
  and the list of closed streams. What a received chunk means is an argument \<open>rx\<close>. A frame is
  sent as its kind followed by its data, data in pieces of 16 bytes; sending trailers closes
  the stream; submitting data for a closed stream is refused, as the real library does.
\<close>

datatype sample_frame = Fr_headers stream_id "header list" | Fr_data stream_id | Fr_trailer stream_id "header list"

record sample_state =
  sam_queue :: "sample_frame list"
  sam_closed :: "stream_id list"

fun closed_by :: "ng_callback list \<Rightarrow> stream_id list" where
  "closed_by [] = []"
| "closed_by (On_stream_close sid ec # cbs) = sid # closed_by cbs"
| "closed_by (_ # cbs) = closed_by cbs"

fun sample_send :: "sample_frame list \<Rightarrow> stream_id list \<Rightarrow> sample_state ng_send" where
  "sample_send [] cl = Send_done 0 [] [] \<lparr>sam_queue = [], sam_closed = cl\<rparr>"
| "sample_send (Fr_headers sid hs # q) cl = Send_done 1 [1] [] \<lparr>sam_queue = q, sam_closed = cl\<rparr>"
| "sample_send (Fr_data sid # q) cl =
     Send_read sid 16 (\<lambda>(b, eof). Send_done (int (Suc (length b))) (2 # b) []
       \<lparr>sam_queue = (if eof then q else Fr_data sid # q), sam_closed = cl\<rparr>)"
| "sample_send (Fr_trailer sid hs # q) cl =
     Send_done 1 [3] [On_stream_close sid 0] \<lparr>sam_queue = q, sam_closed = sid # cl\<rparr>"

definition sample_ng :: "(bytes \<Rightarrow> int \<times> ng_callback list) \<Rightarrow> sample_state nghttp2" where
  "sample_ng rx =
     \<lparr>ng_server_new = \<lparr>sam_queue = [], sam_closed = []\<rparr>,
      ng_submit_settings = (\<lambda>iv s. (0, s)),
      ng_mem_recv = (\<lambda>bs s. (fst (rx bs), snd (rx bs), s\<lparr>sam_closed := closed_by (snd (rx bs)) @ sam_closed s\<rparr>)),
      ng_mem_send = (\<lambda>s. sample_send (sam_queue s) (sam_closed s)),
      ng_submit_headers = (\<lambda>sid hs s. (0, s\<lparr>sam_queue := sam_queue s @ [Fr_headers sid hs]\<rparr>)),
      ng_submit_data = (\<lambda>sid s. if sid \<in> set (sam_closed s) then (-510, s)
                              else (0, s\<lparr>sam_queue := sam_queue s @ [Fr_data sid]\<rparr>)),
      ng_submit_trailer = (\<lambda>sid hs s. (0, s\<lparr>sam_queue := sam_queue s @ [Fr_trailer sid hs]\<rparr>))\<rparr>"

section \<open>Properties\<close>

text \<open>C22: events are handed out exactly once and in order. What nghttp2 reports becomes events as
  \<open>event_of\<close> says: one for every header, every piece of data, every close of a stream and every
  frame with the flag END_STREAM, and none for other frames. Over any sequence of reads and sends,
  failed reads included, the events returned so far followed by those still queued are the events
  queued at the start followed by those of the callbacks nghttp2 made.\<close>

theorem session_events_once:
  "let (evs, cbs, s') = session_run ng cs s in evs @ ses_events s' = ses_events s @ events_of cbs"
  using session_run_events by (cases "session_run ng cs s") fastforce

text \<open>C34: a session that starts from the constructor only hands out events that carry a header
  exactly when they are header events, so the connection's access to the header is defined.\<close>

theorem session_events_wf:
  assumes "session_new ng = Inr s"
  shows "list_all event_wf (fst (session_run ng cs s))"
proof -
  obtain evs cbs s' where run: "session_run ng cs s = (evs, cbs, s')" by (metis prod_cases3)
  from assms have "ses_events s = []"
    by (auto simp: session_new_def Let_def split: prod.splits if_splits)
  with session_run_events [OF run] have "evs @ ses_events s' = events_of cbs" by simp
  then have "list_all event_wf (evs @ ses_events s')" using events_of_wf by metis
  then show ?thesis using run by simp
qed

theorem session_events_wf_witness:
  "list_all event_wf (fst (session_run
     (sample_ng (\<lambda>bs. (int (length bs), [On_header 1 ''a'' ''b'', On_frame_recv 1 1])))
     [Call_read [0], Call_pending, Call_read [1]] \<lparr>ses_data = [], ses_events = [], ses_ng = \<lparr>sam_queue = [], sam_closed = []\<rparr>\<rparr>))"
  by (rule session_events_wf) (simp add: session_new_def sample_ng_def)

text \<open>The data source. Whatever lengths nghttp2 asks for, the pieces handed over are a
  partition of the front of the data in order, the rest stays for the next call, and the
  end-of-data flag is raised by exactly those calls after which nothing is left.\<close>

theorem read_cb_partition:
  "let (gots, d') = read_cb_all ns d
   in concat (map fst gots) @ d' = d \<and> d' = drop (sum_list ns) d \<and>
      map snd gots = map (\<lambda>i. length d \<le> sum_list (take (Suc i) ns)) [0..<length ns]"
proof (induction ns arbitrary: d)
  case (Cons n ns)
  obtain b eof d1 where r: "read_cb n d = ((b, eof), d1)" by (metis prod.exhaust)
  obtain gots d' where rest: "read_cb_all ns d1 = (gots, d')" by force
  have "b @ d1 = d" "eof = (length d \<le> n)" "d1 = drop n d"
    using r by (auto simp: read_cb_def Let_def split: if_splits)
  moreover have "map (\<lambda>i. length d \<le> sum_list (take (Suc i) (n # ns))) [0..<length (n # ns)] =
      (length d \<le> n) # map (\<lambda>i. length (drop n d) \<le> sum_list (take (Suc i) ns)) [0..<length ns]"
    by (subst upt_conv_Cons) (auto simp: map_Suc_upt [symmetric] simp del: upt_Suc)
  ultimately show ?case
    using Cons.IH [of d1] rest by (auto simp: r add.commute)
qed simp

text \<open>The data source is shared by all streams of a connection. Submitting data for a second
  stream replaces what is left of the first stream's data: a later request of nghttp2 for the
  first stream is served from the second stream's bytes.\<close>

theorem session_data_shared:
  "let s' = snd (session_data ng j e (snd (session_data ng i d s)))
   in run_send (Send_read i len k) (ses_data s') =
      run_send (k (take len e, length e \<le> len)) (drop len e)"
  by (simp add: session_data_def read_cb_def Let_def split: prod.splits)

end
