(* ===== verification/Uv_Io.thy ===== *)
theory Uv_Io
  imports Prelude
begin

text \<open>
  The awaitable I/O objects of the uv backend: \<^verbatim>\<open>uv::detail::reader\<close> (lib/grpcxx/uv/reader.h, reader.cpp)
  and \<^verbatim>\<open>uv::detail::writer\<close> (lib/grpcxx/uv/writer.h, writer.cpp). A coroutine that awaits one of them
  calls \<open>await_ready\<close>, is stored by \<open>await_suspend\<close>, is resumed by the callback that libuv makes
  from its loop, and gets its value from \<open>await_resume\<close>.

  libuv is not part of the sources: what its calls return and what it passes to the callbacks
  are arguments. A coroutine handle is a number; the second component of the callbacks' results
  is the coroutine they resume, if any.
\<close>

type_synonym coro = nat

definition UV_EOF :: int where
  "UV_EOF = -4095"

section \<open>The reader\<close>

record reader =
  rd_buf :: bytes
  rd_e :: "cpp_exn option"
  rd_eos :: bool
  rd_h :: "coro option"
  rd_nread :: int
  rd_started :: bool

text \<open>\<open>rd_started\<close> tells whether libuv is reading the stream, i.e. whether \<^verbatim>\<open>uv_read_start\<close> was called
  with success after the last \<^verbatim>\<open>uv_read_stop\<close>.\<close>

definition reader_capacity :: nat where
  "reader_capacity = 1024"

definition reader_new :: reader where
  "reader_new = \<lparr>rd_buf = [], rd_e = None, rd_eos = False, rd_h = None, rd_nread = 0, rd_started = False\<rparr>"

definition reader_bool :: "reader \<Rightarrow> bool" where
  "reader_bool r = (\<not> (rd_eos r \<or> rd_e r \<noteq> None))"

definition reader_await_ready :: "int \<Rightarrow> reader \<Rightarrow> bool \<times> reader" where
  "reader_await_ready start r =
     (if start \<noteq> 0
      then (True, r\<lparr>rd_e := Some (Runtime_error ''Failed to start reading data: '')\<rparr>)
      else (False, r\<lparr>rd_started := True\<rparr>))"

definition reader_await_suspend :: "coro \<Rightarrow> reader \<Rightarrow> reader" where
  "reader_await_suspend h r = r\<lparr>rd_h := Some h\<rparr>"

text \<open>\<open>alloc_cb\<close> gives libuv the storage of the buffer, which bounds what of the bytes at the socket arrives in it;
  \<open>read_cb\<close> is called with these.\<close>

definition reader_alloc_cb :: "bytes \<Rightarrow> bytes" where
  "reader_alloc_cb bs = take reader_capacity bs"

definition reader_read_cb :: "int \<Rightarrow> bytes \<Rightarrow> reader \<Rightarrow> reader \<times> coro option" where
  "reader_read_cb nread buf r =
     (let r1 = (if 0 \<le> nread then r\<lparr>rd_nread := nread, rd_buf := reader_alloc_cb buf\<rparr>
                else if nread = UV_EOF then r\<lparr>rd_eos := True\<rparr>
                else r\<lparr>rd_e := Some (Runtime_error ''Failed to read data: '')\<rparr>)
      in (r1, rd_h r1))"

definition reader_await_resume :: "reader \<Rightarrow> (cpp_exn + bytes) \<times> reader" where
  "reader_await_resume r =
     (let r1 = r\<lparr>rd_h := None\<rparr>
      in case rd_e r1 of
           Some e \<Rightarrow> (Inl e, r1)
         | None \<Rightarrow>
             if rd_eos r1 then (Inr [], r1)
             else (Inr (take (nat (rd_nread r1)) (rd_buf r1)),
                   r1\<lparr>rd_nread := 0, rd_started := False\<rparr>))"

text \<open>A \<^verbatim>\<open>co_await\<close> of the reader: the error (not 0) of \<^verbatim>\<open>uv_read_start\<close> or, if it succeeded, what the
  callback gets.\<close>

datatype uv_input = Uv_start_error int | Uv_read int bytes

definition reader_await :: "coro \<Rightarrow> uv_input \<Rightarrow> reader \<Rightarrow> (cpp_exn + bytes) \<times> reader" where
  "reader_await h inp r =
     (case inp of
        Uv_start_error e \<Rightarrow> reader_await_resume (snd (reader_await_ready e r))
      | Uv_read nread buf \<Rightarrow>
          let (ready, r1) = reader_await_ready 0 r;
              r2 = reader_await_suspend h r1;
              (r3, resumed) = reader_read_cb nread buf r2
          in reader_await_resume r3)"

text \<open>The destructor.\<close>

definition reader_delete :: "reader \<Rightarrow> reader" where
  "reader_delete r = r\<lparr>rd_started := False\<rparr>"

section \<open>The writer\<close>

record writer =
  wr_done :: bool
  wr_e :: "cpp_exn option"
  wr_h :: "coro option"

definition writer_new :: "int \<Rightarrow> cpp_exn + writer" where
  "writer_new started =
     (if started \<noteq> 0 then Inl (Runtime_error ''Failed to start writing data: '')
      else Inr \<lparr>wr_done = False, wr_e = None, wr_h = None\<rparr>)"

definition writer_await_ready :: "writer \<Rightarrow> bool" where
  "writer_await_ready w = wr_done w"

definition writer_await_suspend :: "coro \<Rightarrow> writer \<Rightarrow> writer" where
  "writer_await_suspend h w = w\<lparr>wr_h := Some h\<rparr>"

definition writer_await_resume :: "writer \<Rightarrow> (cpp_exn + unit) \<times> writer" where
  "writer_await_resume w =
     (let w1 = w\<lparr>wr_h := None\<rparr>
      in case wr_e w1 of Some e \<Rightarrow> (Inl e, w1) | None \<Rightarrow> (Inr (), w1))"

definition writer_write_cb :: "int \<Rightarrow> writer \<Rightarrow> writer \<times> coro option" where
  "writer_write_cb status w =
     (let w1 = (if status \<noteq> 0 then w\<lparr>wr_e := Some (Runtime_error ''Failed to write data: '')\<rparr> else w);
          w2 = w1\<lparr>wr_done := True\<rparr>
      in (w2, wr_h w2))"

text \<open>A \<^verbatim>\<open>co_await\<close> of a writer whose callback has not run yet.\<close>

definition writer_await :: "coro \<Rightarrow> int \<Rightarrow> writer \<Rightarrow> (cpp_exn + unit) \<times> writer" where
  "writer_await h status w =
     (if writer_await_ready w then writer_await_resume w
      else writer_await_resume (fst (writer_write_cb status (writer_await_suspend h w))))"

section \<open>Lemmas\<close>

text \<open>Between two awaits no coroutine is stored and no byte is left in the buffer; libuv reads the
  stream only once it has ended.\<close>

definition reader_idle :: "reader \<Rightarrow> bool" where
  "reader_idle r \<longleftrightarrow> rd_h r = None \<and> (reader_bool r \<longrightarrow> rd_nread r = 0 \<and> \<not> rd_started r)"

lemma reader_idle_new [simp]: "reader_idle reader_new" "reader_bool reader_new"
  by (simp_all add: reader_idle_def reader_new_def reader_bool_def)

lemmas reader_defs = reader_await_ready_def reader_await_suspend_def reader_read_cb_def
  reader_alloc_cb_def reader_await_resume_def reader_bool_def reader_idle_def

lemma reader_await_idle: "reader_idle r \<Longrightarrow> reader_idle (snd (reader_await h inp r))"
  by (cases inp) (auto simp: reader_await_def reader_defs Let_def split: option.splits)

text \<open>However its coroutine ends, a destroyed reader leaves libuv not reading and stores no coroutine.\<close>

lemma reader_delete_idle: "reader_idle r \<Longrightarrow> reader_idle (reader_delete r) \<and> \<not> rd_started (reader_delete r)"
  by (auto simp: reader_delete_def reader_defs)

lemma reader_await_bytes:
  assumes "reader_bool r" "0 \<le> n" "n = int (length bs)" "length bs \<le> reader_capacity"
  shows "\<exists>r'. reader_await h (Uv_read n bs) r = (Inr bs, r') \<and> reader_bool r'"
  using assms by (auto simp: reader_await_def reader_defs Let_def split: option.splits)

lemma reader_await_end:
  assumes "reader_bool r" "case inp of Uv_start_error e \<Rightarrow> e \<noteq> 0 | Uv_read n _ \<Rightarrow> n < 0"
  shows "\<not> reader_bool (snd (reader_await h inp r)) \<and>
     (case inp of Uv_read n _ \<Rightarrow> n = UV_EOF | _ \<Rightarrow> False) = (fst (reader_await h inp r) = Inr []) \<and>
     (case fst (reader_await h inp r) of Inl _ \<Rightarrow> True | Inr bs \<Rightarrow> bs = [])"
  using assms
  by (cases inp) (auto simp: reader_await_def reader_defs UV_EOF_def Let_def split: option.splits)

lemma reader_callback_resumes:
  "snd (reader_read_cb nread buf (reader_await_suspend h r)) = Some h"
  by (simp add: reader_read_cb_def reader_await_suspend_def Let_def)

lemma writer_await_result:
  "writer_new started = Inr w \<Longrightarrow>
     fst (writer_await h status w) = (if status = 0 then Inr () else Inl (Runtime_error ''Failed to write data: ''))"
  by (auto simp: writer_new_def writer_await_def writer_await_ready_def writer_await_suspend_def
      writer_await_resume_def writer_write_cb_def Let_def split: if_splits)

section \<open>Awaiting a write, as a contract\<close>

text \<open>What a coroutine relies on when it awaits a write: a request that libuv refuses throws in the constructor,
  otherwise the callback resumes the coroutine that was suspended and the await throws exactly when
  the write failed. The library's writer and the one of the coroutine experiment keep it.\<close>

locale write_awaitable =
  fixes new :: "int \<Rightarrow> cpp_exn + 'w"
    and suspend :: "coro \<Rightarrow> 'w \<Rightarrow> 'w"
    and resume :: "'w \<Rightarrow> (cpp_exn + unit) \<times> 'w"
    and callback :: "int \<Rightarrow> 'w \<Rightarrow> 'w \<times> coro option"
  assumes new_refused: "started \<noteq> 0 \<Longrightarrow> new started = Inl (Runtime_error ''Failed to start writing data: '')"
    and new_started: "\<exists>w. new 0 = Inr w"
    and callback_resumes: "new started = Inr w \<Longrightarrow> snd (callback status (suspend h w)) = Some h"
    and resume_result: "new started = Inr w \<Longrightarrow> fst (resume (fst (callback status (suspend h w)))) =
          (if status = 0 then Inr () else Inl (Runtime_error ''Failed to write data: ''))"
begin

lemma new_started_iff: "(\<exists>w. new started = Inr w) \<longleftrightarrow> started = 0"
  using new_refused [of started] new_started by (cases "started = 0") auto

text \<open>The whole await: the exception of the constructor or of the await, or success.\<close>

lemma await_outcome:
  "(case new started of Inl e \<Rightarrow> Inl e | Inr w \<Rightarrow> fst (resume (fst (callback status (suspend h w))))) =
     (if started \<noteq> 0 then Inl (Runtime_error ''Failed to start writing data: '')
      else if status \<noteq> 0 then Inl (Runtime_error ''Failed to write data: '') else Inr ())"
  using new_refused [of started] new_started resume_result [of started]
  by (cases "started = 0") (auto split: sum.splits)

end

lemmas writer_defs = writer_new_def writer_await_suspend_def writer_await_resume_def writer_write_cb_def

interpretation uv_writer: write_awaitable writer_new writer_await_suspend writer_await_resume writer_write_cb
  by unfold_locales (auto simp: writer_defs Let_def split: if_splits)

end
