(* ===== verification/Conn.thy ===== *)
theory Conn
  imports H2_Session Service Uv_Io
begin

text \<open>
  The connections of the two I/O backends, \<^verbatim>\<open>uv::detail::conn\<close> (lib/grpcxx/uv/conn.h, conn.cpp) and
  \<^verbatim>\<open>asio::detail::conn\<close> (lib/grpcxx/asio/conn.h, conn.cpp): both own an HTTP/2 session and a map from
  stream ids to the requests being received, sort the session's events into requests, and
  send a response as headers, data and trailers.

  The uv connection collects outgoing bytes in \<open>_buffer\<close> and writes them in \<open>flush\<close>; the asio
  connection writes every chunk to its socket as it goes. The socket is an argument: a
  function from the chunk and the socket's state to success or failure and its new state.

  The loop that drains the session (\<^verbatim>\<open>for (chunk = pending(); chunk.size() > 0; ...)\<close>) ends when
  nghttp2 has nothing to send; a session that always has more makes it run forever. The
  loop is a partial function, \<open>None\<close> when it does not end.
\<close>

section \<open>Streams\<close>

type_synonym streams = "(stream_id, request) umap"

text \<open>One turn of the loop over the events in \<^verbatim>\<open>uv::detail::conn::read\<close>; the second component is the
  \<^verbatim>\<open>forward_list\<close> of finished requests, filled at the front. The dereference of a missing
  header is undefined in C++; \<open>session_events_wf\<close> shows that it cannot happen, the model leaves
  the request as it is there.\<close>

definition uv_conn_event :: "event \<Rightarrow> streams \<times> request list \<Rightarrow> streams \<times> request list" where
  "uv_conn_event ev st =
     (let (streams, reqs) = st; sid = ev_stream_id ev
      in if sid \<le> 0 then (streams, reqs)
         else if ev_type ev = Stream_close then (um_erase sid streams, reqs)
         else
           let streams1 = um_emplace sid (request_new sid) streams;
               req = the (um_find sid streams1)
           in case ev_type ev of
                Stream_data \<Rightarrow> (um_assign sid (request_read (ev_data ev) req) streams1, reqs)
              | Stream_end \<Rightarrow> (um_erase sid streams1, req # reqs)
              | Stream_header \<Rightarrow>
                  (case ev_header ev of
                     None \<Rightarrow> (streams1, reqs)
                   | Some (n, v) \<Rightarrow> (um_assign sid (request_header n v req) streams1, reqs))
              | _ \<Rightarrow> (streams1, reqs))"

text \<open>The same loop body in \<^verbatim>\<open>asio::detail::conn::read\<close>.\<close>

definition asio_conn_event :: "event \<Rightarrow> streams \<times> request list \<Rightarrow> streams \<times> request list" where
  "asio_conn_event ev st =
     (let (streams, reqs) = st; sid = ev_stream_id ev
      in if sid \<le> 0 then (streams, reqs)
         else if ev_type ev = Stream_close then (um_erase sid streams, reqs)
         else
           let streams1 = um_emplace sid (request_new sid) streams;
               req = the (um_find sid streams1)
           in case ev_type ev of
                Stream_data \<Rightarrow> (um_assign sid (request_read (ev_data ev) req) streams1, reqs)
              | Stream_end \<Rightarrow> (um_erase sid streams1, req # reqs)
              | Stream_header \<Rightarrow>
                  (case ev_header ev of
                     None \<Rightarrow> (streams1, reqs)
                   | Some (n, v) \<Rightarrow> (um_assign sid (request_header n v req) streams1, reqs))
              | _ \<Rightarrow> (streams1, reqs))"

section \<open>The uv connection\<close>

record 'ng uv_conn =
  uvc_buffer :: bytes
  uvc_session :: "'ng session"
  uvc_streams :: streams

definition uv_conn_new :: "'ng nghttp2 \<Rightarrow> int \<Rightarrow> cpp_exn + 'ng uv_conn" where
  "uv_conn_new ng accept_result =
     (case session_new ng of
        Inl e \<Rightarrow> Inl e
      | Inr s \<Rightarrow>
          if accept_result \<noteq> 0 then Inl (Runtime_error ''Failed to accept connection: '')
          else Inr \<lparr>uvc_buffer = [], uvc_session = s, uvc_streams = []\<rparr>)"

partial_function (option) uv_conn_buffer :: "'ng nghttp2 \<Rightarrow> 'ng uv_conn \<Rightarrow> 'ng uv_conn outcome option" where
  "uv_conn_buffer ng c =
     (case session_pending ng (uvc_session c) of
        (Inl e, s) \<Rightarrow> Some Terminate
      | (Inr chunk, s) \<Rightarrow>
          if 0 < length chunk
          then uv_conn_buffer ng (c\<lparr>uvc_session := s, uvc_buffer := uvc_buffer c @ chunk\<rparr>)
          else Some (Return (c\<lparr>uvc_session := s\<rparr>)))"

declare uv_conn_buffer.simps [code]

definition uv_conn_read ::
  "'ng nghttp2 \<Rightarrow> bytes \<Rightarrow> 'ng uv_conn \<Rightarrow> ((cpp_exn + request list) \<times> 'ng uv_conn) outcome option" where
  "uv_conn_read ng bs c =
     (case session_read ng bs (uvc_session c) of
        (Inl e, s) \<Rightarrow> Some (Return (Inl e, c\<lparr>uvc_session := s\<rparr>))
      | (Inr evs, s) \<Rightarrow>
          (let (streams, reqs) = fold uv_conn_event evs (uvc_streams c, [])
           in case uv_conn_buffer ng (c\<lparr>uvc_session := s, uvc_streams := streams\<rparr>) of
                None \<Rightarrow> None
              | Some Terminate \<Rightarrow> Some Terminate
              | Some (Return c') \<Rightarrow> Some (Return (Inr reqs, c'))))"

definition response_headers :: "header list" where
  "response_headers = [('':status'', ''200''), (''content-type'', ''application/grpc'')]"

definition response_trailers :: "status \<Rightarrow> header list" where
  "response_trailers st =
     [(''grpc-status'', fst (status_text st)), (''grpc-status-details-bin'', st_details st)]"

text \<open>\<^verbatim>\<open>void write(response) noexcept\<close>: an exception of the session ends the program.\<close>

definition uv_conn_write :: "'ng nghttp2 \<Rightarrow> response \<Rightarrow> 'ng uv_conn \<Rightarrow> 'ng uv_conn outcome option" where
  "uv_conn_write ng resp c =
     (case session_headers ng (resp_id resp) response_headers (uvc_session c) of
        (Inl _, _) \<Rightarrow> Some Terminate
      | (Inr _, s1) \<Rightarrow>
          (case session_data ng (resp_id resp) (response_bytes resp) s1 of
             (Inl _, _) \<Rightarrow> Some Terminate
           | (Inr _, s2) \<Rightarrow>
               (case uv_conn_buffer ng (c\<lparr>uvc_session := s2\<rparr>) of
                  None \<Rightarrow> None
                | Some Terminate \<Rightarrow> Some Terminate
                | Some (Return c1) \<Rightarrow>
                    (case session_trailers ng (resp_id resp) (response_trailers (resp_status resp))
                            (uvc_session c1) of
                       (Inl _, _) \<Rightarrow> Some Terminate
                     | (Inr _, s3) \<Rightarrow> uv_conn_buffer ng (c1\<lparr>uvc_session := s3\<rparr>)))))"

text \<open>The reader and the writer of a connection's handle. The constructor of the writer throws inside
  \<^verbatim>\<open>writer write(...) const noexcept\<close>, which ends the program.\<close>

definition uv_conn_reader :: reader where
  "uv_conn_reader = reader_new"

definition uv_conn_writer :: "int \<Rightarrow> writer outcome" where
  "uv_conn_writer started = (case writer_new started of Inl e \<Rightarrow> Terminate | Inr w \<Rightarrow> Return w)"

text \<open>\<open>flush\<close>, run by the coroutine \<open>h\<close>, with the result \<open>started\<close> of \<^verbatim>\<open>uv_write\<close> and the status \<open>finished\<close>
  of its callback: the bytes handed to libuv, if any, and the connection afterwards. A
  failed write makes \<open>await_resume\<close> throw, which the task's promise logs, and \<^verbatim>\<open>_buffer.clear()\<close> is
  not reached.\<close>

definition uv_conn_flush ::
  "coro \<Rightarrow> int \<Rightarrow> int \<Rightarrow> 'ng uv_conn \<Rightarrow> (bytes option \<times> 'ng uv_conn) outcome" where
  "uv_conn_flush h started finished c =
     (if uvc_buffer c = [] then Return (None, c)
      else case uv_conn_writer started of
             Terminate \<Rightarrow> Terminate
           | Return w \<Rightarrow>
               (case writer_await h finished w of
                  (Inl e, _) \<Rightarrow> Return (Some (uvc_buffer c), c)
                | (Inr _, _) \<Rightarrow> Return (Some (uvc_buffer c), c\<lparr>uvc_buffer := []\<rparr>)))"

section \<open>The asio connection\<close>

record ('ng, 'io) asio_conn =
  aic_eos :: bool
  aic_session :: "'ng session"
  aic_streams :: streams
  aic_sock :: 'io

type_synonym 'io sock_write = "bytes \<Rightarrow> 'io \<Rightarrow> bool \<times> 'io"

definition asio_conn_new :: "'ng nghttp2 \<Rightarrow> 'io \<Rightarrow> ('ng, 'io) asio_conn outcome" where
  "asio_conn_new ng sock =
     (case session_new ng of
        Inl e \<Rightarrow> Terminate
      | Inr s \<Rightarrow> Return \<lparr>aic_eos = False, aic_session = s, aic_streams = [], aic_sock = sock\<rparr>)"

definition asio_conn_bool :: "('ng, 'io) asio_conn \<Rightarrow> bool" where
  "asio_conn_bool c = (\<not> aic_eos c)"

text \<open>\<^verbatim>\<open>requests_t read(std::size_t n)\<close> over the first \<open>n\<close> bytes of the buffer.\<close>

definition asio_conn_read ::
  "'ng nghttp2 \<Rightarrow> bytes \<Rightarrow> ('ng, 'io) asio_conn \<Rightarrow> (cpp_exn + request list) \<times> ('ng, 'io) asio_conn" where
  "asio_conn_read ng bs c =
     (case session_read ng bs (aic_session c) of
        (Inl e, s) \<Rightarrow> (Inl e, c\<lparr>aic_session := s\<rparr>)
      | (Inr evs, s) \<Rightarrow>
          (let (streams, reqs) = fold asio_conn_event evs (aic_streams c, [])
           in (Inr reqs, c\<lparr>aic_session := s, aic_streams := streams\<rparr>)))"

text \<open>\<^verbatim>\<open>awaitable<void> write()\<close>: every pending chunk goes to the socket; a failed write throws.\<close>

partial_function (option) asio_conn_drain ::
  "'ng nghttp2 \<Rightarrow> 'io sock_write \<Rightarrow> ('ng, 'io) asio_conn \<Rightarrow> ((cpp_exn + unit) \<times> ('ng, 'io) asio_conn) option" where
  "asio_conn_drain ng wr c =
     (case session_pending ng (aic_session c) of
        (Inl e, s) \<Rightarrow> Some (Inl e, c\<lparr>aic_session := s\<rparr>)
      | (Inr chunk, s) \<Rightarrow>
          if 0 < length chunk
          then (case wr chunk (aic_sock c) of
                  (ok, io) \<Rightarrow>
                    if ok then asio_conn_drain ng wr (c\<lparr>aic_session := s, aic_sock := io\<rparr>)
                    else Some (Inl (App_exception ''write''), c\<lparr>aic_session := s, aic_sock := io\<rparr>))
          else Some (Inr (), c\<lparr>aic_session := s\<rparr>))"

declare asio_conn_drain.simps [code]

text \<open>\<^verbatim>\<open>awaitable<void> write(response)\<close>: the exceptions are those of the coroutine, they reach the
  awaiting \<^verbatim>\<open>server::conn\<close>.\<close>

definition asio_conn_write ::
  "'ng nghttp2 \<Rightarrow> 'io sock_write \<Rightarrow> response \<Rightarrow> ('ng, 'io) asio_conn \<Rightarrow>
     ((cpp_exn + unit) \<times> ('ng, 'io) asio_conn) option" where
  "asio_conn_write ng wr resp c =
     (case session_headers ng (resp_id resp) response_headers (aic_session c) of
        (Inl e, s1) \<Rightarrow> Some (Inl e, c\<lparr>aic_session := s1\<rparr>)
      | (Inr _, s1) \<Rightarrow>
          (case session_data ng (resp_id resp) (response_bytes resp) s1 of
             (Inl e, s2) \<Rightarrow> Some (Inl e, c\<lparr>aic_session := s2\<rparr>)
           | (Inr _, s2) \<Rightarrow>
               (case asio_conn_drain ng wr (c\<lparr>aic_session := s2\<rparr>) of
                  None \<Rightarrow> None
                | Some (Inl e, c1) \<Rightarrow> Some (Inl e, c1)
                | Some (Inr _, c1) \<Rightarrow>
                    (case session_trailers ng (resp_id resp) (response_trailers (resp_status resp))
                            (aic_session c1) of
                       (Inl e, s3) \<Rightarrow> Some (Inl e, c1\<lparr>aic_session := s3\<rparr>)
                     | (Inr _, s3) \<Rightarrow> asio_conn_drain ng wr (c1\<lparr>aic_session := s3\<rparr>)))))"

text \<open>\<^verbatim>\<open>awaitable<requests_t> reqs()\<close> once \<^verbatim>\<open>async_read_some\<close> has completed with an error (\<open>None\<close>) or a
  number of bytes in the buffer.\<close>

definition asio_conn_reqs ::
  "'ng nghttp2 \<Rightarrow> 'io sock_write \<Rightarrow> bytes option \<Rightarrow> ('ng, 'io) asio_conn \<Rightarrow>
     ((cpp_exn + request list) \<times> ('ng, 'io) asio_conn) option" where
  "asio_conn_reqs ng wr input c =
     (case input of
        None \<Rightarrow> Some (Inr [], c\<lparr>aic_eos := True\<rparr>)
      | Some bs \<Rightarrow>
          (case asio_conn_read ng bs c of
             (Inl e, c1) \<Rightarrow> Some (Inr [], c1\<lparr>aic_eos := True\<rparr>)
           | (Inr reqs, c1) \<Rightarrow>
               (case asio_conn_drain ng wr c1 of
                  None \<Rightarrow> None
                | Some (Inl e, c2) \<Rightarrow> Some (Inl e, c2)
                | Some (Inr _, c2) \<Rightarrow> Some (Inr reqs, c2))))"

section \<open>Demultiplexing, as a contract\<close>

text \<open>The events of one stream, as a machine of their own: the request being received, if any,
  and the requests finished by this event.\<close>

definition stream_event :: "event \<Rightarrow> request option \<Rightarrow> request option \<times> request list" where
  "stream_event ev cur =
     (if ev_stream_id ev \<le> 0 then (cur, [])
      else
        let req = (case cur of None \<Rightarrow> request_new (ev_stream_id ev) | Some r \<Rightarrow> r)
        in case ev_type ev of
             Stream_close \<Rightarrow> (None, [])
           | Stream_data \<Rightarrow> (Some (request_read (ev_data ev) req), [])
           | Stream_end \<Rightarrow> (None, [req])
           | Stream_header \<Rightarrow>
               (Some (case ev_header ev of None \<Rightarrow> req | Some (n, v) \<Rightarrow> request_header n v req), [])
           | Noop \<Rightarrow> (Some req, []))"

fun local_run ::
  "(event \<Rightarrow> 'r option \<Rightarrow> 'r option \<times> 'r list) \<Rightarrow> event list \<Rightarrow> 'r option \<times> 'r list \<Rightarrow> 'r option \<times> 'r list" where
  "local_run f [] x = x"
| "local_run f (e # es) (cur, rs) = (let (cur', out) = f e cur in local_run f es (cur', out @ rs))"

lemma local_run_append: "local_run f (es @ es') x = local_run f es' (local_run f es x)"
  by (induction es arbitrary: x) (auto split: prod.splits)

abbreviation of_stream :: "stream_id \<Rightarrow> event list \<Rightarrow> event list" where
  "of_stream k es \<equiv> filter (\<lambda>e. ev_stream_id e = k) es"

locale stream_demux =
  fixes step :: "event \<Rightarrow> 's \<times> 'r list \<Rightarrow> 's \<times> 'r list"
    and look :: "stream_id \<Rightarrow> 's \<Rightarrow> 'r option"
    and single :: "event \<Rightarrow> 'r option \<Rightarrow> 'r option \<times> 'r list"
    and owner :: "'r \<Rightarrow> stream_id"
    and inv :: "'s \<Rightarrow> bool"
  assumes step_look: "inv s \<Longrightarrow> look k (fst (step e (s, rs))) =
        (if ev_stream_id e = k then fst (single e (look k s)) else look k s)"
    and step_out: "inv s \<Longrightarrow> snd (step e (s, rs)) = snd (single e (look (ev_stream_id e) s)) @ rs"
    and step_owner: "inv s \<Longrightarrow> r \<in> set (snd (single e (look (ev_stream_id e) s))) \<Longrightarrow> owner r = ev_stream_id e"
    and step_inv: "inv s \<Longrightarrow> inv (fst (step e (s, rs)))"
begin

lemma run_inv: "inv s \<Longrightarrow> inv (fst (fold step es (s, rs)))"
  by (induction es arbitrary: s rs) (simp, metis fold_simps(2) prod.collapse step_inv)

lemma out_filter:
  "inv s \<Longrightarrow> filter (\<lambda>r. owner r = k) (snd (single e (look (ev_stream_id e) s))) =
     (if ev_stream_id e = k then snd (single e (look k s)) else [])"
  using step_owner [of s _ e] by (auto simp: filter_id_conv filter_empty_conv)

lemma isolation:
  "inv s \<Longrightarrow>
     (look k (fst (fold step es (s, rs))), filter (\<lambda>r. owner r = k) (snd (fold step es (s, rs)))) =
     local_run single (of_stream k es) (look k s, filter (\<lambda>r. owner r = k) rs)"
proof (induction es arbitrary: s rs)
  case (Cons e es)
  obtain s1 rs1 where st: "step e (s, rs) = (s1, rs1)" by force
  have inv1: "inv s1" using step_inv [OF Cons.prems, of e rs] st by simp
  have look1: "look k s1 = (if ev_stream_id e = k then fst (single e (look k s)) else look k s)"
    using step_look [OF Cons.prems, of k e rs] st by simp
  have rs1: "filter (\<lambda>r. owner r = k) rs1 =
      (if ev_stream_id e = k then snd (single e (look k s)) else []) @ filter (\<lambda>r. owner r = k) rs"
    using step_out [OF Cons.prems, of e rs] out_filter [OF Cons.prems, of k e] st by simp
  show ?case
    using Cons.IH [OF inv1, of rs1] look1 rs1 st by (auto simp: split: prod.splits)
qed simp

lemma interleaving:
  assumes "inv s" "of_stream k es = of_stream k es'"
  shows "look k (fst (fold step es (s, rs))) = look k (fst (fold step es' (s, rs)))"
    and "filter (\<lambda>r. owner r = k) (snd (fold step es (s, rs))) =
      filter (\<lambda>r. owner r = k) (snd (fold step es' (s, rs)))"
  using isolation [OF assms(1), of k es rs] isolation [OF assms(1), of k es' rs] assms(2)
  by (metis prod.inject)+

end

definition streams_inv :: "streams \<Rightarrow> bool" where
  "streams_inv st \<longleftrightarrow> um_wf st \<and> (\<forall>k r. um_find k st = Some r \<longrightarrow> req_id r = k)"

lemma stream_event_id:
  assumes "stream_event e cur = (cur', out)" "\<forall>r. cur = Some r \<longrightarrow> req_id r = ev_stream_id e"
  shows "(\<forall>r. cur' = Some r \<longrightarrow> req_id r = ev_stream_id e) \<and> (\<forall>r \<in> set out. req_id r = ev_stream_id e)"
  using assms
  by (auto simp: stream_event_def Let_def split: if_splits option.splits type_t.splits)

lemma uv_conn_event_look:
  "um_find k (fst (uv_conn_event e (st, rs))) =
     (if ev_stream_id e = k then fst (stream_event e (um_find k st)) else um_find k st)"
  by (auto simp: uv_conn_event_def stream_event_def Let_def um.find_erase um.find_emplace um.find_assign
      split: option.splits type_t.splits)

lemma uv_conn_event_out:
  "snd (uv_conn_event e (st, rs)) = snd (stream_event e (um_find (ev_stream_id e) st)) @ rs"
  by (auto simp: uv_conn_event_def stream_event_def Let_def um.find_emplace
      split: option.splits type_t.splits)

lemma uv_conn_event_wf: "um_wf st \<Longrightarrow> um_wf (fst (uv_conn_event e (st, rs)))"
  by (auto simp: uv_conn_event_def Let_def um.invar_erase um.invar_emplace um.invar_assign
      split: option.splits type_t.splits)

lemma uv_conn_event_inv:
  assumes "streams_inv st"
  shows "streams_inv (fst (uv_conn_event e (st, rs)))"
proof -
  have "req_id r = k" if "um_find k (fst (uv_conn_event e (st, rs))) = Some r" for k r
    using that assms stream_event_id [of e "um_find k st"]
    by (cases "stream_event e (um_find k st)")
      (auto simp: uv_conn_event_look streams_inv_def split: if_splits)
  then show ?thesis using assms uv_conn_event_wf by (simp add: streams_inv_def)
qed

interpretation uvd: stream_demux uv_conn_event um_find stream_event req_id streams_inv
proof unfold_locales
  fix s :: streams and e r
  assume "streams_inv s" "r \<in> set (snd (stream_event e (um_find (ev_stream_id e) s)))"
  then show "req_id r = ev_stream_id e"
    using stream_event_id [of e "um_find (ev_stream_id e) s"]
    by (cases "stream_event e (um_find (ev_stream_id e) s)") (auto simp: streams_inv_def)
qed (simp_all add: uv_conn_event_look uv_conn_event_out uv_conn_event_inv)

lemma asio_conn_event_eq: "asio_conn_event = uv_conn_event"
  by (intro ext) (simp add: asio_conn_event_def uv_conn_event_def)

interpretation aid: stream_demux asio_conn_event um_find stream_event req_id streams_inv
  unfolding asio_conn_event_eq by (rule uvd.stream_demux_axioms)

section \<open>A unary call\<close>

definition header_event :: "stream_id \<Rightarrow> header \<Rightarrow> event" where
  "header_event i h = \<lparr>ev_data = [], ev_stream_id = i, ev_type = Stream_header, ev_header = Some h\<rparr>"

definition data_event :: "stream_id \<Rightarrow> bytes \<Rightarrow> event" where
  "data_event i d = \<lparr>ev_data = d, ev_stream_id = i, ev_type = Stream_data, ev_header = None\<rparr>"

definition end_event :: "stream_id \<Rightarrow> event" where
  "end_event i = \<lparr>ev_data = [], ev_stream_id = i, ev_type = Stream_end, ev_header = None\<rparr>"

definition unary_events :: "stream_id \<Rightarrow> header list \<Rightarrow> bytes list \<Rightarrow> event list" where
  "unary_events i hs cs = map (header_event i) hs @ map (data_event i) cs @ [end_event i]"

definition current :: "stream_id \<Rightarrow> request option \<Rightarrow> request" where
  "current i cur = (case cur of None \<Rightarrow> request_new i | Some r \<Rightarrow> r)"

lemma local_run_headers:
  "0 < i \<Longrightarrow> \<exists>cur'. local_run stream_event (map (header_event i) hs @ es) (cur, rs) =
     local_run stream_event es (cur', rs) \<and> current i cur' = request_headers hs (current i cur)"
proof (induction hs arbitrary: cur)
  case (Cons h hs)
  obtain n v where h: "h = (n, v)" by force
  have "stream_event (header_event i h) cur = (Some (request_header n v (current i cur)), [])"
    using Cons.prems by (cases cur) (simp_all add: stream_event_def header_event_def h current_def)
  with Cons.IH [OF Cons.prems, of "Some (request_header n v (current i cur))"] show ?case
    by (simp add: h current_def)
qed auto

lemma local_run_chunks:
  "0 < i \<Longrightarrow> \<exists>cur'. local_run stream_event (map (data_event i) cs @ es) (cur, rs) =
     local_run stream_event es (cur', rs) \<and> current i cur' = request_reads cs (current i cur)"
proof (induction cs arbitrary: cur)
  case (Cons d cs)
  have "stream_event (data_event i d) cur = (Some (request_read d (current i cur)), [])"
    using Cons.prems by (cases cur) (simp_all add: stream_event_def data_event_def current_def)
  with Cons.IH [OF Cons.prems, of "Some (request_read d (current i cur))"] show ?case
    by (simp add: current_def)
qed auto

lemma local_run_unary:
  assumes "0 < i"
  shows "local_run stream_event (unary_events i hs cs) (None, rs) =
     (None, request_reads cs (request_headers hs (request_new i)) # rs)"
proof -
  obtain c1 where 1: "local_run stream_event (unary_events i hs cs) (None, rs) =
      local_run stream_event (map (data_event i) cs @ [end_event i]) (c1, rs)"
    "current i c1 = request_headers hs (request_new i)"
    using local_run_headers [OF assms, of hs "map (data_event i) cs @ [end_event i]" None rs]
    by (auto simp: unary_events_def current_def)
  obtain c2 where 2: "local_run stream_event (map (data_event i) cs @ [end_event i]) (c1, rs) =
      local_run stream_event [end_event i] (c2, rs)" "current i c2 = request_reads cs (current i c1)"
    using local_run_chunks [OF assms, of cs "[end_event i]" c1 rs] by auto
  show ?thesis
    using assms 1 2 by (cases c2) (simp_all add: stream_event_def end_event_def current_def)
qed

section \<open>Draining the session\<close>

text \<open>The big-step meaning of the loop: the chunks it sees until the first empty one.\<close>

inductive drains :: "'ng nghttp2 \<Rightarrow> 'ng session \<Rightarrow> bytes list \<Rightarrow> 'ng session \<Rightarrow> bool" for ng where
  drain_stop: "session_pending ng s = (Inr [], s') \<Longrightarrow> drains ng s [] s'"
| drain_more: "session_pending ng s = (Inr c, s1) \<Longrightarrow> c \<noteq> [] \<Longrightarrow> drains ng s1 cs s' \<Longrightarrow>
    drains ng s (c # cs) s'"

inductive_cases drainsE: "drains ng s cs s'"

lemma drains_buffer:
  "drains ng s cs s' \<Longrightarrow> uvc_session c = s \<Longrightarrow>
     uv_conn_buffer ng c = Some (Return (c\<lparr>uvc_session := s', uvc_buffer := uvc_buffer c @ concat cs\<rparr>))"
proof (induction arbitrary: c rule: drains.induct)
  case (drain_stop s s')
  then show ?case by (subst uv_conn_buffer.simps) simp
next
  case (drain_more s b s1 cs s')
  then show ?case by (subst uv_conn_buffer.simps) simp
qed

lemma buffer_drains:
  assumes "uv_conn_buffer ng c = Some (Return c')"
  shows "\<exists>cs s'. drains ng (uvc_session c) cs s' \<and>
     c' = c\<lparr>uvc_session := s', uvc_buffer := uvc_buffer c @ concat cs\<rparr>"
proof -
  have "\<forall>c'. r = Return c' \<longrightarrow> (\<exists>cs s'. drains ng (uvc_session c) cs s' \<and>
     c' = c\<lparr>uvc_session := s', uvc_buffer := uvc_buffer c @ concat cs\<rparr>)"
    if "uv_conn_buffer ng c = Some r" for r
  proof (rule uv_conn_buffer.raw_induct [where P = "\<lambda>ng c r. \<forall>c'. r = Return c' \<longrightarrow>
      (\<exists>cs s'. drains ng (uvc_session c) cs s' \<and>
        c' = c\<lparr>uvc_session := s', uvc_buffer := uvc_buffer c @ concat cs\<rparr>)", OF _ that])
    fix f and ng :: "'a nghttp2" and c :: "'a uv_conn" and r
    assume IH: "\<And>ng c r. f ng c = Some r \<Longrightarrow> \<forall>c'. r = Return c' \<longrightarrow>
      (\<exists>cs s'. drains ng (uvc_session c) cs s' \<and>
        c' = c\<lparr>uvc_session := s', uvc_buffer := uvc_buffer c @ concat cs\<rparr>)"
      and eq: "(case session_pending ng (uvc_session c) of (Inl e, s) \<Rightarrow> Some Terminate
        | (Inr chunk, s) \<Rightarrow> if 0 < length chunk
            then f ng (c\<lparr>uvc_session := s, uvc_buffer := uvc_buffer c @ chunk\<rparr>)
            else Some (Return (c\<lparr>uvc_session := s\<rparr>))) = Some r"
    obtain res s where p: "session_pending ng (uvc_session c) = (res, s)" by force
    show "\<forall>c'. r = Return c' \<longrightarrow> (\<exists>cs s'. drains ng (uvc_session c) cs s' \<and>
        c' = c\<lparr>uvc_session := s', uvc_buffer := uvc_buffer c @ concat cs\<rparr>)"
    proof (cases res)
      case (Inl e)
      with eq p show ?thesis by auto
    next
      case (Inr chunk)
      show ?thesis
      proof (cases "chunk = []")
        case True
        with eq p Inr show ?thesis by (auto intro!: exI [of _ "[]"] exI [of _ s] drain_stop)
      next
        case False
        with eq p Inr have "f ng (c\<lparr>uvc_session := s, uvc_buffer := uvc_buffer c @ chunk\<rparr>) = Some r"
          by simp
        from IH [OF this] p Inr False show ?thesis by (fastforce intro: drain_more)
      qed
    qed
  qed
  with assms show ?thesis by blast
qed

lemma uv_conn_buffer_drains:
  "uv_conn_buffer ng c = Some (Return c') \<longleftrightarrow>
     (\<exists>cs s'. drains ng (uvc_session c) cs s' \<and>
        c' = c\<lparr>uvc_session := s', uvc_buffer := uvc_buffer c @ concat cs\<rparr>)"
  using drains_buffer [OF _ refl] buffer_drains by (metis (no_types))

text \<open>What the socket becomes when a list of chunks is written to it, \<open>None\<close> when a write fails.\<close>

fun sock_run :: "'io sock_write \<Rightarrow> bytes list \<Rightarrow> 'io \<Rightarrow> 'io option" where
  "sock_run wr [] io = Some io"
| "sock_run wr (c # cs) io = (let (ok, io') = wr c io in if ok then sock_run wr cs io' else None)"

lemma drains_asio:
  "drains ng s cs s' \<Longrightarrow> aic_session c = s \<Longrightarrow> sock_run wr cs (aic_sock c) = Some io \<Longrightarrow>
     asio_conn_drain ng wr c = Some (Inr (), c\<lparr>aic_session := s', aic_sock := io\<rparr>)"
proof (induction arbitrary: c rule: drains.induct)
  case (drain_stop s s')
  then show ?case by (subst asio_conn_drain.simps) simp
next
  case (drain_more s b s1 cs s')
  then show ?case
    by (subst asio_conn_drain.simps) (auto split: prod.splits if_splits)
qed

definition asio_drained ::
  "'ng nghttp2 \<Rightarrow> 'io sock_write \<Rightarrow> ('ng, 'io) asio_conn \<Rightarrow> ('ng, 'io) asio_conn \<Rightarrow> bool" where
  "asio_drained ng wr c c' \<longleftrightarrow> (\<exists>cs s' io. drains ng (aic_session c) cs s' \<and>
     sock_run wr cs (aic_sock c) = Some io \<and> c' = c\<lparr>aic_session := s', aic_sock := io\<rparr>)"

lemma asio_drained_stop:
  "session_pending ng (aic_session c) = (Inr [], s) \<Longrightarrow> asio_drained ng wr c (c\<lparr>aic_session := s\<rparr>)"
  unfolding asio_drained_def
  by (rule exI [of _ "[]"], rule exI [of _ s], rule exI [of _ "aic_sock c"]) (simp add: drain_stop)

lemma asio_drained_more:
  assumes "session_pending ng (aic_session c) = (Inr chunk, s)" "chunk \<noteq> []"
    and "wr chunk (aic_sock c) = (True, io)"
    and "asio_drained ng wr (c\<lparr>aic_session := s, aic_sock := io\<rparr>) c'"
  shows "asio_drained ng wr c c'"
proof -
  from assms(4) obtain cs s' io' where d: "drains ng s cs s'" "sock_run wr cs io = Some io'"
    "c' = c\<lparr>aic_session := s', aic_sock := io'\<rparr>"
    unfolding asio_drained_def by auto
  have "drains ng (aic_session c) (chunk # cs) s'" using assms d by (auto intro: drain_more)
  moreover have "sock_run wr (chunk # cs) (aic_sock c) = Some io'" using assms d by simp
  ultimately show ?thesis unfolding asio_drained_def using d by blast
qed

lemma asio_drains:
  assumes "asio_conn_drain ng wr c = Some (Inr (), c')"
  shows "asio_drained ng wr c c'"
proof -
  have "\<forall>c'. r = (Inr (), c') \<longrightarrow> asio_drained ng wr c c'" if "asio_conn_drain ng wr c = Some r" for r
  proof (rule asio_conn_drain.raw_induct
      [where P = "\<lambda>ng wr c r. \<forall>c'. r = (Inr (), c') \<longrightarrow> asio_drained ng wr c c'", OF _ that])
    fix f and ng :: "'a nghttp2" and wr :: "'b sock_write" and c :: "('a, 'b) asio_conn" and r
    assume IH: "\<And>ng wr c r. f ng wr c = Some r \<Longrightarrow> \<forall>c'. r = (Inr (), c') \<longrightarrow> asio_drained ng wr c c'"
      and eq: "(case session_pending ng (aic_session c) of
          (Inl e, s) \<Rightarrow> Some (Inl e, c\<lparr>aic_session := s\<rparr>)
        | (Inr chunk, s) \<Rightarrow>
            if 0 < length chunk
            then (case wr chunk (aic_sock c) of
                    (ok, io) \<Rightarrow>
                      if ok then f ng wr (c\<lparr>aic_session := s, aic_sock := io\<rparr>)
                      else Some (Inl (App_exception ''write''), c\<lparr>aic_session := s, aic_sock := io\<rparr>))
            else Some (Inr (), c\<lparr>aic_session := s\<rparr>)) = Some r"
    obtain res s where p: "session_pending ng (aic_session c) = (res, s)" by force
    obtain ok io where w: "wr (projr res) (aic_sock c) = (ok, io)" by force
    show "\<forall>c'. r = (Inr (), c') \<longrightarrow> asio_drained ng wr c c'"
    proof (cases "\<exists>chunk. res = Inr chunk \<and> chunk \<noteq> [] \<and> ok")
      case True
      then obtain chunk where ch: "res = Inr chunk" "chunk \<noteq> []" "ok" by blast
      with eq p w have "f ng wr (c\<lparr>aic_session := s, aic_sock := io\<rparr>) = Some r" by simp
      from IH [OF this] asio_drained_more [OF _ ch(2)] show ?thesis using p w ch by auto
    next
      case False
      with eq p w show ?thesis
        by (cases res) (auto split: if_splits intro: asio_drained_stop)
    qed
  qed
  with assms show ?thesis by blast
qed

lemma asio_conn_drain_drains:
  "asio_conn_drain ng wr c = Some (Inr (), c') \<longleftrightarrow> asio_drained ng wr c c'"
  using asio_drains drains_asio [OF _ refl] unfolding asio_drained_def by metis

section \<open>Sending a response\<close>

text \<open>What sending a response means for the session, independent of the backend: headers and data are
  submitted, everything pending goes out, then the trailers and what they make pending.\<close>

definition response_sent ::
  "'ng nghttp2 \<Rightarrow> response \<Rightarrow> 'ng session \<Rightarrow> bytes list \<Rightarrow> 'ng session \<Rightarrow> bool" where
  "response_sent ng resp s cs s' \<longleftrightarrow>
     (\<exists>s1 s2 s3 s4 cs1 cs2.
        session_headers ng (resp_id resp) response_headers s = (Inr (), s1) \<and>
        session_data ng (resp_id resp) (response_bytes resp) s1 = (Inr (), s2) \<and>
        drains ng s2 cs1 s3 \<and>
        session_trailers ng (resp_id resp) (response_trailers (resp_status resp)) s3 = (Inr (), s4) \<and>
        drains ng s4 cs2 s' \<and> cs = cs1 @ cs2)"

lemma uv_write_stages:
  "uv_conn_write ng resp c = Some (Return c') \<longleftrightarrow>
     (\<exists>s1 s2 c1 s3.
        session_headers ng (resp_id resp) response_headers (uvc_session c) = (Inr (), s1) \<and>
        session_data ng (resp_id resp) (response_bytes resp) s1 = (Inr (), s2) \<and>
        uv_conn_buffer ng (c\<lparr>uvc_session := s2\<rparr>) = Some (Return c1) \<and>
        session_trailers ng (resp_id resp) (response_trailers (resp_status resp)) (uvc_session c1) = (Inr (), s3) \<and>
        uv_conn_buffer ng (c1\<lparr>uvc_session := s3\<rparr>) = Some (Return c'))"
  by (auto simp: uv_conn_write_def split: prod.splits sum.splits option.splits outcome.splits)

lemma asio_write_stages:
  "asio_conn_write ng wr resp c = Some (Inr (), c') \<longleftrightarrow>
     (\<exists>s1 s2 c1 s3.
        session_headers ng (resp_id resp) response_headers (aic_session c) = (Inr (), s1) \<and>
        session_data ng (resp_id resp) (response_bytes resp) s1 = (Inr (), s2) \<and>
        asio_conn_drain ng wr (c\<lparr>aic_session := s2\<rparr>) = Some (Inr (), c1) \<and>
        session_trailers ng (resp_id resp) (response_trailers (resp_status resp)) (aic_session c1) = (Inr (), s3) \<and>
        asio_conn_drain ng wr (c1\<lparr>aic_session := s3\<rparr>) = Some (Inr (), c'))"
  by (auto simp: asio_conn_write_def split: prod.splits sum.splits option.splits)

lemma sock_run_append: "sock_run wr (xs @ ys) io = Option.bind (sock_run wr xs io) (sock_run wr ys)"
  by (induction xs arbitrary: io) (auto split: prod.splits)


lemma uv_conn_write_sent:
  "uv_conn_write ng resp c = Some (Return c') \<longleftrightarrow>
     (\<exists>cs s'. response_sent ng resp (uvc_session c) cs s' \<and>
        c' = c\<lparr>uvc_session := s', uvc_buffer := uvc_buffer c @ concat cs\<rparr>)" (is "?l \<longleftrightarrow> ?r")
proof
  assume ?l
  then show ?r unfolding uv_write_stages uv_conn_buffer_drains response_sent_def
    by clarsimp (metis append_assoc concat_append)
next
  assume ?r
  then obtain s1 s2 s3 s4 s' cs1 cs2 where
    "session_headers ng (resp_id resp) response_headers (uvc_session c) = (Inr (), s1)"
    "session_data ng (resp_id resp) (response_bytes resp) s1 = (Inr (), s2)"
    "drains ng s2 cs1 s3"
    "session_trailers ng (resp_id resp) (response_trailers (resp_status resp)) s3 = (Inr (), s4)"
    "drains ng s4 cs2 s'" "c' = c\<lparr>uvc_session := s', uvc_buffer := uvc_buffer c @ concat (cs1 @ cs2)\<rparr>"
    unfolding response_sent_def by blast
  then show ?l by (simp add: uv_conn_write_def drains_buffer)
qed

lemma asio_conn_write_sent:
  "asio_conn_write ng wr resp c = Some (Inr (), c') \<longleftrightarrow>
     (\<exists>cs s' io. response_sent ng resp (aic_session c) cs s' \<and> sock_run wr cs (aic_sock c) = Some io \<and>
        c' = c\<lparr>aic_session := s', aic_sock := io\<rparr>)" (is "?l \<longleftrightarrow> ?r")
proof
  assume ?l
  then obtain s1 s2 s3 s4 s' cs1 cs2 io io' where
    "session_headers ng (resp_id resp) response_headers (aic_session c) = (Inr (), s1)"
    "session_data ng (resp_id resp) (response_bytes resp) s1 = (Inr (), s2)"
    "drains ng s2 cs1 s3" "sock_run wr cs1 (aic_sock c) = Some io"
    "session_trailers ng (resp_id resp) (response_trailers (resp_status resp)) s3 = (Inr (), s4)"
    "drains ng s4 cs2 s'" "sock_run wr cs2 io = Some io'" "c' = c\<lparr>aic_session := s', aic_sock := io'\<rparr>"
    unfolding asio_write_stages asio_conn_drain_drains asio_drained_def by auto
  moreover from this have "sock_run wr (cs1 @ cs2) (aic_sock c) = Some io'" by (simp add: sock_run_append)
  ultimately show ?r unfolding response_sent_def by metis
next
  assume ?r
  then obtain s1 s2 s3 s4 s' cs1 cs2 io io' where
    "session_headers ng (resp_id resp) response_headers (aic_session c) = (Inr (), s1)"
    "session_data ng (resp_id resp) (response_bytes resp) s1 = (Inr (), s2)"
    "drains ng s2 cs1 s3" "sock_run wr cs1 (aic_sock c) = Some io"
    "session_trailers ng (resp_id resp) (response_trailers (resp_status resp)) s3 = (Inr (), s4)"
    "drains ng s4 cs2 s'" "sock_run wr cs2 io = Some io'" "c' = c\<lparr>aic_session := s', aic_sock := io'\<rparr>"
    unfolding response_sent_def by (auto simp: sock_run_append bind_eq_Some_conv)
  then show ?l by (simp add: asio_conn_write_def drains_asio)
qed

section \<open>Refused submissions\<close>

text \<open>One of the three submissions of a response is refused, with the exception \<open>e\<close>, after nghttp2 has handed out
  the chunks \<open>cs\<close>.\<close>

definition response_refused ::
  "'ng nghttp2 \<Rightarrow> response \<Rightarrow> 'ng session \<Rightarrow> bytes list \<Rightarrow> cpp_exn \<Rightarrow> 'ng session \<Rightarrow> bool" where
  "response_refused ng resp s cs e s' \<longleftrightarrow>
     session_headers ng (resp_id resp) response_headers s = (Inl e, s') \<and> cs = [] \<or>
     (\<exists>s1. session_headers ng (resp_id resp) response_headers s = (Inr (), s1) \<and>
        session_data ng (resp_id resp) (response_bytes resp) s1 = (Inl e, s') \<and> cs = []) \<or>
     (\<exists>s1 s2 s3. session_headers ng (resp_id resp) response_headers s = (Inr (), s1) \<and>
        session_data ng (resp_id resp) (response_bytes resp) s1 = (Inr (), s2) \<and> drains ng s2 cs s3 \<and>
        session_trailers ng (resp_id resp) (response_trailers (resp_status resp)) s3 = (Inl e, s'))"

lemma response_refused_uv:
  assumes "response_refused ng resp (uvc_session c) cs e s'"
  shows "uv_conn_write ng resp c = Some Terminate"
  using assms unfolding response_refused_def
  by (elim disjE exE conjE) (simp_all add: uv_conn_write_def drains_buffer)

lemma response_refused_asio:
  assumes "response_refused ng resp (aic_session a) cs e s'" "sock_run wr cs (aic_sock a) = Some io"
  shows "asio_conn_write ng wr resp a = Some (Inl e, a\<lparr>aic_session := s', aic_sock := io\<rparr>)"
  using assms unfolding response_refused_def
  by (elim disjE exE conjE; cases a) (simp_all add: asio_conn_write_def drains_asio)

section \<open>Termination of the drain loops\<close>

text \<open>What the loops rely on: every non-empty chunk that nghttp2 hands out brings it closer to having
  nothing to send. The measure is a parameter, as nghttp2 is.\<close>

definition drain_decreases :: "'ng nghttp2 \<Rightarrow> ('ng session \<Rightarrow> nat) \<Rightarrow> bool" where
  "drain_decreases ng m \<longleftrightarrow>
     (\<forall>s c s'. session_pending ng s = (Inr c, s') \<longrightarrow> c \<noteq> [] \<longrightarrow> m s' < m s)"

lemma uv_conn_buffer_total:
  assumes "drain_decreases ng m"
  shows "\<exists>r. uv_conn_buffer ng c = Some r"
proof (induction "m (uvc_session c)" arbitrary: c rule: less_induct)
  case less
  obtain res s where p: "session_pending ng (uvc_session c) = (res, s)" by force
  show ?case
  proof (cases "\<exists>b. res = Inr b \<and> b \<noteq> []")
    case True
    then obtain b where b: "res = Inr b" "b \<noteq> []" by blast
    with p assms have "m s < m (uvc_session c)" unfolding drain_decreases_def by blast
    with less [of "c\<lparr>uvc_session := s, uvc_buffer := uvc_buffer c @ b\<rparr>"] p b show ?thesis
      by (subst uv_conn_buffer.simps) simp
  next
    case False
    with p show ?thesis by (subst uv_conn_buffer.simps) (auto split: sum.splits)
  qed
qed

lemma asio_conn_drain_total:
  assumes "drain_decreases ng m"
  shows "\<exists>r. asio_conn_drain ng wr c = Some r"
proof (induction "m (aic_session c)" arbitrary: c rule: less_induct)
  case less
  obtain res s where p: "session_pending ng (aic_session c) = (res, s)" by force
  show ?case
  proof (cases "\<exists>b. res = Inr b \<and> b \<noteq> []")
    case True
    then obtain b where b: "res = Inr b" "b \<noteq> []" by blast
    with p assms have m: "m s < m (aic_session c)" unfolding drain_decreases_def by blast
    obtain ok io where w: "wr b (aic_sock c) = (ok, io)" by force
    from m less [of "c\<lparr>aic_session := s, aic_sock := io\<rparr>"] p b w show ?thesis
      by (subst asio_conn_drain.simps) simp
  next
    case False
    with p show ?thesis by (subst asio_conn_drain.simps) (auto split: sum.splits)
  qed
qed

lemma uv_conn_read_total: "drain_decreases ng m \<Longrightarrow> \<exists>r. uv_conn_read ng bs c = Some r"
  using uv_conn_buffer_total [of ng m]
  by (auto simp: uv_conn_read_def split: prod.splits sum.splits option.splits outcome.splits)
    (metis option.distinct(1))

lemma uv_conn_write_total: "drain_decreases ng m \<Longrightarrow> \<exists>r. uv_conn_write ng resp c = Some r"
  using uv_conn_buffer_total [of ng m]
  by (auto simp: uv_conn_write_def split: prod.splits sum.splits option.splits outcome.splits)
    (metis option.distinct(1))

lemma asio_conn_write_total: "drain_decreases ng m \<Longrightarrow> \<exists>r. asio_conn_write ng wr resp c = Some r"
  using asio_conn_drain_total [of ng m wr]
  by (auto simp: asio_conn_write_def split: prod.splits sum.splits option.splits)
    (metis option.distinct(1))

lemma asio_conn_reqs_total: "drain_decreases ng m \<Longrightarrow> \<exists>r. asio_conn_reqs ng wr inp c = Some r"
  using asio_conn_drain_total [of ng m wr]
  by (auto simp: asio_conn_reqs_def split: prod.splits sum.splits option.splits)
    (metis option.distinct(1))

lemma streams_inv_empty [simp]: "streams_inv []"
  by (simp add: streams_inv_def um.invar_empty um.find_empty)

lemma local_run_stream_count:
  "list_all (\<lambda>e. ev_stream_id e = k) es \<Longrightarrow>
     length (snd (local_run stream_event es (cur, rs))) =
       length rs + (if 0 < k then length (filter (\<lambda>e. ev_type e = Stream_end) es) else 0)"
proof (induction es arbitrary: cur rs)
  case (Cons e es)
  obtain cur' out where s: "stream_event e cur = (cur', out)" by force
  have "length out = (if 0 < k \<and> ev_type e = Stream_end then 1 else 0)"
    using s Cons.prems by (auto simp: stream_event_def Let_def split: if_splits type_t.splits)
  then show ?case using Cons.IH [of cur' "out @ rs"] Cons.prems s by auto
qed simp

lemma demux_fresh:
  "(um_find k (fst (fold uv_conn_event es ([], []))), filter (\<lambda>r. req_id r = k) (snd (fold uv_conn_event es ([], [])))) =
     local_run stream_event (of_stream k es) (None, [])"
  using uvd.isolation [OF streams_inv_empty, of k es "[]"] by (simp add: um.find_empty)

lemma drains_det: "drains ng s cs s' \<Longrightarrow> drains ng s ds t \<Longrightarrow> ds = cs \<and> t = s'"
proof (induction arbitrary: ds rule: drains.induct)
  case (drain_stop s s')
  then show ?case by (auto elim: drainsE)
next
  case (drain_more s c s1 cs s')
  from drain_more.prems show ?case
    using drain_more.hyps drain_more.IH by (cases rule: drains.cases) auto
qed

lemma response_sent_det: "response_sent ng resp s cs s' \<Longrightarrow> response_sent ng resp s ds t \<Longrightarrow> ds = cs \<and> t = s'"
  unfolding response_sent_def by clarsimp (metis drains_det prod.inject)

text \<open>What a peer finds in the trailers that reach nghttp2.\<close>

lemma response_trailers_lookup:
  assumes "status_wf st"
  shows "map_of (session_nv (response_trailers st)) ''grpc-status'' = Some (to_string (code_value (st_code st)))"
    and "map_of (session_nv (response_trailers st)) ''grpc-status-details-bin'' =
      (if st_details st = [] then None else Some (st_details st))"
    and "length (session_nv (response_trailers st)) = (if st_details st = [] then 1 else 2)"
  using status_text_wf [OF assms] by (simp_all add: response_trailers_def to_string_code_nonempty)

section \<open>A sample connection\<close>

text \<open>Concrete states over the small nghttp2, for the witnesses.\<close>

definition sample_session :: "stream_id list \<Rightarrow> sample_state session" where
  "sample_session cl = \<lparr>ses_data = [], ses_events = [], ses_ng = \<lparr>sam_queue = [], sam_closed = cl\<rparr>\<rparr>"

definition sample_uv_conn :: "stream_id list \<Rightarrow> sample_state uv_conn" where
  "sample_uv_conn cl = \<lparr>uvc_buffer = [], uvc_session = sample_session cl, uvc_streams = []\<rparr>"

definition sample_asio_conn :: "stream_id list \<Rightarrow> (sample_state, bytes list) asio_conn" where
  "sample_asio_conn cl = \<lparr>aic_eos = False, aic_session = sample_session cl, aic_streams = [], aic_sock = []\<rparr>"

definition sample_sock :: "bytes list sock_write" where
  "sample_sock b io = (True, io @ [b])"

definition sample_response :: response where
  "sample_response = response_set_data (map of_nat [1..<18]) (response_new 1 Code_ok)"

definition sample_sent :: "sample_state session" where
  "sample_sent =
     \<lparr>ses_data = [], ses_events = [\<lparr>ev_data = [], ev_stream_id = 1, ev_type = Stream_close, ev_header = None\<rparr>],
      ses_ng = \<lparr>sam_queue = [], sam_closed = [1]\<rparr>\<rparr>"

lemma sample_pending:
  "session_pending (sample_ng rx) s = (Inr c, s') \<Longrightarrow> c \<noteq> [] \<Longrightarrow>
     length (sam_queue (ses_ng s')) + length (ses_data s') < length (sam_queue (ses_ng s)) + length (ses_data s)"
  by (cases "sam_queue (ses_ng s)"; cases "hd (sam_queue (ses_ng s))")
    (auto simp: session_pending_def sample_ng_def read_cb_def Let_def split: if_splits)

lemma sample_drains:
  "drain_decreases (sample_ng rx) (\<lambda>s. length (sam_queue (ses_ng s)) + length (ses_data s))"
  unfolding drain_decreases_def using sample_pending by blast

section \<open>Properties\<close>

text \<open>C14: isolation of the streams. What a connection holds for a stream and the requests it hands over
  for it are those of a machine that sees the events of this stream only: no event of another
  stream changes them. Both backends sort the events this way.\<close>

theorem conn_stream_isolation:
  "(um_find k (fst (fold uv_conn_event es ([], []))), filter (\<lambda>r. req_id r = k) (snd (fold uv_conn_event es ([], [])))) =
     local_run stream_event (of_stream k es) (None, []) \<and>
   fold asio_conn_event es ([], []) = fold uv_conn_event es ([], [])"
  using demux_fresh by (simp add: asio_conn_event_eq)

text \<open>A call is reassembled from its frames. When the events of a stream are its headers, its data
  chunks and its end, then, however they are interleaved with the events of other streams,
  exactly one request is handed over for the stream: the one that got these headers and chunks
  in this order. Nothing stays behind for the stream.\<close>

theorem conn_unary_call:
  assumes "0 < i" "of_stream i es = unary_events i hs cs"
  shows "filter (\<lambda>r. req_id r = i) (snd (fold uv_conn_event es ([], []))) =
      [request_reads cs (request_headers hs (request_new i))] \<and>
    um_find i (fst (fold uv_conn_event es ([], []))) = None"
  using demux_fresh [of i es] local_run_unary [OF assms(1), of hs cs "[]"] assms(2) by simp

theorem conn_unary_call_witness:
  "filter (\<lambda>r. req_id r = 1) (snd (fold uv_conn_event
      [header_event 1 ('':path'', ''/a/b''), header_event 3 ('':path'', ''/c/d''), data_event 3 [0],
       data_event 1 [0, 0], end_event 3, end_event 0, data_event 1 [0, 0, 0], end_event 1] ([], []))) =
   [request_reads [[0, 0], [0, 0, 0]] (request_headers [('':path'', ''/a/b'')] (request_new 1))]"
  by (rule conjunct1 [OF conn_unary_call])
    (simp_all add: unary_events_def header_event_def data_event_def end_event_def)

text \<open>One request per end of stream. The number of requests handed over for a stream is the number
  of end-of-stream events of it; streams that are not positive, such as the connection's
  control stream whose acknowledgements carry the same flag bit, never give one.\<close>

theorem conn_requests_count:
  "length (filter (\<lambda>r. req_id r = k) (snd (fold uv_conn_event es ([], [])))) =
     (if 0 < k then length (filter (\<lambda>e. ev_type e = Stream_end) (of_stream k es)) else 0)"
  using arg_cong [OF demux_fresh [of k es], of "\<lambda>x. length (snd x)"]
    local_run_stream_count [of k "of_stream k es" None "[]"]
  by (simp add: list_all_iff)

text \<open>C19: the uv connection implements the abstract sending of a response, its chunks appended to the
  buffer in order.\<close>

theorem uv_conn_write_refines:
  "uv_conn_write ng resp c = Some (Return c') \<longleftrightarrow>
     (\<exists>cs s'. response_sent ng resp (uvc_session c) cs s' \<and>
        c' = c\<lparr>uvc_session := s', uvc_buffer := uvc_buffer c @ concat cs\<rparr>)"
  by (rule uv_conn_write_sent)

text \<open>C20: the asio connection implements the abstract sending of a response, its chunks written to the
  socket one by one.\<close>

theorem asio_conn_write_refines:
  "asio_conn_write ng wr resp c = Some (Inr (), c') \<longleftrightarrow>
     (\<exists>cs s' io. response_sent ng resp (aic_session c) cs s' \<and> sock_run wr cs (aic_sock c) = Some io \<and>
        c' = c\<lparr>aic_session := s', aic_sock := io\<rparr>)"
  by (rule asio_conn_write_sent)

text \<open>The two backends put the same bytes on the wire for a response.\<close>

theorem conn_write_agree:
  assumes "aic_session a = uvc_session c" "uv_conn_write ng resp c = Some (Return c')"
    and "asio_conn_write ng wr resp a = Some (Inr (), a')"
  shows "aic_session a' = uvc_session c' \<and>
     (\<exists>cs. uvc_buffer c' = uvc_buffer c @ concat cs \<and> sock_run wr cs (aic_sock a) = Some (aic_sock a'))"
proof -
  obtain cs s' where c: "response_sent ng resp (uvc_session c) cs s'"
    "c' = c\<lparr>uvc_session := s', uvc_buffer := uvc_buffer c @ concat cs\<rparr>"
    using assms(2) unfolding uv_conn_write_sent by blast
  obtain ds t io where a: "response_sent ng resp (aic_session a) ds t" "sock_run wr ds (aic_sock a) = Some io"
    "a' = a\<lparr>aic_session := t, aic_sock := io\<rparr>"
    using assms(3) unfolding asio_conn_write_sent by blast
  from response_sent_det c(1) a(1) assms(1) have "ds = cs \<and> t = s'" by metis
  with a c show ?thesis by auto
qed



theorem conn_write_agree_witness:
  "let c' = (sample_uv_conn [])\<lparr>uvc_session := sample_sent,
          uvc_buffer := [1, 2, 0, 0, 0, 0, 17, 1, 2, 3, 4, 5, 6, 7, 8, 9, 10, 11, 2, 12, 13, 14, 15, 16, 17, 3]\<rparr>;
       a' = (sample_asio_conn [])\<lparr>aic_session := sample_sent,
          aic_sock := [[1], [2, 0, 0, 0, 0, 17, 1, 2, 3, 4, 5, 6, 7, 8, 9, 10, 11], [2, 12, 13, 14, 15, 16, 17], [3]]\<rparr>
   in \<exists>cs. uvc_buffer c' = concat cs \<and> sock_run sample_sock cs [] = Some (aic_sock a')"
proof -
  let ?ng = "sample_ng (\<lambda>_. (0, []))"
  let ?c = "(sample_uv_conn [])\<lparr>uvc_session := sample_sent,
    uvc_buffer := [1, 2, 0, 0, 0, 0, 17, 1, 2, 3, 4, 5, 6, 7, 8, 9, 10, 11, 2, 12, 13, 14, 15, 16, 17, 3]\<rparr>"
  let ?a = "(sample_asio_conn [])\<lparr>aic_session := sample_sent,
    aic_sock := [[1], [2, 0, 0, 0, 0, 17, 1, 2, 3, 4, 5, 6, 7, 8, 9, 10, 11], [2, 12, 13, 14, 15, 16, 17], [3]]\<rparr>"
  have u: "uv_conn_write ?ng sample_response (sample_uv_conn []) = Some (Return ?c)" by code_simp
  have a: "asio_conn_write ?ng sample_sock sample_response (sample_asio_conn []) = Some (Inr (), ?a)" by code_simp
  show ?thesis
    using conn_write_agree [OF _ u a] by (simp add: sample_uv_conn_def sample_asio_conn_def Let_def)
qed

text \<open>C21: termination. If every chunk that nghttp2 hands out brings it closer to having nothing to send,
  reading a chunk (\<open>read\<close> of the uv connection, \<open>reqs\<close> of the asio connection) and writing a response
  return on both backends, whatever the input and the socket do.\<close>

theorem conn_write_returns:
  assumes "drain_decreases ng m"
  shows "(\<exists>r. uv_conn_read ng bs c = Some r) \<and> (\<exists>r. uv_conn_write ng resp c = Some r) \<and>
     (\<exists>r. asio_conn_reqs ng wr inp a = Some r) \<and> (\<exists>r. asio_conn_write ng wr resp a = Some r)"
  using assms uv_conn_read_total uv_conn_write_total asio_conn_reqs_total asio_conn_write_total by blast

theorem conn_write_returns_witness:
  "(\<exists>r. uv_conn_read (sample_ng (\<lambda>_. (0, []))) [0] (sample_uv_conn []) = Some r) \<and>
   (\<exists>r. asio_conn_reqs (sample_ng (\<lambda>_. (0, []))) sample_sock (Some [0]) (sample_asio_conn []) = Some r)"
  using conn_write_returns [OF sample_drains] by blast

text \<open>C28: a refused submission. When nghttp2 refuses the headers, the data or the trailers of a response, for
  instance because the peer has closed the stream in the meantime, the uv connection ends the whole
  program, since its \<open>write\<close> is \<^verbatim>\<open>noexcept\<close>, while the asio connection reports the exception to its
  caller, having written to its socket what nghttp2 handed out before: nothing, or, if it is the
  trailers that are refused, the chunks \<open>cs\<close> with the headers and the data.\<close>

theorem conn_write_refused:
  assumes "response_refused ng resp s cs e s'" "sock_run wr cs io = Some io'"
  shows "uv_conn_write ng resp (c\<lparr>uvc_session := s\<rparr>) = Some Terminate \<and>
     asio_conn_write ng wr resp (a\<lparr>aic_session := s, aic_sock := io\<rparr>) =
       Some (Inl e, a\<lparr>aic_session := s', aic_sock := io'\<rparr>)"
  using assms response_refused_uv [of ng resp "c\<lparr>uvc_session := s\<rparr>"]
    response_refused_asio [of ng resp "a\<lparr>aic_session := s, aic_sock := io\<rparr>"] by simp

text \<open>The data of a response to a stream that the peer has closed.\<close>

theorem conn_write_refused_witness:
  "uv_conn_write (sample_ng (\<lambda>_. (0, []))) sample_response ((sample_uv_conn [])\<lparr>uvc_session := sample_session [1]\<rparr>) =
     Some Terminate"
proof -
  let ?ng = "sample_ng (\<lambda>_. (0, []))"
  let ?q = "sample_session [1]\<lparr>ses_ng := \<lparr>sam_queue = [Fr_headers 1 response_headers], sam_closed = [1]\<rparr>\<rparr>"
  have h: "session_headers ?ng (resp_id sample_response) response_headers (sample_session [1]) = (Inr (), ?q)"
    by (simp add: session_headers_def sample_ng_def sample_response_def sample_session_def response_headers_def)
  have d: "session_data ?ng (resp_id sample_response) (response_bytes sample_response) ?q =
      (Inl (Runtime_error ''Failed to submit data: ''), ?q\<lparr>ses_data := response_bytes sample_response\<rparr>)"
    by (simp add: session_data_def sample_ng_def sample_response_def sample_session_def)
  have "response_refused ?ng sample_response (sample_session [1]) [] (Runtime_error ''Failed to submit data: '')
      (?q\<lparr>ses_data := response_bytes sample_response\<rparr>)"
    using h d by (simp add: response_refused_def)
  from conjunct1 [OF conn_write_refused [OF this sock_run.simps(1)]] show ?thesis .
qed

text \<open>C33: the trailers carry the status. From the trailers that reach nghttp2 a peer recovers the code
  and the details of the response's status; the details trailer is left out exactly when there
  are none.\<close>

theorem response_trailers_roundtrip:
  assumes "status_wf st"
  shows "Option.bind (map_of (session_nv (response_trailers st)) ''grpc-status'') code_of_text = Some (st_code st) \<and>
     (case map_of (session_nv (response_trailers st)) ''grpc-status-details-bin'' of None \<Rightarrow> [] | Some d \<Rightarrow> d) = st_details st \<and>
     length (session_nv (response_trailers st)) = (if st_details st = [] then 1 else 2)"
  using assms by (simp add: response_trailers_lookup code_of_to_string)

theorem response_trailers_roundtrip_witness:
  "Option.bind (map_of (session_nv (response_trailers (status_of_details Code_aborted ''x''))) ''grpc-status'')
     code_of_text = Some Code_aborted"
  using response_trailers_roundtrip [OF status_wf_new(2), of Code_aborted "''x''"]
  by (simp add: status_of_details_def)

end
