(* ===== verification/Server.thy ===== *)
theory Server
  imports Conn
begin

text \<open>
  The two servers on top of the connections: \<^verbatim>\<open>uv::server\<close> (lib/grpcxx/uv/server.h, server.cpp) and
  \<^verbatim>\<open>asio::server\<close> (lib/grpcxx/asio/server.h, server.cpp). Each accepted connection is a coroutine that
  reads a chunk, hands every finished request to \<^verbatim>\<open>server_base::process\<close> and writes the response.

  The coroutines loop until the peer goes away. Their model consumes a list of inputs, one per
  \<^verbatim>\<open>co_await\<close> of the socket, and says how far it got: still waiting for input, closed, or ended by
  an exception that the coroutine's promise logs.

  Starting a server is a sequence of libuv calls whose results are arguments.
\<close>

section \<open>Serving one chunk\<close>

text \<open>The loop over the requests in the function that \<^verbatim>\<open>uv::server::conn\<close> hands to the scheduler.\<close>

fun uv_serve_all ::
  "'ng nghttp2 \<Rightarrow> server_base \<Rightarrow> request list \<Rightarrow> 'ng uv_conn \<Rightarrow> 'ng uv_conn outcome option" where
  "uv_serve_all ng sb [] c = Some (Return c)"
| "uv_serve_all ng sb (req # reqs) c =
     (case server_process sb req of
        Terminate \<Rightarrow> Some Terminate
      | Return resp \<Rightarrow>
          (case uv_conn_write ng resp c of
             None \<Rightarrow> None
           | Some Terminate \<Rightarrow> Some Terminate
           | Some (Return c') \<Rightarrow> uv_serve_all ng sb reqs c'))"

text \<open>The whole function. An exception of \<^verbatim>\<open>c.read(bytes)\<close> reaches the promise of \<^verbatim>\<open>scheduler::wrap\<close>, which
  logs it and lets the awaiting coroutine go on.\<close>

definition uv_serve ::
  "'ng nghttp2 \<Rightarrow> server_base \<Rightarrow> bytes \<Rightarrow> 'ng uv_conn \<Rightarrow> 'ng uv_conn outcome option" where
  "uv_serve ng sb bs c =
     (case uv_conn_read ng bs c of
        None \<Rightarrow> None
      | Some Terminate \<Rightarrow> Some Terminate
      | Some (Return (Inl e, c1)) \<Rightarrow> Some (Return c1)
      | Some (Return (Inr reqs, c1)) \<Rightarrow> uv_serve_all ng sb reqs c1)"

text \<open>The loop over the requests in \<^verbatim>\<open>asio::server::conn\<close>.\<close>

fun asio_serve_all ::
  "'ng nghttp2 \<Rightarrow> 'io sock_write \<Rightarrow> server_base \<Rightarrow> request list \<Rightarrow> ('ng, 'io) asio_conn \<Rightarrow>
     ((cpp_exn + unit) \<times> ('ng, 'io) asio_conn) outcome option" where
  "asio_serve_all ng wr sb [] c = Some (Return (Inr (), c))"
| "asio_serve_all ng wr sb (req # reqs) c =
     (if \<not> asio_conn_bool c then Some (Return (Inr (), c))
      else case server_process sb req of
             Terminate \<Rightarrow> Some Terminate
           | Return resp \<Rightarrow>
               (case asio_conn_write ng wr resp c of
                  None \<Rightarrow> None
                | Some (Inl e, c') \<Rightarrow> Some (Return (Inl e, c'))
                | Some (Inr _, c') \<Rightarrow> asio_serve_all ng wr sb reqs c'))"

section \<open>The connection coroutines\<close>

datatype conn_end = Conn_waiting | Conn_closed | Conn_failed cpp_exn

text \<open>The body of \<^verbatim>\<open>uv::server::conn\<close> after its locals are set up. An input is what the reader's await
  gets from libuv and the results of the write that \<open>flush\<close> may start; the result has the bytes
  handed to libuv, one entry per write.\<close>

fun uv_server_conn ::
  "'ng nghttp2 \<Rightarrow> server_base \<Rightarrow> coro \<Rightarrow> (uv_input \<times> int \<times> int) list \<Rightarrow> reader \<Rightarrow> 'ng uv_conn \<Rightarrow>
     (conn_end \<times> bytes list \<times> 'ng uv_conn) outcome option" where
  "uv_server_conn ng sb h [] rd c =
     Some (Return (if reader_bool rd then Conn_waiting else Conn_closed, [], c))"
| "uv_server_conn ng sb h ((inp, started, finished) # ins) rd c =
     (if \<not> reader_bool rd then Some (Return (Conn_closed, [], c))
      else case reader_await h inp rd of
             (Inl e, _) \<Rightarrow> Some (Return (Conn_failed e, [], c))
           | (Inr bs, rd1) \<Rightarrow>
               if bs = [] then uv_server_conn ng sb h ins rd1 c
               else (case uv_serve ng sb bs c of
                       None \<Rightarrow> None
                     | Some Terminate \<Rightarrow> Some Terminate
                     | Some (Return c1) \<Rightarrow>
                         (case uv_conn_flush h started finished c1 of
                            Terminate \<Rightarrow> Some Terminate
                          | Return (out, c2) \<Rightarrow>
                              (case uv_server_conn ng sb h ins rd1 c2 of
                                 None \<Rightarrow> None
                               | Some Terminate \<Rightarrow> Some Terminate
                               | Some (Return (w, outs, c3)) \<Rightarrow>
                                   Some (Return (w, (case out of None \<Rightarrow> outs | Some b \<Rightarrow> b # outs), c3))))))"

text \<open>\<^verbatim>\<open>conn_cb\<close> and the start of the coroutine: a failed accept ends the coroutine with an exception
  that its promise logs.\<close>

definition uv_server_conn_cb ::
  "'ng nghttp2 \<Rightarrow> server_base \<Rightarrow> coro \<Rightarrow> int \<Rightarrow> int \<Rightarrow> (uv_input \<times> int \<times> int) list \<Rightarrow>
     (conn_end \<times> bytes list) outcome option" where
  "uv_server_conn_cb ng sb h status accepted ins =
     (if status < 0 then Some (Return (Conn_closed, []))
      else case uv_conn_new ng accepted of
             Inl e \<Rightarrow> Some (Return (Conn_failed e, []))
           | Inr c \<Rightarrow>
               (case uv_server_conn ng sb h ins uv_conn_reader c of
                  None \<Rightarrow> None
                | Some Terminate \<Rightarrow> Some Terminate
                | Some (Return (w, outs, _)) \<Rightarrow> Some (Return (w, outs))))"

text \<open>\<^verbatim>\<open>asio::server::conn\<close>; an input is the result of \<^verbatim>\<open>async_read_some\<close>.\<close>

fun asio_server_conn ::
  "'ng nghttp2 \<Rightarrow> 'io sock_write \<Rightarrow> server_base \<Rightarrow> bytes option list \<Rightarrow> ('ng, 'io) asio_conn \<Rightarrow>
     (conn_end \<times> ('ng, 'io) asio_conn) outcome option" where
  "asio_server_conn ng wr sb [] c =
     Some (Return (if asio_conn_bool c then Conn_waiting else Conn_closed, c))"
| "asio_server_conn ng wr sb (inp # ins) c =
     (if \<not> asio_conn_bool c then Some (Return (Conn_closed, c))
      else case asio_conn_reqs ng wr inp c of
             None \<Rightarrow> None
           | Some (Inl e, c1) \<Rightarrow> Some (Return (Conn_failed e, c1))
           | Some (Inr reqs, c1) \<Rightarrow>
               (case asio_serve_all ng wr sb reqs c1 of
                  None \<Rightarrow> None
                | Some Terminate \<Rightarrow> Some Terminate
                | Some (Return (Inl e, c2)) \<Rightarrow> Some (Return (Conn_failed e, c2))
                | Some (Return (Inr _, c2)) \<Rightarrow> asio_server_conn ng wr sb ins c2))"

section \<open>Starting and stopping\<close>

text \<open>What is left of \<^verbatim>\<open>uv::server\<close> besides its services: the listening handle, the timer that polls the
  stop token, and the loop.\<close>

datatype timer_state = Timer_unset | Timer_active | Timer_closed

record uv_server =
  us_listening :: bool
  us_closing :: bool
  us_timer :: timer_state
  us_stopped :: bool

definition uv_server_new :: uv_server where
  "uv_server_new = \<lparr>us_listening = False, us_closing = False, us_timer = Timer_unset, us_stopped = False\<rparr>"

text \<open>The results of the libuv calls that starting a server makes.\<close>

record uv_results =
  ur_ip4_addr :: int
  ur_ip6_addr :: int
  ur_tcp_bind :: int
  ur_tcp_open :: int
  ur_getsockname :: int
  ur_listen :: int

definition uv_server_bind :: "uv_results \<Rightarrow> string \<Rightarrow> cpp_exn + unit" where
  "uv_server_bind u ip =
     (if ur_ip4_addr u \<noteq> 0 \<and> ur_ip6_addr u \<noteq> 0
      then Inl (Runtime_error (ip @ '' is not a valid IPv4 or IPv6 address''))
      else if ur_tcp_bind u \<noteq> 0 then Inl (Runtime_error ''Failed to bind to tcp address: '')
      else Inr ())"

definition uv_server_open :: "uv_results \<Rightarrow> cpp_exn + unit" where
  "uv_server_open u =
     (if ur_tcp_open u \<noteq> 0 then Inl (Runtime_error ''Failed to open socket as a tcp handle: '')
      else if ur_getsockname u \<noteq> 0
      then Inl (Runtime_error ''Failed to retrieve bound address for socket: '')
      else Inr ())"

definition uv_server_listen :: "uv_results \<Rightarrow> uv_server \<Rightarrow> cpp_exn + uv_server" where
  "uv_server_listen u s =
     (if ur_listen u \<noteq> 0 then Inl (Runtime_error ''Failed to listen for connections: '')
      else Inr (s\<lparr>us_listening := True\<rparr>))"

definition uv_server_listen_sock :: "uv_results \<Rightarrow> uv_server \<Rightarrow> cpp_exn + uv_server" where
  "uv_server_listen_sock u s =
     (case uv_server_open u of Inl e \<Rightarrow> Inl e | Inr _ \<Rightarrow> uv_server_listen u s)"

definition uv_server_listen_ip :: "uv_results \<Rightarrow> string \<Rightarrow> uv_server \<Rightarrow> cpp_exn + uv_server" where
  "uv_server_listen_ip u ip s =
     (case uv_server_bind u ip of Inl e \<Rightarrow> Inl e | Inr _ \<Rightarrow> uv_server_listen u s)"

text \<open>The timer's callback: nothing unless a stop was requested.\<close>

definition uv_server_timer_cb :: "bool \<Rightarrow> uv_server \<Rightarrow> uv_server" where
  "uv_server_timer_cb stop_requested s =
     (if stop_requested
      then s\<lparr>us_timer := Timer_closed, us_closing := True, us_stopped := True\<rparr> else s)"

text \<open>\<^verbatim>\<open>run(std::stop_token)\<close>: with a token that can be stopped the timer is started, and the loop runs. Of
  the loop only the timer is modelled: it fires for every entry of \<open>ticks\<close>, which says whether a
  stop had been requested by then, until the loop is stopped. \<^verbatim>\<open>uv_run\<close> returns when the loop is
  stopped; \<open>None\<close> while it still runs.\<close>

fun uv_server_ticks :: "bool list \<Rightarrow> uv_server \<Rightarrow> uv_server option" where
  "uv_server_ticks ticks s =
     (if us_stopped s then Some s
      else case ticks of
             [] \<Rightarrow> None
           | t # ts \<Rightarrow> uv_server_ticks ts (if us_timer s = Timer_active then uv_server_timer_cb t s else s))"

definition uv_server_run :: "bool \<Rightarrow> bool list \<Rightarrow> uv_server \<Rightarrow> uv_server option" where
  "uv_server_run stop_possible ticks s =
     uv_server_ticks ticks (if stop_possible then s\<lparr>us_timer := Timer_active\<rparr> else s)"

definition uv_server_run_sock ::
  "uv_results \<Rightarrow> bool \<Rightarrow> bool list \<Rightarrow> uv_server \<Rightarrow> cpp_exn + uv_server option" where
  "uv_server_run_sock u stop_possible ticks s =
     (case uv_server_listen_sock u s of Inl e \<Rightarrow> Inl e | Inr s1 \<Rightarrow> Inr (uv_server_run stop_possible ticks s1))"

definition uv_server_run_ip ::
  "uv_results \<Rightarrow> string \<Rightarrow> bool \<Rightarrow> bool list \<Rightarrow> uv_server \<Rightarrow> cpp_exn + uv_server option" where
  "uv_server_run_ip u ip stop_possible ticks s =
     (case uv_server_listen_ip u ip s of Inl e \<Rightarrow> Inl e | Inr s1 \<Rightarrow> Inr (uv_server_run stop_possible ticks s1))"

text \<open>The destructor: is the handle closed by it?\<close>

definition uv_server_delete :: "uv_server \<Rightarrow> bool \<times> uv_server" where
  "uv_server_delete s = (if \<not> us_closing s then (True, s\<lparr>us_closing := True\<rparr>) else (False, s))"

text \<open>\<^verbatim>\<open>asio::server::listen\<close>: the address and the acceptor may throw, then one coroutine is spawned per
  accepted socket until an accept throws. The arguments are the exceptions or results of asio's
  calls, the result is the list of sockets handed to \<^verbatim>\<open>conn\<close> and how far the loop got.\<close>

fun asio_server_accepts :: "(cpp_exn + 'io) list \<Rightarrow> 'io list \<times> conn_end" where
  "asio_server_accepts [] = ([], Conn_waiting)"
| "asio_server_accepts (Inl e # as) = ([], Conn_failed e)"
| "asio_server_accepts (Inr io # as) = (let (ios, w) = asio_server_accepts as in (io # ios, w))"

definition asio_server_listen ::
  "cpp_exn option \<Rightarrow> cpp_exn option \<Rightarrow> (cpp_exn + 'io) list \<Rightarrow> 'io list \<times> conn_end" where
  "asio_server_listen address acceptor accepts =
     (case address of
        Some e \<Rightarrow> ([], Conn_failed e)
      | None \<Rightarrow> (case acceptor of Some e \<Rightarrow> ([], Conn_failed e) | None \<Rightarrow> asio_server_accepts accepts))"

text \<open>\<^verbatim>\<open>asio::server::run\<close>: \<^verbatim>\<open>listen\<close> and the connections are spawned with the completion token
  \<^verbatim>\<open>asio::detached\<close>. When a coroutine has ended, asio calls the handler that the token stands for with
  the exception the coroutine ended with, if any, and \<^verbatim>\<open>ctx.run()\<close> lets what the handler throws
  escape; otherwise it returns when no coroutine waits any more. What the handler throws is a
  parameter, \<open>detached\<close>. \<open>ends\<close> tells how far the coroutine of a socket got; the result has the
  sockets and, if the call is over, the exception or the normal return.\<close>

fun coroutine_exn :: "conn_end \<Rightarrow> cpp_exn option" where
  "coroutine_exn (Conn_failed e) = Some e"
| "coroutine_exn _ = None"

definition asio_context_run :: "(cpp_exn option \<Rightarrow> cpp_exn option) \<Rightarrow> conn_end list \<Rightarrow> (cpp_exn + unit) option" where
  "asio_context_run handler ws =
     (case List.map_filter (\<lambda>w. if w = Conn_waiting then None else handler (coroutine_exn w)) ws of
        e # _ \<Rightarrow> Some (Inl e)
      | [] \<Rightarrow> if Conn_waiting \<in> set ws then None else Some (Inr ()))"

definition asio_server_run ::
  "(cpp_exn option \<Rightarrow> cpp_exn option) \<Rightarrow> cpp_exn option \<Rightarrow> cpp_exn option \<Rightarrow> (cpp_exn + 'io) list \<Rightarrow>
     ('io \<Rightarrow> conn_end) \<Rightarrow> 'io list \<times> (cpp_exn + unit) option" where
  "asio_server_run detached address acceptor accepts ends =
     (let (ios, w) = asio_server_listen address acceptor accepts
      in (ios, asio_context_run detached (w # map ends ios)))"

section \<open>Specification\<close>

text \<open>Sending a list of responses one after the other.\<close>

inductive all_sent :: "'ng nghttp2 \<Rightarrow> response list \<Rightarrow> 'ng session \<Rightarrow> bytes list \<Rightarrow> 'ng session \<Rightarrow> bool" for ng where
  sent_nil: "all_sent ng [] s [] s"
| sent_cons: "response_sent ng resp s cs s1 \<Longrightarrow> all_sent ng resps s1 ds s' \<Longrightarrow>
    all_sent ng (resp # resps) s (cs @ ds) s'"

inductive_simps all_sent_nil [simp]: "all_sent ng [] s cs s'"
inductive_simps all_sent_cons: "all_sent ng (resp # resps) s cs s'"

definition answers :: "server_base \<Rightarrow> request list \<Rightarrow> response list \<Rightarrow> bool" where
  "answers sb reqs resps \<longleftrightarrow> map (server_process sb) reqs = map Return resps"

text \<open>What a server does with one chunk of input, independent of the backend: the chunk's events are
  sorted into requests, what nghttp2 itself wants to send goes out, then the answers.\<close>

definition chunk_served ::
  "'ng nghttp2 \<Rightarrow> server_base \<Rightarrow> bytes \<Rightarrow> 'ng session \<times> streams \<Rightarrow> bytes list \<Rightarrow> 'ng session \<times> streams \<Rightarrow> bool" where
  "chunk_served ng sb bs x cs y \<longleftrightarrow>
     (\<exists>evs s1 reqs cs1 s2 resps cs2.
        session_read ng bs (fst x) = (Inr evs, s1) \<and> fold uv_conn_event evs (snd x, []) = (snd y, reqs) \<and>
        drains ng s1 cs1 s2 \<and> answers sb reqs resps \<and> all_sent ng resps s2 cs2 (fst y) \<and> cs = cs1 @ cs2)"

text \<open>A conversation: chunk after chunk, with what is sent for each.\<close>

inductive conversation ::
  "'ng nghttp2 \<Rightarrow> server_base \<Rightarrow> bytes list \<Rightarrow> 'ng session \<times> streams \<Rightarrow> bytes list \<Rightarrow> 'ng session \<times> streams \<Rightarrow> bool"
  for ng sb where
  conv_nil: "conversation ng sb [] x [] x"
| conv_cons: "chunk_served ng sb bs x cs y \<Longrightarrow> conversation ng sb bss y ds z \<Longrightarrow>
    conversation ng sb (bs # bss) x (cs @ ds) z"

section \<open>Lemmas\<close>

lemma answers_simps [simp]:
  "answers sb [] resps \<longleftrightarrow> resps = []"
  "answers sb (req # reqs) resps \<longleftrightarrow>
     (\<exists>resp rest. resps = resp # rest \<and> server_process sb req = Return resp \<and> answers sb reqs rest)"
  by (auto simp: answers_def Cons_eq_map_conv)

lemma answers_ids:
  "answers sb reqs resps \<Longrightarrow> map resp_id resps = map req_id reqs"
proof (induction reqs arbitrary: resps)
  case (Cons r reqs)
  then show ?case
    by (auto simp: server_process_def Let_def split: option.splits sum.splits if_splits)
qed simp

lemma answers_filter:
  "answers sb reqs resps \<Longrightarrow>
     answers sb (filter (\<lambda>r. req_id r = i) reqs) (filter (\<lambda>r. resp_id r = i) resps)"
proof (induction reqs arbitrary: resps)
  case (Cons r reqs)
  then obtain resp rest where r: "resps = resp # rest" "server_process sb r = Return resp" "answers sb reqs rest"
    by auto
  have "resp_id resp = req_id r" using answers_ids [OF Cons.prems] r by simp
  with Cons.IH [OF r(3)] r show ?case by auto
qed simp

lemma uv_serve_all_cons:
  "uv_serve_all ng sb (req # reqs) c = Some (Return c') \<longleftrightarrow>
     (\<exists>resp c1. server_process sb req = Return resp \<and> uv_conn_write ng resp c = Some (Return c1) \<and>
        uv_serve_all ng sb reqs c1 = Some (Return c'))"
  by (auto split: option.splits outcome.splits)

lemma uv_serve_all_sent:
  "uv_serve_all ng sb reqs c = Some (Return c') \<longleftrightarrow>
     (\<exists>resps cs s'. answers sb reqs resps \<and> all_sent ng resps (uvc_session c) cs s' \<and>
        c' = c\<lparr>uvc_session := s', uvc_buffer := uvc_buffer c @ concat cs\<rparr>)"
proof (induction reqs arbitrary: c)
  case Nil
  show ?case by auto
next
  case (Cons req reqs)
  show ?case (is "?l \<longleftrightarrow> ?r")
  proof
    assume ?l
    then obtain resp cs1 s1 resps cs2 s' where
      "server_process sb req = Return resp" "response_sent ng resp (uvc_session c) cs1 s1"
      "answers sb reqs resps" "all_sent ng resps s1 cs2 s'"
      "c' = c\<lparr>uvc_session := s', uvc_buffer := (uvc_buffer c @ concat cs1) @ concat cs2\<rparr>"
      unfolding uv_serve_all_cons uv_conn_write_sent Cons.IH by auto
    then show ?r
      by (intro exI [of _ "resp # resps"] exI [of _ "cs1 @ cs2"] exI [of _ s']) (auto intro: sent_cons)
  next
    assume ?r
    then obtain resp cs1 s1 resps cs2 s' where
      "server_process sb req = Return resp" "response_sent ng resp (uvc_session c) cs1 s1"
      "answers sb reqs resps" "all_sent ng resps s1 cs2 s'"
      "c' = c\<lparr>uvc_session := s', uvc_buffer := uvc_buffer c @ concat (cs1 @ cs2)\<rparr>"
      by (auto simp: all_sent_cons)
    then show ?l
      unfolding uv_serve_all_cons uv_conn_write_sent Cons.IH
      by (intro exI [of _ resp] exI [of _ "c\<lparr>uvc_session := s1, uvc_buffer := uvc_buffer c @ concat cs1\<rparr>"]) auto
  qed
qed

lemma asio_write_eos: "asio_conn_write ng wr resp c = Some (Inr (), c') \<Longrightarrow> aic_eos c' = aic_eos c"
  unfolding asio_conn_write_sent by auto

lemma asio_serve_all_cons:
  "\<not> aic_eos c \<Longrightarrow> asio_serve_all ng wr sb (req # reqs) c = Some (Return (Inr (), c')) \<longleftrightarrow>
     (\<exists>resp c1. server_process sb req = Return resp \<and> asio_conn_write ng wr resp c = Some (Inr (), c1) \<and>
        asio_serve_all ng wr sb reqs c1 = Some (Return (Inr (), c')))"
  by (auto simp: asio_conn_bool_def split: option.splits outcome.splits sum.splits)

lemma asio_serve_all_sent:
  "\<not> aic_eos c \<Longrightarrow> asio_serve_all ng wr sb reqs c = Some (Return (Inr (), c')) \<longleftrightarrow>
     (\<exists>resps cs s' io. answers sb reqs resps \<and> all_sent ng resps (aic_session c) cs s' \<and>
        sock_run wr cs (aic_sock c) = Some io \<and> c' = c\<lparr>aic_session := s', aic_sock := io\<rparr>)"
proof (induction reqs arbitrary: c)
  case Nil
  show ?case by auto
next
  case (Cons req reqs)
  have IH: "asio_serve_all ng wr sb reqs (c\<lparr>aic_session := s1, aic_sock := io\<rparr>) = Some (Return (Inr (), c')) \<longleftrightarrow>
     (\<exists>resps cs s' io'. answers sb reqs resps \<and> all_sent ng resps s1 cs s' \<and>
        sock_run wr cs io = Some io' \<and> c' = c\<lparr>aic_session := s', aic_sock := io'\<rparr>)" for s1 io
    using Cons.IH [of "c\<lparr>aic_session := s1, aic_sock := io\<rparr>"] Cons.prems by simp
  show ?case (is "?l \<longleftrightarrow> ?r")
  proof
    assume ?l
    then obtain resp cs1 s1 io1 where 1: "server_process sb req = Return resp"
      "response_sent ng resp (aic_session c) cs1 s1" "sock_run wr cs1 (aic_sock c) = Some io1"
      "asio_serve_all ng wr sb reqs (c\<lparr>aic_session := s1, aic_sock := io1\<rparr>) = Some (Return (Inr (), c'))"
      unfolding asio_serve_all_cons [OF Cons.prems] asio_conn_write_sent by auto
    then obtain resps cs2 s' io2 where "answers sb reqs resps" "all_sent ng resps s1 cs2 s'"
      "sock_run wr cs2 io1 = Some io2" "c' = c\<lparr>aic_session := s', aic_sock := io2\<rparr>"
      unfolding IH by blast
    with 1 show ?r
      by (intro exI [of _ "resp # resps"] exI [of _ "cs1 @ cs2"] exI [of _ s'] exI [of _ io2])
        (auto intro: sent_cons simp: sock_run_append)
  next
    assume ?r
    then obtain resp cs1 s1 io1 resps cs2 s' io2 where
      "server_process sb req = Return resp" "response_sent ng resp (aic_session c) cs1 s1"
      "sock_run wr cs1 (aic_sock c) = Some io1" "answers sb reqs resps" "all_sent ng resps s1 cs2 s'"
      "sock_run wr cs2 io1 = Some io2" "c' = c\<lparr>aic_session := s', aic_sock := io2\<rparr>"
      by (auto simp: all_sent_cons sock_run_append bind_eq_Some_conv)
    moreover from this have "asio_serve_all ng wr sb reqs (c\<lparr>aic_session := s1, aic_sock := io1\<rparr>) =
        Some (Return (Inr (), c'))"
      unfolding IH by blast
    ultimately show ?l
      unfolding asio_serve_all_cons [OF Cons.prems] asio_conn_write_sent by blast
  qed
qed

lemma uv_serve_all_total: "drain_decreases ng m \<Longrightarrow> \<exists>r. uv_serve_all ng sb reqs c = Some r"
proof (induction reqs arbitrary: c)
  case (Cons req reqs)
  then show ?case
    by (auto split: outcome.splits option.splits) (metis option.distinct(1) uv_conn_write_total)
qed simp

lemma uv_serve_total: "drain_decreases ng m \<Longrightarrow> \<exists>r. uv_serve ng sb bs c = Some r"
  using uv_conn_read_total [of ng m bs c] uv_serve_all_total [of ng m sb]
  by (auto simp: uv_serve_def split: outcome.splits sum.splits)

text \<open>An input that ends the stream: the reader cannot start, or libuv reports the end or an error.\<close>

fun stream_over :: "uv_input \<Rightarrow> bool" where
  "stream_over (Uv_start_error e) = (e \<noteq> 0)"
| "stream_over (Uv_read n _) = (n < 0)"

lemma reader_await_over:
  assumes "reader_bool rd" "stream_over inp"
  shows "(\<exists>e rd'. reader_await h inp rd = (Inl e, rd')) \<or>
     (\<exists>rd'. reader_await h inp rd = (Inr [], rd') \<and> \<not> reader_bool rd')"
  using reader_await_end [of rd inp h] assms
  by (cases inp; cases "reader_await h inp rd"; cases "fst (reader_await h inp rd)") auto

lemma uv_server_conn_closed: "\<not> reader_bool rd \<Longrightarrow> uv_server_conn ng sb h ins rd c = Some (Return (Conn_closed, [], c))"
  by (cases ins) auto

lemma uv_server_conn_ends:
  assumes "drain_decreases ng m" "stream_over inp"
  shows "uv_server_conn ng sb h (ins @ (inp, st, fin) # rest) rd c = Some Terminate \<or>
     (\<exists>w outs c'. uv_server_conn ng sb h (ins @ (inp, st, fin) # rest) rd c = Some (Return (w, outs, c')) \<and>
        w \<noteq> Conn_waiting)"
proof (induction ins arbitrary: rd c)
  case Nil
  show ?case
    using reader_await_over [OF _ assms(2), of rd h]
    by (cases "reader_bool rd") (auto simp: uv_server_conn_closed)
next
  case (Cons i ins)
  obtain inp1 st1 fin1 where i: "i = (inp1, st1, fin1)" by (metis prod_cases3)
  obtain res rd1 where r: "reader_await h inp1 rd = (res, rd1)" by force
  show ?case
  proof (cases "\<exists>bs. reader_bool rd \<and> res = Inr bs \<and> bs \<noteq> []")
    case True
    then obtain bs where bs: "reader_bool rd" "res = Inr bs" "bs \<noteq> []" by blast
    obtain o1 where o1: "uv_serve ng sb bs c = Some o1" using uv_serve_total [OF assms(1)] by blast
    show ?thesis
    proof (cases o1)
      case (Return c1)
      show ?thesis
      proof (cases "uv_conn_flush h st1 fin1 c1")
        case (Return x)
        obtain out c2 where x: "x = (out, c2)" by force
        from Cons.IH [of rd1 c2] show ?thesis
          using i r bs o1 \<open>o1 = Return c1\<close> Return x by auto
      qed (use i r bs o1 Return in simp)
    qed (use i r bs o1 in simp)
  next
    case False
    with Cons.IH [of rd1 c] i r show ?thesis by (cases res) (auto)
  qed
qed

lemma uv_conn_flush_ok:
  "uv_conn_flush h 0 0 c =
     Return (if uvc_buffer c = [] then None else Some (uvc_buffer c), c\<lparr>uvc_buffer := []\<rparr>)"
  by (cases c) (simp add: uv_conn_flush_def uv_conn_writer_def writer_new_def writer_await_def writer_await_ready_def
      writer_await_suspend_def writer_await_resume_def writer_write_cb_def Let_def)

lemma conn_update_commute [simp]:
  "c\<lparr>uvc_streams := st, uvc_session := s\<rparr> = c\<lparr>uvc_session := s, uvc_streams := st\<rparr>"
  "a\<lparr>aic_streams := st, aic_session := s'\<rparr> = a\<lparr>aic_session := s', aic_streams := st\<rparr>"
  by simp_all

lemma uv_serve_chunk:
  assumes "chunk_served ng sb bs (uvc_session c, uvc_streams c) cs (s', st')"
  shows "uv_serve ng sb bs c =
     Some (Return (c\<lparr>uvc_session := s', uvc_streams := st', uvc_buffer := uvc_buffer c @ concat cs\<rparr>))"
proof -
  obtain evs s1 reqs cs1 s2 resps cs2 where 1:
    "session_read ng bs (uvc_session c) = (Inr evs, s1)" "fold uv_conn_event evs (uvc_streams c, []) = (st', reqs)"
    "drains ng s1 cs1 s2" "answers sb reqs resps" "all_sent ng resps s2 cs2 s'" "cs = cs1 @ cs2"
    using assms unfolding chunk_served_def by auto
  let ?c1 = "c\<lparr>uvc_session := s2, uvc_streams := st', uvc_buffer := uvc_buffer c @ concat cs1\<rparr>"
  have "uv_conn_read ng bs c = Some (Return (Inr reqs, ?c1))"
    using 1 drains_buffer [OF 1(3), of "c\<lparr>uvc_session := s1, uvc_streams := st'\<rparr>"]
    by (simp add: uv_conn_read_def)
  moreover have "uv_serve_all ng sb reqs ?c1 =
      Some (Return (?c1\<lparr>uvc_session := s', uvc_buffer := uvc_buffer ?c1 @ concat cs2\<rparr>))"
    using 1 unfolding uv_serve_all_sent by (auto intro!: exI [of _ resps])
  ultimately show ?thesis using 1 by (simp add: uv_serve_def)
qed

lemma uv_serve_iff:
  "uv_serve ng sb bs c = Some (Return c') \<longleftrightarrow>
     (\<exists>e s'. session_read ng bs (uvc_session c) = (Inl e, s') \<and> c' = c\<lparr>uvc_session := s'\<rparr>) \<or>
     (\<exists>cs s' st'. chunk_served ng sb bs (uvc_session c, uvc_streams c) cs (s', st') \<and>
        c' = c\<lparr>uvc_session := s', uvc_streams := st', uvc_buffer := uvc_buffer c @ concat cs\<rparr>)" (is "?l \<longleftrightarrow> ?e \<or> ?r")
proof
  assume l: ?l
  obtain res s1 where r: "session_read ng bs (uvc_session c) = (res, s1)" by force
  show "?e \<or> ?r"
  proof (cases res)
    case (Inl e)
    with l r show ?thesis by (simp add: uv_serve_def uv_conn_read_def)
  next
    case (Inr evs)
    obtain st' reqs where f: "fold uv_conn_event evs (uvc_streams c, []) = (st', reqs)" by force
    from l r f Inr obtain c1 where b: "uv_conn_buffer ng (c\<lparr>uvc_session := s1, uvc_streams := st'\<rparr>) = Some (Return c1)"
      and a: "uv_serve_all ng sb reqs c1 = Some (Return c')"
      by (auto simp: uv_serve_def uv_conn_read_def split: option.splits outcome.splits)
    from b obtain cs1 s2 where 1: "drains ng s1 cs1 s2"
      "c1 = c\<lparr>uvc_session := s2, uvc_streams := st', uvc_buffer := uvc_buffer c @ concat cs1\<rparr>"
      unfolding uv_conn_buffer_drains by auto
    from a 1 obtain resps cs2 s' where 2: "answers sb reqs resps" "all_sent ng resps s2 cs2 s'"
      "c' = c1\<lparr>uvc_session := s', uvc_buffer := uvc_buffer c1 @ concat cs2\<rparr>"
      unfolding uv_serve_all_sent by auto
    have "chunk_served ng sb bs (uvc_session c, uvc_streams c) (cs1 @ cs2) (s', st')"
      unfolding chunk_served_def using r Inr f 1 2 by auto
    moreover have "c' = c\<lparr>uvc_session := s', uvc_streams := st', uvc_buffer := uvc_buffer c @ concat (cs1 @ cs2)\<rparr>"
      using 1 2 by simp
    ultimately show ?thesis by blast
  qed
next
  assume "?e \<or> ?r"
  then show ?l using uv_serve_chunk by (auto simp: uv_serve_def uv_conn_read_def)
qed

lemma asio_turn_chunk:
  assumes "chunk_served ng sb bs (aic_session c, aic_streams c) cs (s', st')"
    and "sock_run wr cs (aic_sock c) = Some io" "\<not> aic_eos c"
  shows "asio_server_conn ng wr sb (Some bs # ins) c =
     asio_server_conn ng wr sb ins (c\<lparr>aic_session := s', aic_streams := st', aic_sock := io\<rparr>)"
proof -
  obtain evs s1 reqs cs1 s2 resps cs2 where 1:
    "session_read ng bs (aic_session c) = (Inr evs, s1)" "fold uv_conn_event evs (aic_streams c, []) = (st', reqs)"
    "drains ng s1 cs1 s2" "answers sb reqs resps" "all_sent ng resps s2 cs2 s'" "cs = cs1 @ cs2"
    using assms unfolding chunk_served_def by auto
  obtain io1 where io: "sock_run wr cs1 (aic_sock c) = Some io1" "sock_run wr cs2 io1 = Some io"
    using assms(2) 1(6) by (auto simp: sock_run_append bind_eq_Some_conv)
  let ?c1 = "c\<lparr>aic_session := s2, aic_streams := st', aic_sock := io1\<rparr>"
  have "asio_conn_reqs ng wr (Some bs) c = Some (Inr reqs, ?c1)"
    using 1 io drains_asio [OF 1(3), of "c\<lparr>aic_session := s1, aic_streams := st'\<rparr>"]
    by (simp add: asio_conn_reqs_def asio_conn_read_def asio_conn_event_eq)
  moreover have "asio_serve_all ng wr sb reqs ?c1 =
      Some (Return (Inr (), ?c1\<lparr>aic_session := s', aic_sock := io\<rparr>))"
    using 1 io assms(3) by (subst asio_serve_all_sent) (auto intro!: exI [of _ resps])
  ultimately show ?thesis using assms(3) by (simp add: asio_conn_bool_def)
qed

lemma uv_conversation:
  assumes "conversation ng sb bss x cs y"
  shows "\<lbrakk>(uvc_session c, uvc_streams c) = x; uvc_buffer c = []; reader_bool rd;
      list_all (\<lambda>bs. bs \<noteq> [] \<and> length bs \<le> reader_capacity) bss\<rbrakk> \<Longrightarrow>
     \<exists>outs. uv_server_conn ng sb h (map (\<lambda>bs. (Uv_read (int (length bs)) bs, 0, 0)) bss) rd c =
       Some (Return (Conn_waiting, outs, c\<lparr>uvc_session := fst y, uvc_streams := snd y\<rparr>)) \<and> concat outs = concat cs"
  using assms
proof (induction arbitrary: c rd rule: conversation.induct)
  case (conv_nil x)
  then show ?case by auto
next
  case (conv_cons bs x cs y bss ds z)
  let ?c1 = "c\<lparr>uvc_session := fst y, uvc_streams := snd y, uvc_buffer := uvc_buffer c @ concat cs\<rparr>"
  have sv: "uv_serve ng sb bs c = Some (Return ?c1)"
    using conv_cons.hyps(1) conv_cons.prems(1) by (intro uv_serve_chunk) simp
  obtain rd1 where rd1: "reader_await h (Uv_read (int (length bs)) bs) rd = (Inr bs, rd1)" "reader_bool rd1"
    using reader_await_bytes [of rd "int (length bs)" bs h] conv_cons.prems by auto
  define c2 where "c2 = c\<lparr>uvc_session := fst y, uvc_streams := snd y\<rparr>"
  have fl: "uv_conn_flush h 0 0 ?c1 = Return (if concat cs = [] then None else Some (concat cs), c2)"
    unfolding uv_conn_flush_ok c2_def using conv_cons.prems(2) by (cases c) simp
  obtain outs where "uv_server_conn ng sb h (map (\<lambda>bs. (Uv_read (int (length bs)) bs, 0, 0)) bss) rd1 c2 =
       Some (Return (Conn_waiting, outs, c2\<lparr>uvc_session := fst z, uvc_streams := snd z\<rparr>))" "concat outs = concat ds"
    using conv_cons.IH [of c2 rd1] conv_cons.prems rd1(2) by (auto simp: c2_def)
  then show ?case
    using conv_cons.prems rd1 sv fl by (auto simp: c2_def)
qed

lemma asio_conversation:
  assumes "conversation ng sb bss x cs y"
  shows "\<lbrakk>(aic_session c, aic_streams c) = x; \<not> aic_eos c; sock_run wr cs (aic_sock c) = Some io\<rbrakk> \<Longrightarrow>
     asio_server_conn ng wr sb (map Some bss) c =
       Some (Return (Conn_waiting, c\<lparr>aic_session := fst y, aic_streams := snd y, aic_sock := io\<rparr>))"
  using assms
proof (induction arbitrary: c rule: conversation.induct)
  case (conv_nil x)
  then show ?case by (auto simp: asio_conn_bool_def)
next
  case (conv_cons bs x cs y bss ds z)
  obtain io1 where io: "sock_run wr cs (aic_sock c) = Some io1" "sock_run wr ds io1 = Some io"
    using conv_cons.prems(3) by (auto simp: sock_run_append bind_eq_Some_conv)
  have "chunk_served ng sb bs (aic_session c, aic_streams c) cs (fst y, snd y)"
    using conv_cons.hyps(1) conv_cons.prems(1) by simp
  from asio_turn_chunk [OF this io(1) conv_cons.prems(2)] show ?case
    using conv_cons.IH [of "c\<lparr>aic_session := fst y, aic_streams := snd y, aic_sock := io1\<rparr>"]
      conv_cons.prems io by simp
qed


lemma uv_server_ticks_iff:
  "us_timer s = Timer_active \<Longrightarrow> \<not> us_stopped s \<Longrightarrow>
     uv_server_ticks ticks s =
       (if True \<in> set ticks then Some (s\<lparr>us_timer := Timer_closed, us_closing := True, us_stopped := True\<rparr>) else None)"
  by (induction ticks) (auto simp: uv_server_timer_cb_def)

lemma uv_server_ticks_idle: "us_timer s \<noteq> Timer_active \<Longrightarrow> \<not> us_stopped s \<Longrightarrow> uv_server_ticks ticks s = None"
  by (induction ticks) auto

lemma uv_conn_flush_failed:
  "uvc_buffer c \<noteq> [] \<Longrightarrow> finished \<noteq> 0 \<Longrightarrow> uv_conn_flush h 0 finished c = Return (Some (uvc_buffer c), c)"
  by (simp add: uv_conn_flush_def uv_conn_writer_def writer_new_def writer_await_def writer_await_ready_def
      writer_await_suspend_def writer_await_resume_def writer_write_cb_def Let_def)

lemma uv_serve_buffer: "uv_serve ng sb bs c = Some (Return c') \<Longrightarrow> \<exists>more. uvc_buffer c' = uvc_buffer c @ more"
  unfolding uv_serve_iff by auto

text \<open>One turn of the uv coroutine for a chunk that was read: what it wrote comes before the rest.\<close>

fun written_first ::
  "bytes option \<Rightarrow> (conn_end \<times> bytes list \<times> 'c) outcome option \<Rightarrow> (conn_end \<times> bytes list \<times> 'c) outcome option" where
  "written_first (Some b) (Some (Return (w, outs, c))) = Some (Return (w, b # outs, c))"
| "written_first _ r = r"

lemma uv_server_conn_turn:
  assumes "reader_bool rd" "bs \<noteq> []" "length bs \<le> reader_capacity"
    and "uv_serve ng sb bs c = Some (Return c1)" "uv_conn_flush h started finished c1 = Return (out, c2)"
  obtains rd1 where "reader_bool rd1" "\<And>ins. uv_server_conn ng sb h ((Uv_read (int (length bs)) bs, started, finished) # ins) rd c =
     written_first out (uv_server_conn ng sb h ins rd1 c2)"
proof -
  obtain rd1 where rd1: "reader_await h (Uv_read (int (length bs)) bs) rd = (Inr bs, rd1)" "reader_bool rd1"
    using reader_await_bytes [of rd "int (length bs)" bs h] assms(1,3) by auto
  show thesis
  proof (rule that [OF rd1(2)])
    fix ins
    show "uv_server_conn ng sb h ((Uv_read (int (length bs)) bs, started, finished) # ins) rd c =
       written_first out (uv_server_conn ng sb h ins rd1 c2)"
      using assms rd1 by (cases out) (auto split: option.splits outcome.splits)
  qed
qed

section \<open>A sample conversation\<close>

definition sample_rx :: "bytes \<Rightarrow> int \<times> ng_callback list" where
  "sample_rx bs =
     (int (length bs),
      [On_header 1 '':path'' ''/S/M'', On_data_chunk 1 [0, 0, 0, 0, 2, 5, 6], On_frame_recv 1 1])"

definition sample_server :: server_base where
  "sample_server = server_of [service_new (fixed_string_new (literal ''S''))
     (\<lambda>rpc ctx q. Inr (status_of_code Code_ok, Some (rev q)))
     [\<lparr>rpc_name = fixed_string_new (literal ''M''), rpc_parse = Some, rpc_serialize = Some\<rparr>]]"

lemma sample_serve:
  "uv_serve (sample_ng sample_rx) sample_server [0] (sample_uv_conn []) =
     Some (Return ((sample_uv_conn [])\<lparr>uvc_session := sample_sent, uvc_buffer := [1, 2, 0, 0, 0, 0, 2, 6, 5, 3]\<rparr>))"
  by code_simp

lemma sample_chunk:
  "\<exists>cs. chunk_served (sample_ng sample_rx) sample_server [0] (sample_session [], []) cs (sample_sent, []) \<and>
     concat cs = [1, 2, 0, 0, 0, 0, 2, 6, 5, 3]"
proof -
  have "fst (session_read (sample_ng sample_rx) [0] (sample_session [])) \<noteq> Inl e" for e
    by (simp add: session_read_def sample_ng_def sample_rx_def sample_session_def Let_def)
  then show ?thesis
    using sample_serve unfolding uv_serve_iff sample_uv_conn_def by auto
qed

section \<open>Properties\<close>

text \<open>C11: the function that the uv server runs for a chunk implements the abstract service of a chunk:
  every finished request is answered, in the order in which \<open>read\<close> lists them, and the answers'
  bytes are buffered after what nghttp2 itself wants to send. The only other way to return is a
  chunk that nghttp2 rejects, which leaves streams and buffer as they were.\<close>

theorem uv_serve_refines:
  "uv_serve ng sb bs c = Some (Return c') \<longleftrightarrow>
     (\<exists>e s'. session_read ng bs (uvc_session c) = (Inl e, s') \<and> c' = c\<lparr>uvc_session := s'\<rparr>) \<or>
     (\<exists>cs s' st'. chunk_served ng sb bs (uvc_session c, uvc_streams c) cs (s', st') \<and>
        c' = c\<lparr>uvc_session := s', uvc_streams := st', uvc_buffer := uvc_buffer c @ concat cs\<rparr>)"
  by (rule uv_serve_iff)

text \<open>C6: both servers hold the conversation. For chunks that fit the read buffer, a libuv that writes
  what it is given and a socket that accepts the chunks, the uv coroutine and the asio coroutine
  are both waiting for more input at the end, in the same session state and with the same
  requests in progress, and have put the bytes of the conversation on the wire in order.\<close>

theorem servers_conversation:
  assumes "conversation ng sb bss (s, st) cs (s', st')"
    and "list_all (\<lambda>bs. bs \<noteq> [] \<and> length bs \<le> reader_capacity) bss"
    and "sock_run wr cs io = Some io'"
  shows "(\<exists>outs. uv_server_conn ng sb h (map (\<lambda>bs. (Uv_read (int (length bs)) bs, 0, 0)) bss) reader_new
        \<lparr>uvc_buffer = [], uvc_session = s, uvc_streams = st\<rparr> =
        Some (Return (Conn_waiting, outs, \<lparr>uvc_buffer = [], uvc_session = s', uvc_streams = st'\<rparr>)) \<and>
        concat outs = concat cs) \<and>
     asio_server_conn ng wr sb (map Some bss)
        \<lparr>aic_eos = False, aic_session = s, aic_streams = st, aic_sock = io\<rparr> =
        Some (Return (Conn_waiting, \<lparr>aic_eos = False, aic_session = s', aic_streams = st', aic_sock = io'\<rparr>))"
  using uv_conversation [OF assms(1), of "\<lparr>uvc_buffer = [], uvc_session = s, uvc_streams = st\<rparr>" reader_new h]
    asio_conversation [OF assms(1), of "\<lparr>aic_eos = False, aic_session = s, aic_streams = st, aic_sock = io\<rparr>" wr io']
    assms(2,3)
  by simp

theorem servers_conversation_witness:
  "\<exists>outs. uv_server_conn (sample_ng sample_rx) sample_server 0 [(Uv_read 1 [0], 0, 0)] reader_new (sample_uv_conn []) =
        Some (Return (Conn_waiting, outs, (sample_uv_conn [])\<lparr>uvc_session := sample_sent\<rparr>)) \<and>
        concat outs = [1, 2, 0, 0, 0, 0, 2, 6, 5, 3]"
proof -
  obtain cs where cs: "chunk_served (sample_ng sample_rx) sample_server [0] (sample_session [], []) cs (sample_sent, [])"
    "concat cs = [1, 2, 0, 0, 0, 0, 2, 6, 5, 3]"
    using sample_chunk by blast
  have "conversation (sample_ng sample_rx) sample_server [[0]] (sample_session [], []) (cs @ []) (sample_sent, [])"
    by (rule conv_cons [OF cs(1) conv_nil])
  moreover have "sock_run (\<lambda>b io. (True, ())) xs () = Some ()" for xs by (induction xs) simp_all
  ultimately show ?thesis
    using servers_conversation [of "sample_ng sample_rx" sample_server "[[0]]" "sample_session []" "[]" "cs @ []"
        sample_sent "[]" "\<lambda>b io. (True, ())" "()" "()" 0] cs(2)
    by (simp add: sample_uv_conn_def reader_capacity_def)
qed

text \<open>C35: a connection comes to its end. Once libuv reports the end of the stream or an error, the
  coroutine is over (unless the program is): it never waits for more input, whatever came before
  and whatever else libuv has to say, provided that nghttp2's output drains.\<close>

theorem uv_server_conn_over:
  assumes "drain_decreases ng m" "stream_over inp"
  shows "uv_server_conn ng sb h (ins @ (inp, st, fin) # rest) rd c = Some Terminate \<or>
     (\<exists>w outs c'. uv_server_conn ng sb h (ins @ (inp, st, fin) # rest) rd c = Some (Return (w, outs, c')) \<and>
        w \<noteq> Conn_waiting)"
  by (rule uv_server_conn_ends [OF assms])

theorem uv_server_conn_over_witness:
  "uv_server_conn (sample_ng sample_rx) sample_server 0
      ([(Uv_read 1 [0], 0, 0)] @ (Uv_read UV_EOF [], 0, 0) # []) reader_new (sample_uv_conn []) = Some Terminate \<or>
   (\<exists>w outs c'. uv_server_conn (sample_ng sample_rx) sample_server 0
      ([(Uv_read 1 [0], 0, 0)] @ (Uv_read UV_EOF [], 0, 0) # []) reader_new (sample_uv_conn []) =
        Some (Return (w, outs, c')) \<and> w \<noteq> Conn_waiting)"
  by (rule uv_server_conn_over [OF sample_drains]) (simp add: UV_EOF_def)

text \<open>Stopping. \<^verbatim>\<open>run\<close> on a fresh server returns exactly when the token can be stopped and the stop
  was requested by one of the timer's ticks; the listening handle is then closed, and the
  destructor does not close it a second time.\<close>

theorem uv_server_run_stops:
  "uv_server_run p ticks uv_server_new =
     (if p \<and> True \<in> set ticks
      then Some \<lparr>us_listening = False, us_closing = True, us_timer = Timer_closed, us_stopped = True\<rparr> else None) \<and>
   fst (uv_server_delete \<lparr>us_listening = False, us_closing = True, us_timer = Timer_closed, us_stopped = True\<rparr>) = False"
  by (simp add: uv_server_run_def uv_server_ticks_iff uv_server_ticks_idle uv_server_new_def uv_server_delete_def
      del: uv_server_ticks.simps)

text \<open>C29: bytes that nghttp2 rejects. The asio server ends the connection. On the uv server the exception
  stays in the scheduled task: the connection coroutine reads on and hands the next bytes to the
  session that failed.\<close>

theorem protocol_error_connections:
  assumes "session_read ng bs (uvc_session c) = (Inl e, s')" "uvc_buffer c = []"
    and "reader_bool rd" "bs \<noteq> []" "length bs \<le> reader_capacity"
    and "aic_session a = uvc_session c" "\<not> aic_eos a"
  shows "(\<exists>rd1. reader_bool rd1 \<and>
       uv_server_conn ng sb h ((Uv_read (int (length bs)) bs, started, finished) # ins) rd c =
         uv_server_conn ng sb h ins rd1 (c\<lparr>uvc_session := s'\<rparr>)) \<and>
     asio_server_conn ng wr sb (Some bs # ins') a =
       Some (Return (Conn_closed, a\<lparr>aic_session := s', aic_eos := True\<rparr>))"
proof
  have sv: "uv_serve ng sb bs c = Some (Return (c\<lparr>uvc_session := s'\<rparr>))"
    using assms(1) unfolding uv_serve_iff by auto
  moreover have "uv_conn_flush h started finished (c\<lparr>uvc_session := s'\<rparr>) = Return (None, c\<lparr>uvc_session := s'\<rparr>)"
    using assms(2) by (simp add: uv_conn_flush_def)
  ultimately obtain rd1 where "reader_bool rd1"
    "\<And>ins. uv_server_conn ng sb h ((Uv_read (int (length bs)) bs, started, finished) # ins) rd c =
       written_first None (uv_server_conn ng sb h ins rd1 (c\<lparr>uvc_session := s'\<rparr>))"
    using uv_server_conn_turn [OF assms(3-5)] by blast
  then show "\<exists>rd1. reader_bool rd1 \<and>
       uv_server_conn ng sb h ((Uv_read (int (length bs)) bs, started, finished) # ins) rd c =
         uv_server_conn ng sb h ins rd1 (c\<lparr>uvc_session := s'\<rparr>)"
    by auto
  show "asio_server_conn ng wr sb (Some bs # ins') a =
       Some (Return (Conn_closed, a\<lparr>aic_session := s', aic_eos := True\<rparr>))"
    using assms(1,6,7) by (cases ins') (simp_all add: asio_conn_reqs_def asio_conn_read_def asio_conn_bool_def)
qed

theorem protocol_error_connections_witness:
  "(\<exists>rd1. uv_server_conn (sample_ng (\<lambda>_. (-1, []))) sample_server 0 [(Uv_read 1 [0], 0, 0)] reader_new (sample_uv_conn []) =
       uv_server_conn (sample_ng (\<lambda>_. (-1, []))) sample_server 0 [] rd1 (sample_uv_conn []) \<and> reader_bool rd1) \<and>
   asio_server_conn (sample_ng (\<lambda>_. (-1, []))) sample_sock sample_server [Some [0]] (sample_asio_conn []) =
     Some (Return (Conn_closed, (sample_asio_conn [])\<lparr>aic_eos := True\<rparr>))"
proof -
  let ?ng = "sample_ng (\<lambda>_. (-1, []))"
  have "session_read ?ng [0] (uvc_session (sample_uv_conn [])) =
      (Inl (Runtime_error ''Failed to read session data: ''), sample_session [])"
    by (simp add: session_read_def sample_ng_def sample_session_def sample_uv_conn_def session_callbacks_def Let_def)
  from protocol_error_connections [OF this, of reader_new "sample_asio_conn []" sample_server 0 0 0 "[]" sample_sock "[]"]
  show ?thesis
    by (auto simp: sample_uv_conn_def sample_asio_conn_def reader_capacity_def)
qed

text \<open>C30: a write that fails on the uv server. The connection coroutine goes on, and since the buffer was not
  cleared the next flush writes the same bytes again before the new ones.\<close>

theorem failed_flush_resent:
  assumes "uv_serve ng sb bs c = Some (Return c1)" "uvc_buffer c1 \<noteq> []" "finished \<noteq> 0"
    and "uv_serve ng sb bs' c1 = Some (Return c2)" "reader_bool rd"
    and "bs \<noteq> []" "length bs \<le> reader_capacity" "bs' \<noteq> []" "length bs' \<le> reader_capacity"
  shows "\<exists>more. uv_server_conn ng sb h
       [(Uv_read (int (length bs)) bs, 0, finished), (Uv_read (int (length bs')) bs', 0, 0)] rd c =
     Some (Return (Conn_waiting, [uvc_buffer c1, uvc_buffer c1 @ more], c2\<lparr>uvc_buffer := []\<rparr>))"
proof -
  from uv_serve_buffer [OF assms(4)] obtain more where m: "uvc_buffer c2 = uvc_buffer c1 @ more" by blast
  obtain rd1 where 1: "reader_bool rd1"
    "\<And>ins. uv_server_conn ng sb h ((Uv_read (int (length bs)) bs, 0, finished) # ins) rd c =
       written_first (Some (uvc_buffer c1)) (uv_server_conn ng sb h ins rd1 c1)"
    by (rule uv_server_conn_turn [OF assms(5-7,1) uv_conn_flush_failed [OF assms(2,3)]]) (rule that)
  obtain rd2 where 2: "reader_bool rd2"
    "\<And>ins. uv_server_conn ng sb h ((Uv_read (int (length bs')) bs', 0, 0) # ins) rd1 c1 =
       written_first (if uvc_buffer c2 = [] then None else Some (uvc_buffer c2)) (uv_server_conn ng sb h ins rd2 (c2\<lparr>uvc_buffer := []\<rparr>))"
    by (rule uv_server_conn_turn [OF 1(1) assms(8,9,4) uv_conn_flush_ok]) (rule that)
  show ?thesis
    unfolding 1(2) 2(2) using m assms(2) 2(1) by simp
qed

theorem failed_flush_resent_witness:
  "\<exists>more c'. uv_server_conn (sample_ng (\<lambda>bs. if bs = [0] then sample_rx bs else (1, []))) sample_server 0
       [(Uv_read 1 [0], 0, -32), (Uv_read 1 [1], 0, 0)] reader_new (sample_uv_conn []) =
     Some (Return (Conn_waiting, [[1, 2, 0, 0, 0, 0, 2, 6, 5, 3], [1, 2, 0, 0, 0, 0, 2, 6, 5, 3] @ more], c'))"
proof -
  let ?ng = "sample_ng (\<lambda>bs. if bs = [0] then sample_rx bs else (1, []))"
  let ?c1 = "(sample_uv_conn [])\<lparr>uvc_session := sample_sent, uvc_buffer := [1, 2, 0, 0, 0, 0, 2, 6, 5, 3]\<rparr>"
  have 1: "uv_serve ?ng sample_server [0] (sample_uv_conn []) = Some (Return ?c1)" by code_simp
  have 2: "uv_serve ?ng sample_server [1] ?c1 =
      Some (Return (?c1\<lparr>uvc_session := sample_sent\<lparr>ses_events := []\<rparr>\<rparr>))" by code_simp
  from failed_flush_resent [OF 1 _ _ 2, of "-32" reader_new 0] show ?thesis
    by (auto simp: reader_capacity_def)
qed

text \<open>A server that cannot start ends \<^verbatim>\<open>ctx.run()\<close> with whatever the completion handler makes of its exception.\<close>

lemma asio_server_run_failed:
  assumes "asio_server_listen address acceptor accepts = ([], Conn_failed e)"
  shows "asio_server_run detached address acceptor accepts ends =
     ([], Some (case detached (Some e) of Some e' \<Rightarrow> Inl e' | None \<Rightarrow> Inr ()))"
  using assms by (simp add: asio_server_run_def asio_context_run_def List.map_filter_simps split: option.splits)

lemma asio_server_run_empty:
  "asio_server_run detached address acceptor accepts ends = ([], Some r) \<Longrightarrow>
     \<exists>e. asio_server_listen address acceptor accepts = ([], Conn_failed e)"
  by (cases accepts rule: asio_server_accepts.cases)
    (auto simp: asio_server_run_def asio_context_run_def asio_server_listen_def List.map_filter_simps
      split: option.splits prod.splits if_splits)

lemma asio_server_listen_failed:
  "(\<exists>e. asio_server_listen address acceptor accepts = ([], Conn_failed e)) \<longleftrightarrow>
     (\<exists>e. address = Some e) \<or> (\<exists>e. acceptor = Some e) \<or> (\<exists>e as. accepts = Inl e # as)"
  by (cases accepts rule: asio_server_accepts.cases)
    (auto simp: asio_server_listen_def split: option.splits prod.splits)

text \<open>C31: failing to start. \<^verbatim>\<open>run\<close> of the uv server throws exactly when it cannot use what it is given: an
  address that is neither IPv4 nor IPv6 or cannot be bound, a socket that cannot be opened or has
  no name, or, with either, no permission to listen. The asio server loses such an exception: as
  asio's \<^verbatim>\<open>detached\<close> handler, which by its documentation ignores the exception it is given, throws
  nothing, \<^verbatim>\<open>run\<close> returns normally without having served anybody exactly when the address, the
  acceptor or the first accept has failed.\<close>

theorem run_failures:
  assumes "\<forall>x. detached x = None"
  shows "(\<exists>e. uv_server_run_ip u ip stop_possible ticks s = Inl e) =
       (\<not> ((ur_ip4_addr u = 0 \<or> ur_ip6_addr u = 0) \<and> ur_tcp_bind u = 0 \<and> ur_listen u = 0)) \<and>
     (\<exists>e. uv_server_run_sock u stop_possible ticks s = Inl e) =
       (\<not> (ur_tcp_open u = 0 \<and> ur_getsockname u = 0 \<and> ur_listen u = 0)) \<and>
     (asio_server_run detached address acceptor accepts ends = ([], Some (Inr ()))) =
       ((\<exists>e. address = Some e) \<or> (\<exists>e. acceptor = Some e) \<or> (\<exists>e as. accepts = Inl e # as))"
proof (intro conjI)
  show "(\<exists>e. uv_server_run_ip u ip stop_possible ticks s = Inl e) =
     (\<not> ((ur_ip4_addr u = 0 \<or> ur_ip6_addr u = 0) \<and> ur_tcp_bind u = 0 \<and> ur_listen u = 0))"
    by (auto simp: uv_server_run_ip_def uv_server_listen_ip_def uv_server_listen_def uv_server_bind_def)
  show "(\<exists>e. uv_server_run_sock u stop_possible ticks s = Inl e) =
     (\<not> (ur_tcp_open u = 0 \<and> ur_getsockname u = 0 \<and> ur_listen u = 0))"
    by (auto simp: uv_server_run_sock_def uv_server_listen_sock_def uv_server_listen_def uv_server_open_def)
  have "(asio_server_run detached address acceptor accepts ends = ([], Some (Inr ()))) =
      (\<exists>e. asio_server_listen address acceptor accepts = ([], Conn_failed e))"
    (is "?l \<longleftrightarrow> ?r")
  proof
    show "?l \<Longrightarrow> ?r" by (rule asio_server_run_empty)
    show "?r \<Longrightarrow> ?l" by (elim exE) (simp add: asio_server_run_failed assms)
  qed
  then show "(asio_server_run detached address acceptor accepts ends = ([], Some (Inr ()))) =
     ((\<exists>e. address = Some e) \<or> (\<exists>e. acceptor = Some e) \<or> (\<exists>e as. accepts = Inl e # as))"
    by (simp only: asio_server_listen_failed)
qed

text \<open>The port is taken: the uv server throws, the asio server returns.\<close>

theorem run_failures_witness:
  "(\<exists>e. uv_server_run_ip \<lparr>ur_ip4_addr = 0, ur_ip6_addr = -22, ur_tcp_bind = 0, ur_tcp_open = 0, ur_getsockname = 0,
       ur_listen = -98\<rparr> ''::1'' False [] uv_server_new = Inl e) \<and>
   asio_server_run (\<lambda>_. None) None (Some (App_exception ''bind'')) ([] :: (cpp_exn + nat) list) (\<lambda>_. Conn_closed) =
     ([], Some (Inr ()))"
  using run_failures [of "\<lambda>_. None" "\<lparr>ur_ip4_addr = 0, ur_ip6_addr = -22, ur_tcp_bind = 0, ur_tcp_open = 0,
      ur_getsockname = 0, ur_listen = -98\<rparr>" "''::1''" False "[]" uv_server_new None "Some (App_exception ''bind'')"
      "[] :: (cpp_exn + nat) list" "\<lambda>_. Conn_closed"]
  by simp

end
