(* ===== verification/Scheduler.thy ===== *)
theory Scheduler
  imports Uv_Io "HOL-Library.Multiset"
begin

text \<open>
  The coroutine machinery of the uv backend: \<^verbatim>\<open>uv::detail::task\<close> (lib/grpcxx/uv/task.h) and
  \<^verbatim>\<open>uv::detail::scheduler\<close> (lib/grpcxx/uv/scheduler.h, scheduler.cpp), which moves the work of a
  coroutine to a pool of threads and its continuation back to the thread of the libuv loop.

  The scheduler is a state machine whose steps are the sections of code between two points at
  which another thread can see the difference: pushing to or popping from a queue under its
  mutex, signalling the loop, and running a function outside the locks. A number stands for
  both the coroutine of a task and the one that awaits it. The lists \<open>sc_submitted\<close>, \<open>sc_ran\<close> and
  \<open>sc_resumed\<close> record the awaited tasks, the tasks whose function has run and the awaiting
  coroutines that were resumed; the code has no such lists. An idle thread polls the queue every
  100 microseconds, so \<^verbatim>\<open>notify_one\<close> makes no difference to what can happen.
\<close>

section \<open>Tasks\<close>

record promise =
  pr_fn :: bool
  pr_previous :: "coro option"
  pr_done :: bool

definition task_new :: promise where
  "task_new = \<lparr>pr_fn = False, pr_previous = None, pr_done = False\<rparr>"

definition task_on_complete :: "promise \<Rightarrow> promise" where
  "task_on_complete p = p\<lparr>pr_fn := True\<rparr>"

text \<open>\<^verbatim>\<open>operator co_await\<close>: a task that is done does not suspend the awaiting coroutine; otherwise it is
  stored and the task's coroutine runs.\<close>

definition task_await :: "coro \<Rightarrow> promise \<Rightarrow> bool \<times> promise" where
  "task_await coro p = (if pr_done p then (True, p) else (False, p\<lparr>pr_previous := Some coro\<rparr>))"

datatype final_action = Final_noop | Final_resume coro | Final_call coro

definition task_final_suspend :: "promise \<Rightarrow> final_action \<times> promise" where
  "task_final_suspend p =
     (let p' = p\<lparr>pr_done := True\<rparr>
      in case pr_previous p of
           None \<Rightarrow> (Final_noop, p')
         | Some h \<Rightarrow> if \<not> pr_fn p then (Final_resume h, p') else (Final_call h, p'))"

section \<open>The scheduler\<close>

text \<open>What a thread of the pool is doing: waiting in \<^verbatim>\<open>loop\<close>, running the coroutine it popped, in the
  completion function before and after the push to \<open>_joiners\<close>, or gone.\<close>

datatype worker = W_idle | W_run coro | W_push coro | W_send coro | W_exit

record sched =
  sc_stop :: bool
  sc_threads :: "worker list"
  sc_shifters :: "coro list"
  sc_async :: bool
  sc_joiners :: "coro list"
  sc_joining :: bool
  sc_promise :: "coro \<Rightarrow> promise"
  sc_submitted :: "coro list"
  sc_ran :: "coro list"
  sc_resumed :: "coro list"

definition scheduler_new :: "nat \<Rightarrow> sched" where
  "scheduler_new n =
     \<lparr>sc_stop = False, sc_threads = replicate n W_idle, sc_shifters = [], sc_async = False, sc_joiners = [],
      sc_joining = False, sc_promise = (\<lambda>_. task_new), sc_submitted = [], sc_ran = [], sc_resumed = []\<rparr>"

definition scheduler_enqueue :: "coro \<Rightarrow> sched \<Rightarrow> bool \<times> sched" where
  "scheduler_enqueue h s =
     (if sc_threads s = [] then (False, s) else (True, s\<lparr>sc_shifters := sc_shifters s @ [h]\<rparr>))"

text \<open>\<open>run\<close>: the task of \<^verbatim>\<open>wrap(fn)\<close>, with a completion function if there are threads.\<close>

definition scheduler_run :: "sched \<Rightarrow> promise" where
  "scheduler_run s = (if sc_threads s = [] then task_new else task_on_complete task_new)"

text \<open>The end of a task's coroutine \<open>h\<close>, after its function: what \<open>final_suspend\<close> says happens at once,
  a completion function is left to the thread.\<close>

definition task_finish :: "coro \<Rightarrow> sched \<Rightarrow> final_action \<times> sched" where
  "task_finish h s =
     (let (act, p) = task_final_suspend (sc_promise s h);
          s1 = s\<lparr>sc_ran := sc_ran s @ [h], sc_promise := (sc_promise s)(h := p)\<rparr>
      in (act, case act of Final_resume k \<Rightarrow> s1\<lparr>sc_resumed := sc_resumed s1 @ [k]\<rparr> | _ \<Rightarrow> s1))"

text \<open>\<^verbatim>\<open>co_await _scheduler.run(fn)\<close> in the coroutine \<open>h\<close>: the task is started, \<^verbatim>\<open>wrap\<close> awaits \<^verbatim>\<open>shift()\<close>, and
  when the coroutine could not be queued it goes on at once.\<close>

definition scheduler_await :: "coro \<Rightarrow> sched \<Rightarrow> sched" where
  "scheduler_await h s =
     (let (ready, p) = task_await h (scheduler_run s);
          s1 = s\<lparr>sc_promise := (sc_promise s)(h := p), sc_submitted := sc_submitted s @ [h]\<rparr>;
          (queued, s2) = scheduler_enqueue h s1
      in if queued then s2 else snd (task_finish h s2))"

text \<open>\<open>loop\<close>: the next coroutine is popped when there is one and the pool is not stopped.\<close>

definition worker_pop :: "nat \<Rightarrow> sched \<Rightarrow> sched option" where
  "worker_pop i s =
     (case sc_shifters s of
        h # hs \<Rightarrow>
          if i < length (sc_threads s) \<and> sc_threads s ! i = W_idle \<and> \<not> sc_stop s
          then Some (s\<lparr>sc_shifters := hs, sc_threads := (sc_threads s)[i := W_run h]\<rparr>) else None
      | [] \<Rightarrow> None)"

text \<open>\<^verbatim>\<open>h()\<close>: the function of \<^verbatim>\<open>wrap\<close> runs and the task ends.\<close>

definition worker_run :: "nat \<Rightarrow> sched \<Rightarrow> sched option" where
  "worker_run i s =
     (if i < length (sc_threads s)
      then case sc_threads s ! i of
             W_run h \<Rightarrow>
               (case task_finish h s of
                  (Final_call k, s1) \<Rightarrow> Some (s1\<lparr>sc_threads := (sc_threads s1)[i := W_push k]\<rparr>)
                | (_, s1) \<Rightarrow> Some (s1\<lparr>sc_threads := (sc_threads s1)[i := W_idle]\<rparr>))
           | _ \<Rightarrow> None
      else None)"

text \<open>The completion function of \<open>run\<close>: the push under the mutex, then \<^verbatim>\<open>uv_async_send\<close>.\<close>

definition worker_push :: "nat \<Rightarrow> sched \<Rightarrow> sched option" where
  "worker_push i s =
     (if i < length (sc_threads s)
      then case sc_threads s ! i of
             W_push h \<Rightarrow> Some (s\<lparr>sc_joiners := sc_joiners s @ [h], sc_threads := (sc_threads s)[i := W_send h]\<rparr>)
           | _ \<Rightarrow> None
      else None)"

definition worker_send :: "nat \<Rightarrow> sched \<Rightarrow> sched option" where
  "worker_send i s =
     (if i < length (sc_threads s)
      then case sc_threads s ! i of
             W_send h \<Rightarrow> Some (s\<lparr>sc_async := True, sc_threads := (sc_threads s)[i := W_idle]\<rparr>)
           | _ \<Rightarrow> None
      else None)"

definition worker_exit :: "nat \<Rightarrow> sched \<Rightarrow> sched option" where
  "worker_exit i s =
     (if i < length (sc_threads s) \<and> sc_threads s ! i = W_idle \<and> sc_stop s
      then Some (s\<lparr>sc_threads := (sc_threads s)[i := W_exit]\<rparr>) else None)"

text \<open>The libuv loop calls the async callback when it was signalled; \<open>join\<close> pops and resumes until
  \<open>_joiners\<close> is empty.\<close>

definition async_cb :: "sched \<Rightarrow> sched option" where
  "async_cb s = (if sc_async s \<and> \<not> sc_joining s then Some (s\<lparr>sc_async := False, sc_joining := True\<rparr>) else None)"

definition join_pop :: "sched \<Rightarrow> sched option" where
  "join_pop s =
     (if sc_joining s
      then case sc_joiners s of
             h # hs \<Rightarrow> Some (s\<lparr>sc_joiners := hs, sc_resumed := sc_resumed s @ [h]\<rparr>)
           | [] \<Rightarrow> Some (s\<lparr>sc_joining := False\<rparr>)
      else None)"

text \<open>The destructor sets \<open>_stop\<close>; it goes on to close the async handle when all threads are gone.\<close>

definition scheduler_stop :: "sched \<Rightarrow> sched" where
  "scheduler_stop s = s\<lparr>sc_stop := True\<rparr>"

section \<open>Steps\<close>

datatype action =
    Do_await coro | Do_pop nat | Do_run nat | Do_push nat | Do_send nat | Do_exit nat
  | Do_async | Do_join | Do_stop

definition sched_step :: "action \<Rightarrow> sched \<Rightarrow> sched option" where
  "sched_step a s =
     (case a of
        Do_await h \<Rightarrow> if h \<in> set (sc_submitted s) then None else Some (scheduler_await h s)
      | Do_pop i \<Rightarrow> worker_pop i s
      | Do_run i \<Rightarrow> worker_run i s
      | Do_push i \<Rightarrow> worker_push i s
      | Do_send i \<Rightarrow> worker_send i s
      | Do_exit i \<Rightarrow> worker_exit i s
      | Do_async \<Rightarrow> async_cb s
      | Do_join \<Rightarrow> join_pop s
      | Do_stop \<Rightarrow> Some (scheduler_stop s))"

inductive reachable :: "nat \<Rightarrow> sched \<Rightarrow> bool" for n where
  reach_new: "reachable n (scheduler_new n)"
| reach_step: "reachable n s \<Longrightarrow> sched_step a s = Some s' \<Longrightarrow> reachable n s'"

fun sched_run :: "action list \<Rightarrow> sched \<Rightarrow> sched option" where
  "sched_run [] s = Some s"
| "sched_run (a # as) s = (case sched_step a s of None \<Rightarrow> None | Some s' \<Rightarrow> sched_run as s')"

lemma sched_run_reachable: "reachable n s \<Longrightarrow> sched_run as s = Some s' \<Longrightarrow> reachable n s'"
  by (induction as arbitrary: s) (auto split: option.splits intro: reach_step)

section \<open>Invariant\<close>

fun holds :: "worker \<Rightarrow> coro list" where
  "holds (W_run h) = [h]"
| "holds (W_push h) = [h]"
| "holds _ = []"

fun finished :: "worker \<Rightarrow> coro list" where
  "finished (W_push h) = [h]"
| "finished _ = []"

definition held :: "(worker \<Rightarrow> coro list) \<Rightarrow> worker list \<Rightarrow> coro multiset" where
  "held f ws = mset (concat (map f ws))"

fun sending :: "worker \<Rightarrow> bool" where
  "sending (W_send h) = True"
| "sending _ = False"

text \<open>Every awaited task is in exactly one place; a function has run exactly when its task is past it;
  continuations in \<open>_joiners\<close> have a wake-up of the loop on its way; the promises of tasks in
  flight know the coroutine to resume.\<close>

definition sched_inv :: "sched \<Rightarrow> bool" where
  "sched_inv s \<longleftrightarrow>
     distinct (sc_submitted s) \<and>
     mset (sc_submitted s) = mset (sc_shifters s) + held holds (sc_threads s) + mset (sc_joiners s) + mset (sc_resumed s) \<and>
     mset (sc_ran s) = held finished (sc_threads s) + mset (sc_joiners s) + mset (sc_resumed s) \<and>
     (sc_joiners s \<noteq> [] \<longrightarrow> sc_async s \<or> sc_joining s \<or> list_ex sending (sc_threads s)) \<and>
     (W_exit \<in> set (sc_threads s) \<longrightarrow> sc_stop s) \<and>
     (\<forall>h. h \<in> set (sc_shifters s) \<or> W_run h \<in> set (sc_threads s) \<longrightarrow>
        pr_fn (sc_promise s h) \<and> pr_previous (sc_promise s h) = Some h)"

lemma held_update:
  "i < length ws \<Longrightarrow> held f (ws[i := w]) + mset (f (ws ! i)) = held f ws + mset (f w)"
proof (induction ws arbitrary: i)
  case (Cons v ws)
  then show ?case by (cases i) (auto simp: held_def ac_simps)
qed simp

lemma held_update_eq:
  assumes "i < length ws" "ws ! i = v"
  shows "f v = [] \<Longrightarrow> held f (ws[i := w]) = held f ws + mset (f w)"
    and "f w = f v \<Longrightarrow> held f (ws[i := w]) = held f ws"
    and "f v = [h] \<Longrightarrow> f w = [] \<Longrightarrow> held f ws = add_mset h (held f (ws[i := w]))"
  using held_update [OF assms(1), of f w] assms(2) by auto

lemma held_replicate [simp]: "f w = [] \<Longrightarrow> held f (replicate n w) = {#}"
  by (induction n) (simp_all add: held_def)

lemma sending_same:
  "i < length ws \<Longrightarrow> \<not> sending (ws ! i) \<Longrightarrow> \<not> sending w \<Longrightarrow> list_ex sending (ws[i := w]) = list_ex sending ws"
  by (metis list_ex_length length_list_update nth_list_update)

lemma list_ex_new: "i < length ws \<Longrightarrow> P w \<Longrightarrow> list_ex P (ws[i := w])"
  by (auto simp: list_ex_length)

lemma set_updateD: "x \<in> set (ws[i := w]) \<Longrightarrow> x = w \<or> x \<in> set ws"
  using set_update_subset_insert by fastforce

lemma add_mset_absorb: "A \<subseteq># B \<Longrightarrow> A \<subseteq># add_mset x B"
  by (simp add: subset_mset.order_trans [of A B])

lemma held_finished: "held finished ws \<subseteq># held holds ws"
proof (induction ws)
  case (Cons w ws)
  then show ?case by (cases w) (auto simp: held_def intro: add_mset_absorb)
qed (simp add: held_def)

lemma mset_distinct: "mset xs \<subseteq># mset ys \<Longrightarrow> distinct ys \<Longrightarrow> distinct xs"
proof -
  assume sub: "mset xs \<subseteq># mset ys" and "distinct ys"
  then have "count (mset xs) a \<le> 1" for a
    using mset_subset_eq_count [OF sub, of a] by (simp add: distinct_count_atmost_1 count_mset_0_iff [THEN iffD2] split: if_splits)
  then show "distinct xs"
    unfolding distinct_count_atmost_1
    by (metis count_eq_zero_iff le_neq_implies_less less_one set_mset_mset)
qed

lemma mset_subset_set: "mset xs \<subseteq># mset ys \<Longrightarrow> set xs \<subseteq> set ys"
  by (metis set_mset_mono set_mset_mset)

lemma sched_inv_new: "sched_inv (scheduler_new n)"
  by (auto simp: sched_inv_def scheduler_new_def)

lemmas sched_defs = scheduler_await_def scheduler_run_def scheduler_enqueue_def task_new_def task_on_complete_def
  task_await_def task_finish_def task_final_suspend_def Let_def

lemmas step_ops = worker_pop_def worker_run_def worker_push_def worker_send_def worker_exit_def async_cb_def
  join_pop_def scheduler_stop_def

lemma scheduler_await_inv:
  assumes "sched_inv s" "h \<notin> set (sc_submitted s)"
  shows "sched_inv (scheduler_await h s)"
proof -
  have "h \<notin># mset (sc_shifters s) + held holds (sc_threads s)"
    using assms by (auto simp: sched_inv_def simp flip: set_mset_mset)
  then show ?thesis
    using assms unfolding sched_inv_def by (auto simp: sched_defs held_def)
qed

lemma worker_pop_inv: "sched_inv s \<Longrightarrow> worker_pop i s = Some s' \<Longrightarrow> sched_inv s'"
  unfolding sched_inv_def worker_pop_def
  by (auto split: list.splits if_splits simp: held_update_eq(1) [where v = W_idle] sending_same dest!: set_updateD)

lemma worker_run_inv:
  assumes "sched_inv s" "worker_run i s = Some s'"
  shows "sched_inv s'"
proof -
  from assms(2) obtain h where i: "i < length (sc_threads s)" "sc_threads s ! i = W_run h"
    by (auto simp: worker_run_def split: if_splits worker.splits)
  then have "W_run h \<in> set (sc_threads s)" by (metis nth_mem)
  then have p: "pr_fn (sc_promise s h)" "pr_previous (sc_promise s h) = Some h"
    using assms(1) unfolding sched_inv_def by blast+
  have s': "s' = s\<lparr>sc_ran := sc_ran s @ [h], sc_promise := (sc_promise s)(h := (sc_promise s h)\<lparr>pr_done := True\<rparr>),
      sc_threads := (sc_threads s)[i := W_push h]\<rparr>"
    using assms(2) i p by (simp add: worker_run_def sched_defs)
  have "held holds ((sc_threads s)[i := W_push h]) = held holds (sc_threads s)"
    "held finished ((sc_threads s)[i := W_push h]) = held finished (sc_threads s) + {#h#}"
    using i by (simp_all add: held_update_eq)
  then show ?thesis
    using assms(1) i p unfolding sched_inv_def s'
    by (auto simp: sending_same dest!: set_updateD)
qed

lemma worker_push_inv:
  assumes "sched_inv s" "worker_push i s = Some s'"
  shows "sched_inv s'"
proof -
  from assms(2) obtain h where i: "i < length (sc_threads s)" "sc_threads s ! i = W_push h"
    and s': "s' = s\<lparr>sc_joiners := sc_joiners s @ [h], sc_threads := (sc_threads s)[i := W_send h]\<rparr>"
    by (auto simp: worker_push_def split: if_splits worker.splits)
  have "held holds (sc_threads s) = add_mset h (held holds ((sc_threads s)[i := W_send h]))"
    "held finished (sc_threads s) = add_mset h (held finished ((sc_threads s)[i := W_send h]))"
    using held_update_eq(3) [OF i, of holds h "W_send h"] held_update_eq(3) [OF i, of finished h "W_send h"]
    by simp_all
  then show ?thesis
    using assms(1) i unfolding sched_inv_def s'
    by (auto dest!: set_updateD intro: list_ex_new)
qed

lemma worker_send_inv:
  assumes "sched_inv s" "worker_send i s = Some s'"
  shows "sched_inv s'"
proof -
  from assms(2) obtain h where i: "i < length (sc_threads s)" "sc_threads s ! i = W_send h"
    and s': "s' = s\<lparr>sc_async := True, sc_threads := (sc_threads s)[i := W_idle]\<rparr>"
    by (auto simp: worker_send_def split: if_splits worker.splits)
  then show ?thesis
    using assms(1) unfolding sched_inv_def s'
    by (auto simp: held_update_eq(2) [OF i] dest!: set_updateD)
qed

lemma worker_exit_inv: "sched_inv s \<Longrightarrow> worker_exit i s = Some s' \<Longrightarrow> sched_inv s'"
  unfolding sched_inv_def worker_exit_def
  by (auto split: if_splits simp: held_update_eq(2) [where v = W_idle] sending_same dest!: set_updateD)

lemma async_cb_inv: "sched_inv s \<Longrightarrow> async_cb s = Some s' \<Longrightarrow> sched_inv s'"
  unfolding sched_inv_def async_cb_def by (auto split: if_splits)

lemma join_pop_inv: "sched_inv s \<Longrightarrow> join_pop s = Some s' \<Longrightarrow> sched_inv s'"
  unfolding sched_inv_def join_pop_def by (auto split: if_splits list.splits)

lemma scheduler_stop_inv: "sched_inv s \<Longrightarrow> sched_inv (scheduler_stop s)"
  unfolding sched_inv_def scheduler_stop_def by simp

lemmas step_invs = scheduler_await_inv worker_pop_inv worker_run_inv worker_push_inv worker_send_inv worker_exit_inv async_cb_inv join_pop_inv scheduler_stop_inv

lemma sched_step_inv: "sched_inv s \<Longrightarrow> sched_step a s = Some s' \<Longrightarrow> sched_inv s'"
  by (cases a) (auto simp: sched_step_def split: if_splits intro: step_invs)

lemma reachable_inv: "reachable n s \<Longrightarrow> sched_inv s"
  by (induction rule: reachable.induct) (auto intro: sched_inv_new sched_step_inv)

lemma inv_once:
  assumes "sched_inv s"
  shows "distinct (sc_ran s) \<and> distinct (sc_resumed s) \<and>
     set (sc_resumed s) \<subseteq> set (sc_ran s) \<and> set (sc_ran s) \<subseteq> set (sc_submitted s) \<and>
     (sc_joiners s = [] \<or> sc_async s \<or> sc_joining s \<or> list_ex sending (sc_threads s))"
proof -
  have rr: "mset (sc_resumed s) \<subseteq># mset (sc_ran s)" using assms by (simp add: sched_inv_def)
  have rs: "mset (sc_ran s) \<subseteq># mset (sc_submitted s)"
    using assms held_finished [of "sc_threads s"] by (simp add: sched_inv_def ac_simps subset_mset.add_increasing)
  have "distinct (sc_submitted s)" using assms by (simp add: sched_inv_def)
  then have "distinct (sc_ran s)" by (rule mset_distinct [OF rs])
  moreover from this have "distinct (sc_resumed s)" by (rule mset_distinct [OF rr])
  moreover have "sc_joiners s = [] \<or> sc_async s \<or> sc_joining s \<or> list_ex sending (sc_threads s)"
    using assms unfolding sched_inv_def by blast
  ultimately show ?thesis using mset_subset_set [OF rr] mset_subset_set [OF rs] by blast
qed

lemma reachable_threads: "reachable n s \<Longrightarrow> length (sc_threads s) = n"
proof (induction rule: reachable.induct)
  case (reach_step s a s')
  then show ?case
    by (cases a) (auto simp: sched_step_def step_ops sched_defs
      split: if_splits list.splits worker.splits option.splits)
qed (simp add: scheduler_new_def)

lemma reachable_inline:
  "reachable 0 s \<Longrightarrow> sc_resumed s = sc_submitted s \<and> sc_ran s = sc_submitted s \<and> sc_shifters s = [] \<and>
     sc_joiners s = [] \<and> \<not> sc_async s"
proof (induction rule: reachable.induct)
  case (reach_step s a s')
  have "sc_threads s = []" using reachable_threads [OF reach_step.hyps(1)] by simp
  with reach_step show ?case
    by (cases a) (auto simp: sched_step_def step_ops sched_defs split: if_splits)
qed (simp add: scheduler_new_def)

section \<open>The pool, as a contract\<close>

text \<open>What the connections rely on: the tasks that were submitted, have run and were resumed only grow, each
  task runs once after it was submitted and is resumed once after it ran. \<open>submits\<close> is the task an
  action hands to the pool.\<close>

locale task_pool =
  fixes step :: "'a \<Rightarrow> 's \<Rightarrow> 's option"
    and submits :: "'a \<Rightarrow> coro option"
    and submitted :: "'s \<Rightarrow> coro list"
    and ran :: "'s \<Rightarrow> coro list"
    and resumed :: "'s \<Rightarrow> coro list"
    and good :: "'s \<Rightarrow> bool"
  assumes step_good: "good s \<Longrightarrow> step a s = Some s' \<Longrightarrow> good s'"
    and submitted_grows: "step a s = Some s' \<Longrightarrow>
          submitted s' = submitted s @ (case submits a of None \<Rightarrow> [] | Some t \<Rightarrow> [t])"
    and ran_grows: "step a s = Some s' \<Longrightarrow> \<exists>ts. ran s' = ran s @ ts"
    and resumed_grows: "step a s = Some s' \<Longrightarrow> \<exists>ts. resumed s' = resumed s @ ts"
    and once: "good s \<Longrightarrow> distinct (submitted s) \<and> distinct (ran s) \<and> distinct (resumed s)"
    and in_order: "good s \<Longrightarrow> set (resumed s) \<subseteq> set (ran s) \<and> set (ran s) \<subseteq> set (submitted s)"
begin

text \<open>The tasks that run in a step, and those that are resumed.\<close>

lemma newly_ran:
  assumes "good s" "step a s = Some s'" "ts = drop (length (ran s)) (ran s')"
  shows "ran s' = ran s @ ts" "distinct ts" "set ts \<inter> set (ran s) = {}" "set ts \<inter> set (resumed s) = {}"
    "set ts \<subseteq> set (submitted s')"
proof -
  show r: "ran s' = ran s @ ts" using ran_grows [OF assms(2)] assms(3) by auto
  note s' = step_good [OF assms(1,2)]
  show "distinct ts" "set ts \<inter> set (ran s) = {}" using once [OF s'] r by auto
  then show "set ts \<inter> set (resumed s) = {}" using in_order [OF assms(1)] by auto
  show "set ts \<subseteq> set (submitted s')" using in_order [OF s'] r by auto
qed

lemma newly_resumed:
  assumes "good s" "step a s = Some s'" "ts = drop (length (resumed s)) (resumed s')"
  shows "resumed s' = resumed s @ ts" "distinct ts" "set ts \<inter> set (resumed s) = {}" "set ts \<subseteq> set (ran s')"
proof -
  show r: "resumed s' = resumed s @ ts" using resumed_grows [OF assms(2)] assms(3) by auto
  note s' = step_good [OF assms(1,2)]
  show "distinct ts" "set ts \<inter> set (resumed s) = {}" using once [OF s'] r by auto
  show "set ts \<subseteq> set (ran s')" using in_order [OF s'] r by auto
qed

lemma submitted_new:
  assumes "good s" "step a s = Some s'" "submits a = Some t"
  shows "t \<notin> set (submitted s)"
  using once [OF step_good [OF assms(1,2)]] submitted_grows [OF assms(2)] assms(3) by auto

end

fun awaited :: "action \<Rightarrow> coro option" where
  "awaited (Do_await h) = Some h"
| "awaited _ = None"

lemma sched_step_lists:
  assumes "sched_step a s = Some s'"
  shows "sc_submitted s' = sc_submitted s @ (case awaited a of None \<Rightarrow> [] | Some t \<Rightarrow> [t])"
    and "\<exists>ts. sc_ran s' = sc_ran s @ ts" and "\<exists>ts. sc_resumed s' = sc_resumed s @ ts"
  using assms
  by (cases a; auto simp: sched_step_def step_ops sched_defs split: if_splits list.splits worker.splits option.splits)+

interpretation scheduler: task_pool sched_step awaited sc_submitted sc_ran sc_resumed sched_inv
proof unfold_locales
  fix s :: sched
  assume "sched_inv s"
  then show "distinct (sc_submitted s) \<and> distinct (sc_ran s) \<and> distinct (sc_resumed s)"
    "set (sc_resumed s) \<subseteq> set (sc_ran s) \<and> set (sc_ran s) \<subseteq> set (sc_submitted s)"
    using inv_once [of s] by (auto simp: sched_inv_def)
qed (auto simp: sched_step_lists intro: sched_step_inv)

section \<open>Progress\<close>

text \<open>The steps the threads make on their own, without new work and without a stop.\<close>

fun internal :: "action \<Rightarrow> bool" where
  "internal (Do_await h) = False"
| "internal Do_stop = False"
| "internal _ = True"

fun worker_weight :: "worker \<Rightarrow> nat" where
  "worker_weight W_idle = 1"
| "worker_weight (W_run h) = 7"
| "worker_weight (W_push h) = 6"
| "worker_weight (W_send h) = 4"
| "worker_weight W_exit = 0"

text \<open>An upper bound for the steps to come: a task still has to be popped, run, pushed, signalled and
  joined.\<close>

definition sched_weight :: "sched \<Rightarrow> nat" where
  "sched_weight s =
     7 * length (sc_shifters s) + sum_list (map worker_weight (sc_threads s)) + length (sc_joiners s) +
     (if sc_async s then 2 else 0) + (if sc_joining s then 1 else 0)"

lemma weight_update:
  "i < length ws \<Longrightarrow>
     sum_list (map worker_weight (ws[i := w])) + worker_weight (ws ! i) = sum_list (map worker_weight ws) + worker_weight w"
proof (induction ws arbitrary: i)
  case (Cons v ws)
  then show ?case by (cases i) auto
qed simp

lemma weight_less:
  "i < length ws \<Longrightarrow> ws ! i = v \<Longrightarrow> worker_weight w + k < worker_weight v + l \<Longrightarrow>
     sum_list (map worker_weight (ws[i := w])) + k < sum_list (map worker_weight ws) + l"
  by (drule weight_update [of _ _ w]) simp

lemma weight_run:
  assumes "worker_run i s = Some s'"
  shows "sched_weight s' < sched_weight s"
proof -
  from assms obtain h where i: "i < length (sc_threads s)" "sc_threads s ! i = W_run h"
    by (auto simp: worker_run_def split: if_splits worker.splits)
  with assms weight_less [OF i, where k = 0 and l = 0] show ?thesis
    by (auto simp: worker_run_def sched_weight_def sched_defs split: option.splits if_splits)
qed

lemma weight_pop: "worker_pop i s = Some s' \<Longrightarrow> sched_weight s' < sched_weight s"
  using weight_less [of i "sc_threads s" W_idle _ 0 7]
  by (auto simp: worker_pop_def sched_weight_def add.commute split: list.splits if_splits)

lemma weight_push: "worker_push i s = Some s' \<Longrightarrow> sched_weight s' < sched_weight s"
  using weight_less [of i "sc_threads s" _ _ 1 0]
  by (auto simp: worker_push_def sched_weight_def split: worker.splits if_splits)

lemma weight_send: "worker_send i s = Some s' \<Longrightarrow> sched_weight s' < sched_weight s"
  using weight_less [of i "sc_threads s" _ W_idle 2 0]
  by (auto simp: worker_send_def sched_weight_def split: worker.splits if_splits)

lemma weight_exit: "worker_exit i s = Some s' \<Longrightarrow> sched_weight s' < sched_weight s"
  using weight_less [of i "sc_threads s" W_idle W_exit 0 0]
  by (auto simp: worker_exit_def sched_weight_def split: if_splits)

lemma weight_async: "async_cb s = Some s' \<Longrightarrow> sched_weight s' < sched_weight s"
  by (auto simp: async_cb_def sched_weight_def split: if_splits)

lemma weight_join: "join_pop s = Some s' \<Longrightarrow> sched_weight s' < sched_weight s"
  by (auto simp: join_pop_def sched_weight_def split: if_splits list.splits)

lemma weight_step: "internal a \<Longrightarrow> sched_step a s = Some s' \<Longrightarrow> sched_weight s' < sched_weight s"
  by (cases a)
    (auto simp: sched_step_def intro: weight_pop weight_run weight_push weight_send weight_exit weight_async weight_join)

text \<open>A state in which no thread can move.\<close>

definition quiescent :: "sched \<Rightarrow> bool" where
  "quiescent s \<longleftrightarrow> (\<forall>a. internal a \<longrightarrow> sched_step a s = None)"

lemma quiescent_step: "quiescent s \<Longrightarrow> internal a \<Longrightarrow> sched_step a s = None"
  by (simp add: quiescent_def)

lemma quiescent_worker:
  assumes "quiescent s" "i < length (sc_threads s)"
  shows "(sc_threads s ! i = W_idle \<and> (sc_shifters s = [] \<or> sc_stop s) \<and> \<not> sc_stop s) \<or> sc_threads s ! i = W_exit"
proof -
  note q = quiescent_step [OF assms(1)]
  have "worker_pop i s = None" "worker_run i s = None" "worker_push i s = None" "worker_send i s = None" "worker_exit i s = None"
    using q [of "Do_pop i"] q [of "Do_run i"] q [of "Do_push i"] q [of "Do_send i"] q [of "Do_exit i"]
    by (simp_all add: sched_step_def)
  then show ?thesis
    using assms(2)
    by (cases "sc_threads s ! i")
      (auto simp: worker_pop_def worker_run_def worker_push_def worker_send_def worker_exit_def
        split: list.splits if_splits prod.splits final_action.splits)
qed

lemma quiescent_done:
  assumes "sched_inv s" "quiescent s" "\<not> sc_stop s" "sc_threads s \<noteq> []"
  shows "mset (sc_resumed s) = mset (sc_submitted s) \<and> mset (sc_ran s) = mset (sc_submitted s)"
proof -
  have noexit: "W_exit \<notin> set (sc_threads s)" using assms(1,3) by (auto simp: sched_inv_def)
  have idle: "w = W_idle" if "w \<in> set (sc_threads s)" for w
    using that noexit quiescent_worker [OF assms(2)] by (metis in_set_conv_nth)
  have "sc_shifters s = []"
    using quiescent_worker [OF assms(2), of 0] assms(3,4) idle noexit by (metis length_greater_0_conv nth_mem)
  moreover have "\<not> sc_joining s" "\<not> sc_async s"
    using quiescent_step [OF assms(2), of Do_join] quiescent_step [OF assms(2), of Do_async]
    by (auto simp: sched_step_def join_pop_def async_cb_def split: list.splits if_splits)
  moreover have "\<not> list_ex sending (sc_threads s)" using idle by (fastforce simp: list_ex_iff)
  moreover have "held holds (sc_threads s) = {#}" "held finished (sc_threads s) = {#}"
    using idle by (auto simp: held_def dest!: idle)
  ultimately show ?thesis using assms(1) by (auto simp: sched_inv_def)
qed


section \<open>Properties\<close>

text \<open>C7: exactly once, and no wake-up is lost. In every state the threads can reach, with any number of
  threads and however their steps interleave, no function has run twice and no coroutine was
  resumed twice; a coroutine is resumed only after its function has run, and only awaited tasks
  run; and as long as a continuation waits to be joined, the loop is joining, has been
  signalled, or a thread is about to signal it.\<close>

theorem scheduler_exactly_once:
  assumes "reachable n s"
  shows "distinct (sc_ran s) \<and> distinct (sc_resumed s) \<and>
     set (sc_resumed s) \<subseteq> set (sc_ran s) \<and> set (sc_ran s) \<subseteq> set (sc_submitted s) \<and>
     (sc_joiners s = [] \<or> sc_async s \<or> sc_joining s \<or> list_ex sending (sc_threads s))"
  using inv_once [OF reachable_inv [OF assms]] .

theorem scheduler_exactly_once_witness:
  "\<exists>s. sched_run [Do_await 1, Do_await 2, Do_pop 1, Do_pop 0, Do_run 0, Do_run 1, Do_push 0, Do_push 1, Do_send 0,
       Do_async, Do_join] (scheduler_new 2) = Some s \<and> sc_ran s = [2, 1] \<and> sc_resumed s = [2] \<and> distinct (sc_ran s)"
proof -
  obtain s where s: "sched_run [Do_await 1, Do_await 2, Do_pop 1, Do_pop 0, Do_run 0, Do_run 1, Do_push 0, Do_push 1,
      Do_send 0, Do_async, Do_join] (scheduler_new 2) = Some s" "sc_ran s = [2, 1]" "sc_resumed s = [2]"
    by (simp add: sched_step_def scheduler_new_def sched_defs worker_pop_def worker_run_def worker_push_def
      worker_send_def async_cb_def join_pop_def numeral_2_eq_2)
  from scheduler_exactly_once [OF sched_run_reachable [OF reach_new s(1)]] s show ?thesis by blast
qed

text \<open>C8: progress. The threads cannot go on forever without new work: each of their steps makes the
  weight of the state smaller. When none of them can move and the pool has threads and is not
  stopped, every awaited task has run and its awaiting coroutine was resumed.\<close>

theorem scheduler_progress:
  assumes "reachable n s" "0 < n"
  shows "(\<forall>a s'. internal a \<longrightarrow> sched_step a s = Some s' \<longrightarrow> sched_weight s' < sched_weight s) \<and>
     (quiescent s \<longrightarrow> \<not> sc_stop s \<longrightarrow> mset (sc_resumed s) = mset (sc_submitted s))"
  using quiescent_done [OF reachable_inv [OF assms(1)]] weight_step reachable_threads [OF assms(1)] assms(2)
  by auto

theorem scheduler_progress_witness:
  "\<exists>s. sched_run [Do_await 1, Do_pop 0, Do_run 0, Do_push 0, Do_send 0, Do_async, Do_join, Do_join]
      (scheduler_new 1) = Some s \<and> quiescent s \<and> mset (sc_resumed s) = {#1#}"
proof -
  obtain s where s: "sched_run [Do_await 1, Do_pop 0, Do_run 0, Do_push 0, Do_send 0, Do_async, Do_join, Do_join]
      (scheduler_new 1) = Some s" "sc_submitted s = [1]" "\<not> sc_stop s" "sc_threads s = [W_idle]" "sc_shifters s = []"
      "\<not> sc_async s" "\<not> sc_joining s"
    by (simp add: sched_step_def scheduler_new_def sched_defs worker_pop_def worker_run_def worker_push_def
      worker_send_def async_cb_def join_pop_def)
  then have "sched_step a s = None" if "internal a" for a
    using that by (cases a) (simp_all add: sched_step_def step_ops)
  then have q: "quiescent s" by (simp add: quiescent_def)
  have "mset (sc_resumed s) = mset (sc_submitted s)"
    using scheduler_progress [OF sched_run_reachable [OF reach_new s(1)] zero_less_one] q s(3) by blast
  with s q show ?thesis by (intro exI [of _ s]) simp
qed

text \<open>Without threads the function runs at once in the awaiting coroutine, and that coroutine goes on
  directly: nothing is queued and the loop is not signalled.\<close>

theorem scheduler_inline:
  assumes "reachable 0 s"
  shows "sc_resumed s = sc_submitted s \<and> sc_ran s = sc_submitted s \<and> sc_shifters s = [] \<and> sc_joiners s = [] \<and>
     \<not> sc_async s"
  using assms by (rule reachable_inline)

theorem scheduler_inline_witness:
  "sc_resumed (scheduler_await 5 (scheduler_new 0)) = [5]"
proof -
  have "reachable 0 (scheduler_await 5 (scheduler_new 0))"
    by (rule reach_step [OF reach_new, where a = "Do_await 5"]) (simp add: sched_step_def scheduler_new_def)
  from scheduler_inline [OF this] show ?thesis by (simp add: sched_defs scheduler_new_def)
qed

text \<open>The continuation can overtake the signal. There is a run in which the loop, still joining for
  an earlier task, pops a continuation that a thread has just pushed and resumes it while that
  thread has yet to call \<^verbatim>\<open>uv_async_send\<close>. The resumed coroutine destroys the task, and with it
  the completion function the thread is executing.\<close>

theorem scheduler_overtake:
  "\<exists>s h. reachable 1 s \<and> h \<in> set (sc_resumed s) \<and> W_send h \<in> set (sc_threads s)"
proof -
  obtain s where "sched_run [Do_await 1, Do_await 2, Do_pop 0, Do_run 0, Do_push 0, Do_send 0, Do_async, Do_join,
      Do_pop 0, Do_run 0, Do_push 0, Do_join] (scheduler_new 1) = Some s" "2 \<in> set (sc_resumed s)"
      "W_send 2 \<in> set (sc_threads s)"
    by (simp add: sched_step_def scheduler_new_def sched_defs worker_pop_def worker_run_def worker_push_def
      worker_send_def async_cb_def join_pop_def)
  then show ?thesis using sched_run_reachable [OF reach_new] by blast
qed

end
