(* ===== verification/Codegen.thy ===== *)
theory Codegen
  imports Prelude
begin

text \<open>
  The code generator \<^verbatim>\<open>protoc-gen-grpcxx\<close> (src/protoc-gen-grpcxx/grpcxx.cpp): \<^verbatim>\<open>Grpcxx::Generate\<close> turns the
  descriptor of a proto file into a header with one namespace per part of the package and, for
  each service, the aliases that \<^verbatim>\<open>grpcxx::service\<close> and \<^verbatim>\<open>grpcxx::rpc\<close> are used through.

  Descriptors are records with the fields the generator reads. \<^verbatim>\<open>StripProto\<close>, the plugin's name and
  its version come from outside and are arguments. \<^verbatim>\<open>fmt::format\<close> with the given format strings is
  concatenation.
\<close>

section \<open>Descriptors\<close>

record method_desc =
  md_name :: string
  md_input :: string
  md_output :: string

record service_desc =
  sd_name :: string
  sd_methods :: "method_desc list"

record file_desc =
  fd_name :: string
  fd_package :: string
  fd_services :: "service_desc list"

section \<open>Text\<close>

abbreviation dot :: char where
  "dot \<equiv> CHR ''.''"

definition newline :: string where
  "newline = [CHR 0x0A]"

definition quote :: string where
  "quote = [CHR 0x22]"

definition tab :: string where
  "tab = [CHR 0x09]"

definition open_line :: "string \<Rightarrow> string" where
  "open_line n = ''namespace '' @ n @ '' {'' @ newline"

definition close_line :: "string \<Rightarrow> string" where
  "close_line n = ''} // namespace '' @ n @ newline"

definition file_header :: "string \<Rightarrow> string \<Rightarrow> string \<Rightarrow> string \<Rightarrow> string" where
  "file_header plugin version source include =
     ''// Code generated by '' @ plugin @ ''.'' @ newline @
     ''// Versions:'' @ newline @
     ''//   - '' @ plugin @ '': v'' @ version @ newline @
     ''// Source: '' @ source @ newline @ newline @
     ''#pragma once'' @ newline @ newline @
     ''#include <grpcxx/rpc.h>'' @ newline @
     ''#include <grpcxx/service.h>'' @ newline @ newline @
     ''#include '' @ quote @ include @ quote @ newline"

definition service_impl :: string where
  "service_impl =
     ''struct ServiceImpl {'' @ newline @
     tab @ ''template <typename T>'' @ newline @
     tab @ ''typename T::result_type call(grpcxx::context &, const typename T::request_type &) {'' @ newline @
     tab @ tab @ ''return {grpcxx::status::code_t::unimplemented, std::nullopt};'' @ newline @
     tab @ ''}'' @ newline @
     ''};'' @ newline"

section \<open>The generator\<close>

text \<open>The loop that opens the namespaces of the package, from position \<open>start\<close>.\<close>

function open_loop :: "string \<Rightarrow> nat \<Rightarrow> string \<Rightarrow> string" where
  "open_loop package start out =
     (case str_find package dot start of
        None \<Rightarrow> out @ open_line (str_substr_from package start)
      | Some end' \<Rightarrow> open_loop package (end' + 1) (out @ open_line (str_substr package start (end' - start))))"
  by auto

termination
proof (relation "measure (\<lambda>(package, start, _). length package - start)")
  fix package start and out :: string and end'
  assume "str_find package dot start = Some end'"
  from str_find_SomeD [OF this]
  show "((package, end' + 1, out @ open_line (str_substr package start (end' - start))), package, start, out)
      \<in> measure (\<lambda>(package, start, _). length package - start)"
    by simp
qed simp

text \<open>The lambda \<open>mapper\<close>: a package prefix is dropped, then every dot becomes a pair of colons.
  \<^verbatim>\<open>substr\<close> past the end throws.\<close>

function map_loop :: "string \<Rightarrow> nat \<Rightarrow> string \<Rightarrow> string" where
  "map_loop name start result =
     (case str_find name dot start of
        None \<Rightarrow> result @ str_substr_from name start
      | Some end' \<Rightarrow> map_loop name (end' + 1) (result @ str_substr name start (end' - start) @ ''::''))"
  by auto

termination
proof (relation "measure (\<lambda>(name, start, _). length name - start)")
  fix name start and result :: string and end'
  assume "str_find name dot start = Some end'"
  from str_find_SomeD [OF this]
  show "((name, end' + 1, result @ str_substr name start (end' - start) @ ''::''), name, start, result)
      \<in> measure (\<lambda>(name, start, _). length name - start)"
    by simp
qed simp

definition mapper :: "string \<Rightarrow> string \<Rightarrow> cpp_exn + string" where
  "mapper package full_name =
     (if package \<noteq> [] \<and> starts_with full_name package
      then if length full_name < length package + 1 then Inl Out_of_range
           else Inr (map_loop (str_substr_from full_name (length package + 1)) 0 [])
      else Inr (map_loop full_name 0 []))"

text \<open>\<^verbatim>\<open>s.rfind(c, pos)\<close>.\<close>

fun last_below :: "'a list \<Rightarrow> 'a \<Rightarrow> nat \<Rightarrow> nat option" where
  "last_below s c 0 = None"
| "last_below s c (Suc n) = (if s ! n = c then Some n else last_below s c n)"

definition str_rfind :: "'a list \<Rightarrow> 'a \<Rightarrow> nat \<Rightarrow> nat option" where
  "str_rfind s c pos = last_below s c (min (Suc pos) (length s))"

definition size_max :: nat where
  "size_max = 2 ^ 64 - 1"

text \<open>The loop that closes the namespaces, innermost first; \<open>end = pos - 1\<close> wraps when \<open>pos\<close> is 0.\<close>

partial_function (option) close_loop :: "string \<Rightarrow> nat \<Rightarrow> nat option \<Rightarrow> string \<Rightarrow> string option" where
  "close_loop package end' pos out =
     (case pos of
        None \<Rightarrow> Some (out @ close_line (str_substr package 0 (end' + 1)))
      | Some p \<Rightarrow>
          let e = (if p = 0 then size_max else p - 1)
          in close_loop package e (str_rfind package dot e)
               (out @ close_line (str_substr package (p + 1) (end' - p))))"

declare close_loop.simps [code]

text \<open>The loop over the methods of a service: the aliases and the list of rpcs for the service.\<close>

fun generate_methods :: "string \<Rightarrow> method_desc list \<Rightarrow> string \<times> string \<Rightarrow> cpp_exn + (string \<times> string)" where
  "generate_methods package [] (out, tmp) = Inr (out, tmp)"
| "generate_methods package (m # ms) (out, tmp) =
     (case mapper package (md_input m) of
        Inl e \<Rightarrow> Inl e
      | Inr i \<Rightarrow>
          (case mapper package (md_output m) of
             Inl e \<Rightarrow> Inl e
           | Inr r \<Rightarrow>
               generate_methods package ms
                 (out @ ''using rpc'' @ md_name m @ '' = grpcxx::rpc<'' @ quote @ md_name m @ quote @
                    '', '' @ i @ '', '' @ r @ ''>;'' @ newline @ newline,
                  tmp @ '', rpc'' @ md_name m)))"

definition generate_service :: "string \<Rightarrow> service_desc \<Rightarrow> string \<Rightarrow> cpp_exn + string" where
  "generate_service package s out =
     (let tmp = ''using Service = grpcxx::service<'' @ quote @ package @ (if package = [] then [] else ''.'') @
                  sd_name s @ quote
      in case generate_methods package (sd_methods s) (out @ open_line (sd_name s), tmp) of
           Inl e \<Rightarrow> Inl e
         | Inr (out1, tmp1) \<Rightarrow>
             Inr (out1 @ tmp1 @ ''>;'' @ newline @ newline @ service_impl @ close_line (sd_name s)))"

fun generate_services :: "string \<Rightarrow> service_desc list \<Rightarrow> string \<Rightarrow> cpp_exn + string" where
  "generate_services package [] out = Inr out"
| "generate_services package (s # ss) out =
     (case generate_service package s out of Inl e \<Rightarrow> Inl e | Inr out1 \<Rightarrow> generate_services package ss out1)"

text \<open>\<^verbatim>\<open>Generate\<close>: the name of the file that is opened and its contents; \<open>None\<close> if it does not return.\<close>

definition generate ::
  "string \<Rightarrow> string \<Rightarrow> (string \<Rightarrow> string) \<Rightarrow> file_desc \<Rightarrow> (cpp_exn + (string \<times> string)) option" where
  "generate plugin version strip_proto f =
     (let package = fd_package f;
          out = file_header plugin version (fd_name f) (strip_proto (fd_name f) @ ''.pb.h'');
          out1 = (if package \<noteq> [] then open_loop package 0 (out @ newline) else out)
      in case generate_services package (fd_services f) out1 of
           Inl e \<Rightarrow> Some (Inl e)
         | Inr out2 \<Rightarrow>
             map_option (\<lambda>out3. Inr (strip_proto (fd_name f) @ ''.grpcxx.pb.h'', out3))
               (if package \<noteq> []
                then close_loop package (length package) (str_rfind package dot (length package)) out2
                else Some out2))"

section \<open>Specification\<close>

text \<open>The parts of a dotted name.\<close>

fun components :: "string \<Rightarrow> string list" where
  "components [] = [[]]"
| "components (c # cs) =
     (if c = dot then [] # components cs
      else case components cs of [] \<Rightarrow> [[c]] | p # ps \<Rightarrow> (c # p) # ps)"

fun join_colons :: "string list \<Rightarrow> string" where
  "join_colons [] = []"
| "join_colons [p] = p"
| "join_colons (p # ps) = p @ ''::'' @ join_colons ps"

definition cpp_name :: "string \<Rightarrow> string" where
  "cpp_name n = join_colons (components n)"

text \<open>The name that a type has inside the namespaces of the package: only a whole leading package
  may be dropped.\<close>

definition local_name :: "string \<Rightarrow> string \<Rightarrow> string" where
  "local_name package n =
     (if package \<noteq> [] \<and> starts_with n (package @ [dot]) then cpp_name (drop (length package + 1) n) else cpp_name n)"

section \<open>Lemmas\<close>

declare open_loop.simps [simp del] map_loop.simps [simp del]

lemma components_nonempty [simp]: "components s \<noteq> []"
  by (induction s) (auto split: list.splits)

lemma components_none: "dot \<notin> set s \<Longrightarrow> components s = [s]"
  by (induction s) auto

lemma components_app: "dot \<notin> set a \<Longrightarrow> components (a @ dot # b) = a # components b"
  by (induction a) auto

lemma components_snoc: "dot \<notin> set b \<Longrightarrow> components (a @ dot # b) = components a @ [b]"
proof (induction a)
  case (Cons c a)
  then show ?case by (cases "components a") auto
qed (simp add: components_none)

lemma components_find:
  assumes "start \<le> length s"
  shows "case str_find s dot start of
       None \<Rightarrow> components (drop start s) = [drop start s]
     | Some e \<Rightarrow> components (drop start s) = str_substr s start (e - start) # components (drop (e + 1) s)"
proof (cases "str_find s dot start")
  case None
  then show ?thesis
    using assms by (auto simp: str_find_def index_of_None components_none)
next
  case (Some e)
  note d = str_find_SomeD [OF Some]
  have "drop start s = take (e - start) (drop start s) @ drop e s"
    using d(1) by (metis append_take_drop_id drop_drop le_add_diff_inverse2)
  also have "drop e s = dot # drop (e + 1) s" using d(2,3) by (simp add: Cons_nth_drop_Suc [symmetric])
  finally show ?thesis using Some components_app [OF d(4)] by (simp add: str_substr_def) metis
qed


lemma open_loop_components:
  "start \<le> length package \<Longrightarrow>
     open_loop package start out = out @ concat (map open_line (components (drop start package)))"
proof (induction package start out rule: open_loop.induct)
  case (1 package start out)
  show ?case
  proof (cases "str_find package dot start")
    case None
    with components_find [OF "1.prems"] show ?thesis
      by (subst open_loop.simps) (simp add: str_substr_from_def)
  next
    case (Some e)
    with components_find [OF "1.prems"] "1.IH" [OF Some] str_find_SomeD [OF Some] show ?thesis
      by (subst open_loop.simps) simp
  qed
qed

lemma join_colons_Cons: "ps \<noteq> [] \<Longrightarrow> join_colons (p # ps) = p @ ''::'' @ join_colons ps"
  by (cases ps) auto

lemma map_loop_components:
  "start \<le> length name \<Longrightarrow> map_loop name start res = res @ join_colons (components (drop start name))"
proof (induction name start res rule: map_loop.induct)
  case (1 name start res)
  show ?case
  proof (cases "str_find name dot start")
    case None
    with components_find [OF "1.prems"] show ?thesis
      by (subst map_loop.simps) (simp add: str_substr_from_def)
  next
    case (Some e)
    with components_find [OF "1.prems"] "1.IH" [OF Some] str_find_SomeD [OF Some] show ?thesis
      by (subst map_loop.simps) (simp add: join_colons_Cons)
  qed
qed

lemma mapper_cases:
  "mapper package n =
     (if package = [] \<or> \<not> starts_with n package then Inr (cpp_name n)
      else if n = package then Inl Out_of_range
      else Inr (cpp_name (drop (length package + 1) n)))"
  by (auto simp: mapper_def map_loop_components cpp_name_def str_substr_from_def starts_with_iff)

lemma cpp_name_length: "length (cpp_name s) = length s + count_list s dot"
  unfolding cpp_name_def
proof (induction s)
  case (Cons c s)
  obtain p ps where "components s = p # ps" by (cases "components s") auto
  with Cons show ?case by (cases ps) auto
qed simp

lemma last_below_None: "last_below s c n = None \<Longrightarrow> \<forall>i < n. s ! i \<noteq> c"
  by (induction n) (auto simp: less_Suc_eq split: if_splits)

lemma last_below_Some:
  "last_below s c n = Some p \<Longrightarrow> p < n \<and> s ! p = c \<and> (\<forall>i. p < i \<and> i < n \<longrightarrow> s ! i \<noteq> c)"
  by (induction n) (auto simp: less_Suc_eq split: if_splits)

lemma str_rfind_None: "str_rfind s c pos = None \<Longrightarrow> c \<notin> set (take (Suc pos) s)"
  by (auto simp: str_rfind_def in_set_conv_nth dest!: last_below_None)

lemma str_rfind_Some:
  assumes "str_rfind s c pos = Some p"
  shows "p \<le> pos" "p < length s" "s ! p = c" "c \<notin> set (take (pos - p) (drop (Suc p) s))"
proof -
  note l = last_below_Some [OF assms [unfolded str_rfind_def]]
  then show "p \<le> pos" "p < length s" "s ! p = c" by auto
  have "s ! Suc (p + i) \<noteq> c" if "i < pos - p" "i < length s - Suc p" for i
    using l that by (intro l [THEN conjunct2, THEN conjunct2, rule_format]) auto
  then show "c \<notin> set (take (pos - p) (drop (Suc p) s))" by (auto simp: in_set_conv_nth)
qed

text \<open>The closing loop visits the parts of the package backwards.\<close>

lemma close_loop_components:
  assumes "package \<noteq> []" "hd package \<noteq> dot"
  shows "close_loop package e (str_rfind package dot e) out =
     Some (out @ concat (map close_line (rev (components (take (Suc e) package)))))"
proof (induction e arbitrary: out rule: less_induct)
  case (less e)
  show ?case
  proof (cases "str_rfind package dot e")
    case None
    with components_none [OF str_rfind_None [OF None]] show ?thesis
      by (subst close_loop.simps) (simp add: str_substr_def)
  next
    case (Some p)
    note r = str_rfind_Some [OF Some]
    have p: "p \<noteq> 0" using r(3) assms by (cases p) (auto simp: hd_conv_nth)
    have "take (Suc e) package = take p package @ dot # take (e - p) (drop (Suc p) package)"
      using r(1-3) by (subst id_take_nth_drop [of p "take (Suc e) package"]) (auto simp: min_def drop_take)
    then have c: "components (take (Suc e) package) =
        components (take (Suc (p - 1)) package) @ [take (e - p) (drop (Suc p) package)]"
      using components_snoc [OF r(4), of "take p package"] p by simp
    show ?thesis
      using less [of "p - 1"] p r(1) c Some
      by (subst close_loop.simps) (simp add: str_substr_def)
  qed
qed


text \<open>A service in the generated file, given the C++ names of the message types.\<close>

definition method_lines :: "(string \<Rightarrow> string) \<Rightarrow> method_desc \<Rightarrow> string" where
  "method_lines cpp m =
     ''using rpc'' @ md_name m @ '' = grpcxx::rpc<'' @ quote @ md_name m @ quote @
       '', '' @ cpp (md_input m) @ '', '' @ cpp (md_output m) @ ''>;'' @ newline @ newline"

definition service_text :: "string \<Rightarrow> (string \<Rightarrow> string) \<Rightarrow> service_desc \<Rightarrow> string" where
  "service_text package cpp s =
     open_line (sd_name s) @ concat (map (method_lines cpp) (sd_methods s)) @
     ''using Service = grpcxx::service<'' @ quote @ (if package = [] then sd_name s else package @ ''.'' @ sd_name s) @
     quote @ concat (map (\<lambda>m. '', rpc'' @ md_name m) (sd_methods s)) @ ''>;'' @ newline @ newline @
     service_impl @ close_line (sd_name s)"

definition type_names :: "service_desc list \<Rightarrow> string list" where
  "type_names ss = concat (map (\<lambda>s. concat (map (\<lambda>m. [md_input m, md_output m]) (sd_methods s))) ss)"

text \<open>No type's name starts like the package unless it is in the package.\<close>

definition name_clear :: "string \<Rightarrow> string \<Rightarrow> bool" where
  "name_clear package n = (package = [] \<or> \<not> starts_with n package \<or> starts_with n (package @ [dot]))"

lemma mapper_clear: "name_clear package n \<Longrightarrow> mapper package n = Inr (local_name package n)"
  unfolding mapper_cases local_name_def name_clear_def starts_with_iff by auto

lemma mapper_unclear:
  assumes "\<not> name_clear package n"
  shows "mapper package n \<noteq> Inr (local_name package n)"
proof -
  from assms obtain r where r: "package \<noteq> []" "n = package @ r" "\<not> starts_with n (package @ [dot])"
    by (auto simp: name_clear_def starts_with_iff)
  have "length (cpp_name (drop (length package + 1) n)) < length (cpp_name n)"
    using r(1,2) by (cases r) (auto simp: cpp_name_length)
  then have "cpp_name (drop (length package + 1) n) \<noteq> cpp_name n" by auto
  with r show ?thesis by (auto simp: mapper_cases local_name_def starts_with_iff)
qed

lemma generate_methods_text:
  "list_all (name_clear package) (concat (map (\<lambda>m. [md_input m, md_output m]) ms)) \<Longrightarrow>
     generate_methods package ms (out, tmp) =
       Inr (out @ concat (map (method_lines (local_name package)) ms), tmp @ concat (map (\<lambda>m. '', rpc'' @ md_name m) ms))"
  by (induction ms arbitrary: out tmp) (simp_all add: mapper_clear method_lines_def)

lemma generate_services_text:
  "list_all (name_clear package) (type_names ss) \<Longrightarrow>
     generate_services package ss out = Inr (out @ concat (map (service_text package (local_name package)) ss))"
proof (induction ss arbitrary: out)
  case (Cons s ss)
  then have "generate_service package s out = Inr (out @ service_text package (local_name package) s)"
    by (simp add: generate_service_def generate_methods_text type_names_def service_text_def)
  with Cons show ?case by (simp add: type_names_def)
qed simp

section \<open>Properties\<close>

text \<open>C36: the generator returns, and its output is well nested. For a package that does not start with
  a dot and type names that do not merely look like the package's, the file is the header, one
  namespace opened per part of the package in order, the services, each under its full name
  and with its message types named relative to the package, and the same namespaces closed in
  the opposite order.\<close>

theorem generate_text:
  assumes "fd_package f = [] \<or> hd (fd_package f) \<noteq> dot"
    and "list_all (name_clear (fd_package f)) (type_names (fd_services f))"
  shows "generate plugin version strip f =
     Some (Inr (strip (fd_name f) @ ''.grpcxx.pb.h'',
       file_header plugin version (fd_name f) (strip (fd_name f) @ ''.pb.h'') @
       (if fd_package f = [] then [] else newline @ concat (map open_line (components (fd_package f)))) @
       concat (map (service_text (fd_package f) (local_name (fd_package f))) (fd_services f)) @
       (if fd_package f = [] then [] else concat (map close_line (rev (components (fd_package f)))))))"
  using assms
  by (cases "fd_package f = []")
    (simp_all add: generate_def generate_services_text open_loop_components close_loop_components Let_def)

theorem generate_text_witness:
  "\<exists>out. generate ''g'' ''1'' id \<lparr>fd_name = ''f'', fd_package = ''a.b'', fd_services =
      [\<lparr>sd_name = ''S'', sd_methods = [\<lparr>md_name = ''M'', md_input = ''a.b.Q'', md_output = ''c.R''\<rparr>]\<rparr>]\<rparr> = Some (Inr out)"
  by (rule exI, rule generate_text)
    (simp_all add: type_names_def name_clear_def starts_with_def)

text \<open>C37: the type names. The mapper gives a message type its name relative to the package exactly when
  the type's full name does not start with the package's text without being in the package; a
  type \<^verbatim>\<open>foobar.Baz\<close> used in the package \<^verbatim>\<open>foo\<close> comes out wrong.\<close>

theorem mapper_correct_iff: "mapper package n = Inr (local_name package n) \<longleftrightarrow> name_clear package n"
  using mapper_clear mapper_unclear by blast

end
