(* ===== verification/Message_Memory.thy ===== *)
theory Message_Memory
  imports Service
begin

text \<open>
  The memory that a message needs while it is received (lib/grpcxx/message.cpp), and what happens when
  there is not enough of it. \<^verbatim>\<open>message::bytes\<close> appends to two strings, and \<^verbatim>\<open>message::parse\<close> reserves
  room for the payload as soon as it knows the length that a peer has announced. Each of the three
  may throw; the exception leaves \<^verbatim>\<open>message::bytes\<close> with whatever was stored before, and
  \<^verbatim>\<open>request::read\<close> (request.cpp) makes the request invalid.

  The allocator is a parameter: the capacity of an empty string, the capacity a string asks for when
  it has to grow, and whether it gets it. With an allocator that never fails the operations are
  those of the theories \<open>Message\<close> and \<open>Request\<close>, whatever the capacities.
\<close>

section \<open>Strings that grow\<close>

record allocator =
  al_sso :: nat
  al_capacity :: "nat \<Rightarrow> nat \<Rightarrow> nat"
  al_gives :: "nat \<Rightarrow> bool"

text \<open>The capacities of \<^verbatim>\<open>_prefix\<close> and \<^verbatim>\<open>_data\<close>.\<close>

record capacities =
  cap_prefix :: nat
  cap_data :: nat

definition capacities_new :: "allocator \<Rightarrow> capacities" where
  "capacities_new al = \<lparr>cap_prefix = al_sso al, cap_data = al_sso al\<rparr>"

text \<open>The capacity of a string after it was made to hold \<open>n\<close> bytes, if it could be.\<close>

definition string_room :: "allocator \<Rightarrow> nat \<Rightarrow> nat \<Rightarrow> nat option" where
  "string_room al cap n =
     (if n \<le> cap then Some cap
      else if al_gives al (al_capacity al cap n) then Some (al_capacity al cap n) else None)"

section \<open>Operations\<close>

text \<open>\<^verbatim>\<open>_length.value() + 5\<close> is computed with 32 bits.\<close>

definition parse_capacity :: "u32 \<Rightarrow> nat" where
  "parse_capacity len = unat (len + 5)"

definition message_reserve :: "allocator \<Rightarrow> u32 \<Rightarrow> capacities \<Rightarrow> cpp_exn option \<times> capacities" where
  "message_reserve al len k =
     (if cap_data k < parse_capacity len
      then case string_room al (cap_data k) (parse_capacity len) of
             None \<Rightarrow> (Some Bad_alloc, k)
           | Some c \<Rightarrow> (None, k\<lparr>cap_data := c\<rparr>)
      else (None, k))"

definition message_parse_alloc :: "allocator \<Rightarrow> message \<times> capacities \<Rightarrow> cpp_exn option \<times> message \<times> capacities" where
  "message_parse_alloc al mk =
     (let (m, k) = mk
      in if msg_length m \<noteq> None then (None, m, k)
         else if length (msg_prefix m) < 5 then (None, m, k)
         else let (e, k') = message_reserve al (prefix_length (msg_prefix m)) k
              in (e, message_parse m, k'))"

text \<open>\<^verbatim>\<open>_prefix.append\<close> and \<^verbatim>\<open>_data.append\<close>.\<close>

definition prefix_append :: "allocator \<Rightarrow> bytes \<Rightarrow> message \<times> capacities \<Rightarrow> (message \<times> capacities) option" where
  "prefix_append al bs mk =
     (let (m, k) = mk
      in case string_room al (cap_prefix k) (length (msg_prefix m) + length bs) of
           None \<Rightarrow> None
         | Some c \<Rightarrow> Some (m\<lparr>msg_prefix := msg_prefix m @ bs\<rparr>, k\<lparr>cap_prefix := c\<rparr>))"

definition data_append :: "allocator \<Rightarrow> bytes \<Rightarrow> message \<times> capacities \<Rightarrow> (message \<times> capacities) option" where
  "data_append al bs mk =
     (let (m, k) = mk
      in case string_room al (cap_data k) (length (msg_data m) + length bs) of
           None \<Rightarrow> None
         | Some c \<Rightarrow> Some (m\<lparr>msg_data := msg_data m @ bs\<rparr>, k\<lparr>cap_data := c\<rparr>))"

definition message_read_alloc :: "allocator \<Rightarrow> bytes \<Rightarrow> message \<times> capacities \<Rightarrow> cpp_exn option \<times> message \<times> capacities" where
  "message_read_alloc al bs mk =
     (if too_large (fst mk)
      then (Some (Length_error ''Message larger than what's indicated in the prefix.''), mk)
      else
        let n = (if 5 < length bs then 5 else length bs);
            (res, head) = (if length (msg_prefix (fst mk)) < 5 then (prefix_append al (take n bs) mk, n) else (Some mk, 0))
        in case res of
             None \<Rightarrow> (Some Bad_alloc, mk)
           | Some mk1 \<Rightarrow>
               (case message_parse_alloc al mk1 of
                  (Some e, mk2) \<Rightarrow> (Some e, mk2)
                | (None, mk2) \<Rightarrow>
                    if 0 < length bs - head
                    then case data_append al (drop head bs) mk2 of
                           None \<Rightarrow> (Some Bad_alloc, mk2)
                         | Some mk3 \<Rightarrow> (None, mk3)
                    else (None, mk2)))"

definition request_read_alloc :: "allocator \<Rightarrow> bytes \<Rightarrow> request \<times> capacities \<Rightarrow> request \<times> capacities" where
  "request_read_alloc al bs rk =
     (let (r, k) = rk
      in if request_invalid r then rk
         else case message_read_alloc al bs (req_msg r, k) of
                (Some e, m, k') \<Rightarrow> (request_set_flag Flag_invalid (r\<lparr>req_msg := m\<rparr>), k')
              | (None, m, k') \<Rightarrow> (r\<lparr>req_msg := m\<rparr>, k'))"

section \<open>Memory that never ends\<close>

definition alloc_always :: "allocator \<Rightarrow> bool" where
  "alloc_always al \<longleftrightarrow> (\<forall>c. al_gives al c)"

lemma string_room_always: "alloc_always al \<Longrightarrow> string_room al cap n \<noteq> None"
  by (simp add: string_room_def alloc_always_def)

lemma message_read_alloc_always:
  assumes "alloc_always al"
  shows "\<exists>k'. message_read_alloc al bs (m, k) =
     (case message_read m bs of Inl e \<Rightarrow> (Some e, m, k) | Inr m' \<Rightarrow> (None, m', k'))"
proof -
  have p: "\<exists>k'. message_parse_alloc al (m, k) = (None, message_parse m, k')" for m k
    using string_room_always [OF assms, of "cap_data k" "parse_capacity (prefix_length (msg_prefix m))"]
    by (auto simp: message_parse_alloc_def message_reserve_def message_parse_def split: option.splits)
  have a: "\<exists>k'. prefix_append al bs (m, k) = Some (m\<lparr>msg_prefix := msg_prefix m @ bs\<rparr>, k')"
    "\<exists>k'. data_append al bs (m, k) = Some (m\<lparr>msg_data := msg_data m @ bs\<rparr>, k')" for bs m k
    using string_room_always [OF assms] by (auto simp: prefix_append_def data_append_def split: option.splits)
  let ?n = "if 5 < length bs then 5 else length bs"
  let ?short = "length (msg_prefix m) < 5"
  let ?m1 = "if ?short then m\<lparr>msg_prefix := msg_prefix m @ take ?n bs\<rparr> else m"
  obtain k1 where "prefix_append al (take ?n bs) (m, k) = Some (m\<lparr>msg_prefix := msg_prefix m @ take ?n bs\<rparr>, k1)"
    using a(1) by blast
  moreover obtain k2 where "message_parse_alloc al (?m1, if ?short then k1 else k) = (None, message_parse ?m1, k2)"
    using p by blast
  moreover obtain k3 where "data_append al (drop (if ?short then ?n else 0) bs) (message_parse ?m1, k2) =
      Some ((message_parse ?m1)\<lparr>msg_data := msg_data (message_parse ?m1) @ drop (if ?short then ?n else 0) bs\<rparr>, k3)"
    using a(2) by blast
  ultimately show ?thesis
    by (cases ?short) (auto simp: message_read_alloc_def message_read_def Let_def)
qed

lemma request_read_alloc_always: "alloc_always al \<Longrightarrow> fst (request_read_alloc al bs (r, k)) = request_read bs r"
  using message_read_alloc_always [of al bs "req_msg r" k]
  by (auto simp: request_read_alloc_def request_read_def split: sum.splits)

section \<open>How much is reserved\<close>

lemma sign_length_bound:
  assumes "bit n 15 \<or> bit n 23"
  shows "2 ^ 32 - 2 ^ 23 \<le> unat (prefix_length (prefix_bytes n))"
proof -
  let ?u = "prefix_length (prefix_bytes n)"
  have m: "(0xFF800000 :: u32) = push_bit 23 (mask 9)" by (simp add: mask_eq_exp_minus_1 push_bit_eq_mult)
  have "?u = ?u OR 0xFF800000"
  proof (rule bit_word_eqI)
    fix i assume "i < LENGTH(32)"
    then have i: "i < 32" by simp
    have "23 \<le> i \<Longrightarrow> bit ?u i"
      using assms prefix_length_bits [OF i, of n] i by (cases "i = 23") (auto simp: min_def split: if_splits)
    then show "bit ?u i \<longleftrightarrow> bit (?u OR 0xFF800000) i"
      unfolding m by (auto simp: bit_or_iff bit_push_bit_iff bit_mask_iff)
  qed
  then have "0xFF800000 \<le> ?u" by (metis le_word_or1 or.commute)
  then show ?thesis by (simp add: word_le_nat_alt)
qed

lemma parse_capacity_cases:
  "parse_capacity len = (if unat len + 5 < 2 ^ 32 then unat len + 5 else unat len + 5 - 2 ^ 32)"
proof -
  have "unat (len + 5) = (unat len + 5) mod 2 ^ 32" by (simp add: unat_word_ariths)
  moreover have "unat len < 2 ^ 32" using unsigned_less [where 'a = nat and w = len] by simp
  ultimately show ?thesis by (simp add: parse_capacity_def mod_if)
qed

text \<open>The low 16 bits of the length are not touched by the sign extension.\<close>

lemma prefix_length_low: "unat (prefix_length (prefix_bytes n)) mod 65536 = unat n mod 65536"
proof -
  let ?u = "prefix_length (prefix_bytes n)"
  have "take_bit 16 ?u = take_bit 16 n"
  proof (rule bit_word_eqI)
    fix i assume "i < LENGTH(32)"
    then have "i < 32" by simp
    from prefix_length_bits [OF this, of n] show "bit (take_bit 16 ?u) i \<longleftrightarrow> bit (take_bit 16 n) i"
      by (cases "i = 15") (auto simp: bit_take_bit_iff min_def split: if_splits)
  qed
  then have "unat (take_bit 16 ?u) = unat (take_bit 16 n)" by simp
  then show ?thesis unfolding unsigned_take_bit_eq by (simp add: take_bit_eq_mod)
qed

lemma sign_length_top:
  assumes "bit n 15"
  shows "4294901760 \<le> unat (prefix_length (prefix_bytes n))"
proof -
  have "0xFFFF0000 \<le> prefix_length (prefix_bytes n)"
    unfolding prefix_length_prefix_bytes using assms by simp (metis le_word_or1 le_word_or2 or.assoc or.commute)
  then show ?thesis by (simp add: word_le_nat_alt)
qed

lemma low_bits_set:
  assumes "65531 \<le> unat n mod 65536"
  shows "bit (n :: u32) 15"
proof -
  have "unat n mod 65536 div 32768 = 1" using assms by (intro div_nat_eqI) simp_all
  then have "bit (take_bit 16 (unat n)) 15" by (simp add: take_bit_eq_mod bit_iff_odd)
  then show ?thesis by (simp add: bit_take_bit_iff bit_unsigned_iff)
qed

lemma top_words:
  assumes "4294901760 \<le> x" "x < (4294967296 :: nat)"
  shows "x = 4294901760 + x mod 65536"
proof -
  have "x div 65536 = 65535" using assms by (intro div_nat_eqI) simp_all
  then show ?thesis using div_mult_mod_eq [of x 65536] by simp
qed

lemma sign_capacity:
  assumes "bit n 15 \<or> bit n 23"
  shows "if unat n mod 65536 < 65531 then 2 ^ 32 - 2 ^ 23 \<le> parse_capacity (prefix_length (prefix_bytes n))
     else parse_capacity (prefix_length (prefix_bytes n)) < 5"
proof -
  let ?u = "unat (prefix_length (prefix_bytes n))"
  have u: "?u < 4294967296" "?u mod 65536 = unat n mod 65536"
    using unsigned_less [where 'a = nat and w = "prefix_length (prefix_bytes n)"] prefix_length_low by simp_all
  show ?thesis
  proof (cases "unat n mod 65536 < 65531")
    case True
    then have "?u + 5 < 4294967296" using top_words [of ?u] u by (cases "4294901760 \<le> ?u") linarith+
    then show ?thesis using True sign_length_bound [OF assms] by (simp add: parse_capacity_cases)
  next
    case False
    then have "4294967291 \<le> ?u" using top_words [of ?u] u sign_length_top [OF low_bits_set [of n]] by linarith
    then show ?thesis using False u by (simp add: parse_capacity_cases)
  qed
qed

text \<open>The first chunk of a message: what is reserved depends on the prefix in it only.\<close>

lemma message_read_alloc_prefix:
  assumes "5 \<le> al_sso al" "length p = 5"
  shows "message_read_alloc al p (message_default, capacities_new al) =
     (let (e, k) = message_reserve al (prefix_length p) (capacities_new al)
      in (e, message_parse (message_default\<lparr>msg_prefix := p\<rparr>), k))"
  using assms
  by (auto simp: message_read_alloc_def message_parse_alloc_def prefix_append_def string_room_def capacities_new_def
      message_default_def too_large_def Let_def split: prod.splits option.splits)

lemma request_read_alloc_refused:
  assumes "\<not> request_invalid r" "req_msg r = message_default" "length p = 5"
    and "fst (message_reserve al (prefix_length p) (capacities_new al)) \<noteq> None"
  shows "request_invalid (fst (request_read_alloc al (p @ d) (r, capacities_new al)))"
    and "req_id (fst (request_read_alloc al (p @ d) (r, capacities_new al))) = req_id r"
proof -
  have same: "message_reserve al l (k\<lparr>cap_prefix := c\<rparr>) =
      (fst (message_reserve al l k), (snd (message_reserve al l k))\<lparr>cap_prefix := c\<rparr>)" for l k c
    by (simp add: message_reserve_def split: option.splits)
  have "fst (message_read_alloc al (p @ d) (message_default, capacities_new al)) \<noteq> None"
    using assms(3,4)
    by (auto simp: message_read_alloc_def message_parse_alloc_def prefix_append_def message_default_def too_large_def
        Let_def same split: prod.splits option.splits)
  then show "request_invalid (fst (request_read_alloc al (p @ d) (r, capacities_new al)))"
    and "req_id (fst (request_read_alloc al (p @ d) (r, capacities_new al))) = req_id r"
    using assms(1,2) by (auto simp: request_read_alloc_def split: prod.splits option.splits)
qed

section \<open>Properties\<close>

text \<open>C25: the memory reserved for a message. Reading the five bytes of a prefix that announces \<open>n\<close> bytes, with
  a string type whose empty strings hold five bytes, stores the length as it is misread and then
  makes the data string grow to that length plus five, added with 32 bits, if it is not that large
  already: it asks the allocator once, and throws \<^verbatim>\<open>std::bad_alloc\<close> exactly when the allocator
  refuses. If neither bit 15 nor bit 23 of \<open>n\<close> is set that is the announced length plus five modulo
  \<open>2 ^ 32\<close>; otherwise the sign extension makes it almost four GiB at least, but for the lengths whose
  last 16 bits are among the five largest, with which the sum wraps around to less than five.\<close>

theorem reservation_bounds:
  assumes "5 \<le> al_sso al"
  shows "let w = n OR (if bit n 15 then 0xFFFF0000 else 0) OR (if bit n 23 then 0xFF000000 else 0);
         cap = unat (w + 5);
         new = al_capacity al (al_sso al) cap;
         k = capacities_new al;
         m = \<lparr>msg_compressed = 0, msg_length = Some w, msg_data = [], msg_prefix = prefix_bytes n\<rparr>
     in message_read_alloc al (prefix_bytes n) (message_default, k) =
          (if cap \<le> al_sso al then (None, m, k)
           else if al_gives al new then (None, m, k\<lparr>cap_data := new\<rparr>)
           else (Some Bad_alloc, m, k)) \<and>
        (if bit n 15 \<or> bit n 23 then if unat n mod 65536 < 65531 then 2 ^ 32 - 2 ^ 23 \<le> cap else cap < 5
         else cap = (unat n + 5) mod 2 ^ 32)"
proof -
  have m: "message_parse (message_default\<lparr>msg_prefix := prefix_bytes n\<rparr>) =
      \<lparr>msg_compressed = 0, msg_length = Some (prefix_length (prefix_bytes n)), msg_data = [], msg_prefix = prefix_bytes n\<rparr>"
    by (simp add: message_parse_def message_default_def prefix_bytes_def)
  have k: "cap_data (capacities_new al) = al_sso al" by (simp add: capacities_new_def)
  have "if bit n 15 \<or> bit n 23
     then if unat n mod 65536 < 65531 then 2 ^ 32 - 2 ^ 23 \<le> parse_capacity (prefix_length (prefix_bytes n))
          else parse_capacity (prefix_length (prefix_bytes n)) < 5
     else parse_capacity (prefix_length (prefix_bytes n)) = (unat n + 5) mod 2 ^ 32"
    (is "if ?b then ?x else ?y")
  proof (cases ?b)
    case True
    with sign_capacity show ?thesis by (simp only: if_True)
  next
    case False
    then show ?thesis by (simp add: prefix_length_exact parse_capacity_def unat_word_ariths)
  qed
  then show ?thesis
    unfolding Let_def prefix_length_prefix_bytes [symmetric] parse_capacity_def [symmetric]
    by (rule conjI [rotated])
      (simp add: message_read_alloc_prefix [OF assms length_prefix_bytes] message_reserve_def string_room_def m k)
qed

text \<open>libstdc++ at present: 15 bytes in the string itself, then doubling. A prefix that announces 32,768 bytes.\<close>

theorem reservation_bounds_witness:
  "fst (message_read_alloc \<lparr>al_sso = 15, al_capacity = \<lambda>c n. max n (2 * c), al_gives = \<lambda>c. c < 2 ^ 30\<rparr>
      (prefix_bytes 0x8000) (message_default, \<lparr>cap_prefix = 15, cap_data = 15\<rparr>)) = Some Bad_alloc"
proof -
  have "bit (0x8000 :: u32) 15" by simp
  with reservation_bounds [of "\<lparr>al_sso = 15, al_capacity = \<lambda>c n. max n (2 * c), al_gives = \<lambda>c. c < 2 ^ 30\<rparr>" "0x8000"]
  show ?thesis by (simp add: Let_def capacities_new_def)
qed

text \<open>C26: not enough memory. On a machine that cannot give a string \<open>limit\<close> bytes or more, \<open>limit\<close> being larger
  than an empty string's capacity and at most four GiB less eight MiB, a call whose first chunk
  holds a prefix that announces a length with bit 15 or 23 set is answered with
  \<^verbatim>\<open>invalid_argument\<close>, even if the message is a few bytes long. Lengths whose last 16 bits are among
  the five largest are excepted: for them nothing is reserved.\<close>

theorem out_of_memory_answer:
  assumes "\<not> request_invalid r" "req_msg r = message_default"
    and "bit n 15 \<or> bit n 23" "unat n mod 65536 < 65531"
    and "al_sso al < limit" "limit \<le> 2 ^ 32 - 2 ^ 23" "\<forall>c. limit \<le> c \<longrightarrow> \<not> al_gives al c"
    and "\<forall>c k. k \<le> al_capacity al c k"
  shows "server_process sb (fst (request_read_alloc al (prefix_bytes n @ d) (r, capacities_new al))) =
     Return (response_new (req_id r) Code_invalid_argument)"
proof -
  let ?c = "parse_capacity (prefix_length (prefix_bytes n))"
  have c: "limit \<le> ?c" using sign_capacity [OF assms(3)] assms(4,6) by simp
  moreover have "?c \<le> al_capacity al (al_sso al) ?c" using assms(8) by blast
  ultimately have "\<not> al_gives al (al_capacity al (al_sso al) ?c)" using assms(7) le_trans by blast
  then have "fst (message_reserve al (prefix_length (prefix_bytes n)) (capacities_new al)) \<noteq> None"
    using assms(5) c by (simp add: message_reserve_def string_room_def capacities_new_def)
  from request_read_alloc_refused [OF assms(1,2) length_prefix_bytes this, of d] show ?thesis
    by (simp add: server_process_def request_bool_def)
qed

theorem out_of_memory_answer_witness:
  "server_process server_base_new (fst (request_read_alloc
       \<lparr>al_sso = 15, al_capacity = \<lambda>c n. max n (2 * c), al_gives = \<lambda>c. c < 2 ^ 30\<rparr>
       (prefix_bytes 0x8000 @ [1]) (request_new 3, \<lparr>cap_prefix = 15, cap_data = 15\<rparr>))) =
     Return (response_new 3 Code_invalid_argument)"
proof -
  have "bit (0x8000 :: u32) 15" by simp
  then show ?thesis
    using out_of_memory_answer [where r = "request_new 3" and n = "0x8000" and limit = "2 ^ 30" and sb = server_base_new
        and al = "\<lparr>al_sso = 15, al_capacity = \<lambda>c n. max n (2 * c), al_gives = \<lambda>c. c < 2 ^ 30\<rparr>" and d = "[1]"]
    by (simp add: request_new_def request_invalid_def request_flag_def capacities_new_def)
qed

end
