(* ===== verification/Frames.thy ===== *)
theory Frames
  imports Scheduler
begin

text \<open>
  The frames of coroutines. What happens to the memory of a coroutine's frame is decided by its
  promise type: whether the coroutine starts suspended, whether it stays suspended at its end
  (otherwise the frame is freed there), and by the return object, whose destructor may destroy the
  frame. The three promise types of the program are \<^verbatim>\<open>uv::detail::coroutine\<close> (lib/grpcxx/uv/coroutine.h),
  \<^verbatim>\<open>uv::detail::task\<close> (lib/grpcxx/uv/task.h) and \<^verbatim>\<open>task\<close> of the experiment
  (.experiments/coroutines/task.h). A frame is a small machine in which every use that the language
  leaves undefined, such as resuming a finished coroutine or freeing a frame twice, is \<open>None\<close>.

  The scheduler moves the frames of tasks between threads. The lemmas show which of its steps use
  them in a defined way, that all do but one, the signal of a thread whose task the loop has already
  resumed and destroyed, and that no frame is left when the pool has nothing to do.
\<close>

section \<open>Promise types\<close>

datatype suspend = Suspend_never | Suspend_always

text \<open>\<open>pt_destroys\<close>: the destructor of the return object calls \<^verbatim>\<open>_h.destroy()\<close>.\<close>

record promise_type =
  pt_initial :: suspend
  pt_final :: suspend
  pt_destroys :: bool

definition coroutine_promise :: promise_type where
  "coroutine_promise = \<lparr>pt_initial = Suspend_never, pt_final = Suspend_never, pt_destroys = False\<rparr>"

text \<open>The awaiter of \<open>final_suspend\<close> is never ready, so a task stays suspended at its end.\<close>

definition task_promise :: promise_type where
  "task_promise = \<lparr>pt_initial = Suspend_always, pt_final = Suspend_always, pt_destroys = True\<rparr>"

definition x_task_promise :: promise_type where
  "x_task_promise = \<lparr>pt_initial = Suspend_never, pt_final = Suspend_never, pt_destroys = False\<rparr>"

section \<open>Frames\<close>

datatype frame = F_none | F_start | F_run | F_wait | F_final | F_freed

text \<open>The call of the coroutine, a resumption, a \<^verbatim>\<open>co_await\<close> that suspends, the end of the body, the end of
  the return object's life, and an access to what the frame holds: its promise, and the completion
  function \<^verbatim>\<open>_fn\<close> in the promise, with the \<^verbatim>\<open>this\<close> that the function has captured.\<close>

datatype frame_event = E_call | E_resume | E_await | E_return | E_drop | E_use

fun frame_step :: "promise_type \<Rightarrow> frame_event \<Rightarrow> frame \<Rightarrow> frame option" where
  "frame_step p E_call F_none = Some (case pt_initial p of Suspend_never \<Rightarrow> F_run | Suspend_always \<Rightarrow> F_start)"
| "frame_step p E_resume F_start = Some F_run"
| "frame_step p E_resume F_wait = Some F_run"
| "frame_step p E_await F_run = Some F_wait"
| "frame_step p E_return F_run = Some (case pt_final p of Suspend_never \<Rightarrow> F_freed | Suspend_always \<Rightarrow> F_final)"
| "frame_step p E_drop f =
     (if \<not> pt_destroys p then Some f else if f \<in> {F_start, F_wait, F_final} then Some F_freed else None)"
| "frame_step p E_use f = (if f \<in> {F_none, F_freed} then None else Some f)"
| "frame_step p _ _ = None"

fun frame_run :: "promise_type \<Rightarrow> frame_event list \<Rightarrow> frame \<Rightarrow> frame option" where
  "frame_run p [] f = Some f"
| "frame_run p (e # es) f = Option.bind (frame_step p e f) (frame_run p es)"

lemma frame_run_append: "frame_run p (es @ es') f = Option.bind (frame_run p es f) (frame_run p es')"
  by (induction es arbitrary: f) (auto split: bind_splits)

text \<open>A life in which the return object outlives the body: call, any number of suspensions, the end of the
  body, the destructor.\<close>

definition frame_life :: "promise_type \<Rightarrow> nat \<Rightarrow> frame_event list" where
  "frame_life p n =
     [E_call] @ (case pt_initial p of Suspend_never \<Rightarrow> [] | Suspend_always \<Rightarrow> [E_resume]) @
     concat (replicate n [E_await, E_resume]) @ [E_return, E_drop]"

lemma frame_run_suspensions: "frame_run p (concat (replicate n [E_await, E_resume])) F_run = Some F_run"
  by (induction n) simp_all

text \<open>The frame is freed, and freed once, exactly when the two parts of the type agree on who frees it.\<close>

lemma frame_life_freed:
  "frame_run p (frame_life p n) F_none = Some F_freed \<longleftrightarrow> (pt_destroys p \<longleftrightarrow> pt_final p = Suspend_always)"
  by (cases "pt_initial p"; cases "pt_final p")
    (simp_all add: frame_life_def frame_run_append frame_run_suspensions)

lemma promise_types_free:
  "frame_run coroutine_promise (frame_life coroutine_promise n) F_none = Some F_freed"
  "frame_run task_promise (frame_life task_promise n) F_none = Some F_freed"
  "frame_run x_task_promise (frame_life x_task_promise n) F_none = Some F_freed"
  by (simp_all add: frame_life_freed coroutine_promise_def task_promise_def x_task_promise_def)

text \<open>The return object of a detached coroutine may be dropped at any time.\<close>

lemma detached_drop: "\<not> pt_destroys p \<Longrightarrow> frame_step p E_drop f = Some f"
  by simp

section \<open>The frames of the scheduler's tasks\<close>

text \<open>Where the frame of the task \<open>h\<close> is in a state of the pool. The return object of \<^verbatim>\<open>_scheduler.run(fn)\<close> is a
  temporary of the awaiting expression: it goes when the awaiting coroutine is resumed.\<close>

definition task_frame :: "sched \<Rightarrow> coro \<Rightarrow> frame" where
  "task_frame s h =
     (if h \<notin> set (sc_submitted s) then F_none
      else if h \<in> set (sc_resumed s) then F_freed
      else if h \<in> set (sc_ran s) then F_final
      else if W_run h \<in> set (sc_threads s) then F_run
      else F_wait)"

text \<open>What a step of the pool does to the frame of \<open>h\<close>. \<^verbatim>\<open>on_complete\<close> (when there are threads) and \<^verbatim>\<open>co_await\<close> write
  to the promise, \<^verbatim>\<open>final_suspend\<close> reads it, and a thread that is in the completion function uses
  the function, which is stored there, for the push and for the signal.\<close>

definition frame_events :: "coro \<Rightarrow> action \<Rightarrow> sched \<Rightarrow> frame_event list" where
  "frame_events h a s =
     (case a of
        Do_await k \<Rightarrow>
          if k \<noteq> h then []
          else if sc_threads s = [] then [E_call, E_use, E_resume, E_return, E_use, E_drop]
          else [E_call, E_use, E_use, E_resume, E_await]
      | Do_pop i \<Rightarrow> if hd (sc_shifters s) = h then [E_resume] else []
      | Do_run i \<Rightarrow> if sc_threads s ! i = W_run h then [E_return, E_use] else []
      | Do_push i \<Rightarrow> if sc_threads s ! i = W_push h then [E_use] else []
      | Do_send i \<Rightarrow> if sc_threads s ! i = W_send h then [E_use] else []
      | Do_join \<Rightarrow> if take 1 (sc_joiners s) = [h] then [E_drop] else []
      | _ \<Rightarrow> [])"

fun frame_history :: "coro \<Rightarrow> action list \<Rightarrow> sched \<Rightarrow> frame_event list" where
  "frame_history h [] s = []"
| "frame_history h (a # as) s =
     frame_events h a s @ (case sched_step a s of None \<Rightarrow> [] | Some s' \<Rightarrow> frame_history h as s')"

text \<open>A thread signals the loop for \<open>h\<close> when the loop has already joined it: the awaiting coroutine went on, and
  the task is gone.\<close>

definition overtakes :: "coro \<Rightarrow> action \<Rightarrow> sched \<Rightarrow> bool" where
  "overtakes h a s =
     (case a of Do_send i \<Rightarrow> sc_threads s ! i = W_send h \<and> h \<in> set (sc_resumed s) | _ \<Rightarrow> False)"

fun overtaken :: "coro \<Rightarrow> action list \<Rightarrow> sched \<Rightarrow> bool" where
  "overtaken h [] s = False"
| "overtaken h (a # as) s =
     (overtakes h a s \<or> (case sched_step a s of None \<Rightarrow> False | Some s' \<Rightarrow> overtaken h as s'))"

section \<open>Lemmas\<close>

fun runs :: "worker \<Rightarrow> coro list" where
  "runs (W_run h) = [h]"
| "runs _ = []"

lemma held_split: "held holds ws = held runs ws + held finished ws"
proof (induction ws)
  case (Cons w ws)
  then show ?case by (cases w) (simp_all add: held_def)
qed (simp add: held_def)

lemma held_runs [simp]: "h \<in># held runs ws \<longleftrightarrow> W_run h \<in> set ws"
proof -
  have "h \<in> set (runs w) \<longleftrightarrow> w = W_run h" for w by (cases w) auto
  then show ?thesis by (auto simp: held_def)
qed

lemma held_finishes: "h \<in># held finished ws \<longleftrightarrow> W_push h \<in> set ws"
proof -
  have "h \<in> set (finished w) \<longleftrightarrow> w = W_push h" for w by (cases w) auto
  then show ?thesis by (auto simp: held_def)
qed

text \<open>Each awaited task is in one place only.\<close>

lemma inv_places:
  assumes "sched_inv s"
  shows "count (mset (sc_submitted s)) h =
       count (mset (sc_shifters s)) h + count (held runs (sc_threads s)) h + count (held finished (sc_threads s)) h +
       count (mset (sc_joiners s)) h + count (mset (sc_resumed s)) h"
    and "count (mset (sc_ran s)) h =
       count (held finished (sc_threads s)) h + count (mset (sc_joiners s)) h + count (mset (sc_resumed s)) h"
    and "count (mset (sc_submitted s)) h \<le> 1"
proof -
  have "mset (sc_submitted s) = mset (sc_shifters s) + held runs (sc_threads s) + held finished (sc_threads s) +
      mset (sc_joiners s) + mset (sc_resumed s)"
    and "mset (sc_ran s) = held finished (sc_threads s) + mset (sc_joiners s) + mset (sc_resumed s)"
    and "distinct (sc_submitted s)"
    using assms by (simp_all add: sched_inv_def held_split ac_simps)
  then show "count (mset (sc_submitted s)) h =
       count (mset (sc_shifters s)) h + count (held runs (sc_threads s)) h + count (held finished (sc_threads s)) h +
       count (mset (sc_joiners s)) h + count (mset (sc_resumed s)) h"
    and "count (mset (sc_ran s)) h =
       count (held finished (sc_threads s)) h + count (mset (sc_joiners s)) h + count (mset (sc_resumed s)) h"
    and "count (mset (sc_submitted s)) h \<le> 1"
    by (simp_all add: distinct_count_atmost_1)
qed

text \<open>What is known of a task that waits for a thread, runs, or waits to be joined.\<close>

lemma inv_place:
  assumes "sched_inv s"
  shows "h \<in> set (sc_shifters s) \<Longrightarrow>
      h \<in> set (sc_submitted s) \<and> h \<notin> set (sc_resumed s) \<and> h \<notin> set (sc_ran s) \<and> W_run h \<notin> set (sc_threads s)"
    and "W_run h \<in> set (sc_threads s) \<Longrightarrow> h \<in> set (sc_submitted s) \<and> h \<notin> set (sc_resumed s) \<and> h \<notin> set (sc_ran s)"
    and "h \<in> set (sc_joiners s) \<Longrightarrow> h \<in> set (sc_submitted s) \<and> h \<notin> set (sc_resumed s) \<and> h \<in> set (sc_ran s)"
    and "W_push h \<in> set (sc_threads s) \<Longrightarrow> h \<in> set (sc_submitted s) \<and> h \<notin> set (sc_resumed s) \<and> h \<in> set (sc_ran s)"
proof -
  have m: "x \<in> set xs \<longleftrightarrow> 0 < count (mset xs) x" "W_run x \<in> set ws \<longleftrightarrow> 0 < count (held runs ws) x"
    "W_push x \<in> set ws \<longleftrightarrow> 0 < count (held finished ws) x"
    for x :: coro and xs ws by (simp_all flip: held_runs held_finishes)
  note p = inv_places [OF assms, of h]
  show "h \<in> set (sc_shifters s) \<Longrightarrow>
      h \<in> set (sc_submitted s) \<and> h \<notin> set (sc_resumed s) \<and> h \<notin> set (sc_ran s) \<and> W_run h \<notin> set (sc_threads s)"
    using p unfolding m by (intro conjI) linarith+
  show "W_run h \<in> set (sc_threads s) \<Longrightarrow> h \<in> set (sc_submitted s) \<and> h \<notin> set (sc_resumed s) \<and> h \<notin> set (sc_ran s)"
    using p unfolding m by (intro conjI) linarith+
  show "h \<in> set (sc_joiners s) \<Longrightarrow> h \<in> set (sc_submitted s) \<and> h \<notin> set (sc_resumed s) \<and> h \<in> set (sc_ran s)"
    using p unfolding m by (intro conjI) linarith+
  show "W_push h \<in> set (sc_threads s) \<Longrightarrow> h \<in> set (sc_submitted s) \<and> h \<notin> set (sc_resumed s) \<and> h \<in> set (sc_ran s)"
    using p unfolding m by (intro conjI) linarith+
qed

text \<open>A task that a thread is about to signal was pushed.\<close>

definition sends_pushed :: "sched \<Rightarrow> bool" where
  "sends_pushed s \<longleftrightarrow> (\<forall>h. W_send h \<in> set (sc_threads s) \<longrightarrow> h \<in> set (sc_joiners s) \<union> set (sc_resumed s))"

lemma sends_pushed_new: "sends_pushed (scheduler_new n)"
  by (simp add: sends_pushed_def scheduler_new_def)

lemma sends_pushed_step:
  assumes "sends_pushed s" "sched_step a s = Some s'"
  shows "sends_pushed s'"
  using assms
  by (cases a) (auto simp: sends_pushed_def sched_step_def step_ops sched_defs dest!: set_updateD
    split: if_splits worker.splits list.splits option.splits)

lemma sent_places:
  assumes "sched_inv s" "sends_pushed s" "W_send h \<in> set (sc_threads s)"
  shows "h \<in> set (sc_submitted s)" "h \<in> set (sc_ran s)"
proof -
  have "0 < count (mset (sc_joiners s)) h + count (mset (sc_resumed s)) h"
    using assms(2,3) unfolding sends_pushed_def by auto
  with inv_places [OF assms(1), of h] have "0 < count (mset (sc_submitted s)) h" "0 < count (mset (sc_ran s)) h"
    by linarith+
  then show "h \<in> set (sc_submitted s)" "h \<in> set (sc_ran s)" by simp_all
qed

text \<open>A change of one thread keeps the frames of the tasks that it does not run.\<close>

lemma runs_update_other:
  assumes "i < length ws" "ws ! i \<noteq> W_run h" "w \<noteq> W_run h"
  shows "W_run h \<in> set (ws[i := w]) \<longleftrightarrow> W_run h \<in> set ws"
  using assms by (auto simp: in_set_conv_nth nth_list_update)

lemma task_frame_await:
  assumes "sched_inv s" "h \<notin> set (sc_submitted s)"
  shows "frame_run task_promise (frame_events k (Do_await h) s) (task_frame s k) =
    Some (task_frame (scheduler_await h s) k)"
proof -
  have "h \<notin> set (sc_resumed s)" "h \<notin> set (sc_ran s)" "W_run h \<notin> set (sc_threads s)"
    using assms inv_once [OF assms(1)] inv_place(2) [OF assms(1)] by auto
  then show ?thesis
    using assms(2) by (auto simp: frame_events_def task_frame_def task_promise_def sched_defs)
qed

lemma task_frame_pop:
  assumes "sched_inv s" "worker_pop i s = Some s'"
  shows "frame_run task_promise (frame_events k (Do_pop i) s) (task_frame s k) = Some (task_frame s' k)"
proof -
  from assms(2) obtain h hs where s: "sc_shifters s = h # hs" "i < length (sc_threads s)" "sc_threads s ! i = W_idle"
    and s': "s' = s\<lparr>sc_shifters := hs, sc_threads := (sc_threads s)[i := W_run h]\<rparr>"
    by (auto simp: worker_pop_def split: list.splits if_splits)
  show ?thesis
    using inv_place(1) [OF assms(1), of h] s
    by (auto simp: frame_events_def task_frame_def s' set_update_memI runs_update_other)
qed

lemma task_frame_run:
  assumes "sched_inv s" "worker_run i s = Some s'"
  shows "frame_run task_promise (frame_events k (Do_run i) s) (task_frame s k) = Some (task_frame s' k)"
proof -
  from assms(2) obtain h where i: "i < length (sc_threads s)" "sc_threads s ! i = W_run h"
    by (auto simp: worker_run_def split: if_splits worker.splits)
  then have h: "W_run h \<in> set (sc_threads s)" by (metis nth_mem)
  then have p: "pr_fn (sc_promise s h)" "pr_previous (sc_promise s h) = Some h"
    using assms(1) unfolding sched_inv_def by blast+
  have "s' = s\<lparr>sc_ran := sc_ran s @ [h], sc_promise := (sc_promise s)(h := (sc_promise s h)\<lparr>pr_done := True\<rparr>),
      sc_threads := (sc_threads s)[i := W_push h]\<rparr>"
    using assms(2) i p by (simp add: worker_run_def sched_defs)
  then show ?thesis
    using inv_place(2) [OF assms(1) h] i h
    by (auto simp: frame_events_def task_frame_def task_promise_def runs_update_other)
qed

lemma task_frame_join:
  assumes "sched_inv s" "join_pop s = Some s'"
  shows "frame_run task_promise (frame_events k Do_join s) (task_frame s k) = Some (task_frame s' k)"
proof (cases "sc_joiners s")
  case (Cons h hs)
  then show ?thesis
    using inv_place(3) [OF assms(1), of h] assms(2)
    by (auto simp: frame_events_def task_frame_def task_promise_def join_pop_def split: if_splits)
qed (use assms(2) in \<open>auto simp: frame_events_def task_frame_def join_pop_def split: if_splits\<close>)

text \<open>A thread that has pushed a task finds its frame at the end of its body, unless the loop was faster.\<close>

lemma task_frame_push:
  assumes "sched_inv s" "worker_push i s = Some s'"
  shows "frame_run task_promise (frame_events k (Do_push i) s) (task_frame s k) = Some (task_frame s' k)"
proof -
  from assms(2) obtain h where i: "i < length (sc_threads s)" "sc_threads s ! i = W_push h"
    and s': "s' = s\<lparr>sc_joiners := sc_joiners s @ [h], sc_threads := (sc_threads s)[i := W_send h]\<rparr>"
    by (auto simp: worker_push_def split: if_splits worker.splits)
  have "W_push h \<in> set (sc_threads s)" using i by (metis nth_mem)
  with inv_place(4) [OF assms(1), of h] i show ?thesis
    by (auto simp: frame_events_def task_frame_def s' runs_update_other)
qed

lemma task_frame_send:
  assumes "sched_inv s" "sends_pushed s" "worker_send i s = Some s'"
  shows "frame_run task_promise (frame_events k (Do_send i) s) (task_frame s k) =
    (if overtakes k (Do_send i) s then None else Some (task_frame s' k))"
proof -
  from assms(3) obtain h where i: "i < length (sc_threads s)" "sc_threads s ! i = W_send h"
    and s': "s' = s\<lparr>sc_async := True, sc_threads := (sc_threads s)[i := W_idle]\<rparr>"
    by (auto simp: worker_send_def split: if_splits worker.splits)
  have "W_send h \<in> set (sc_threads s)" using i by (metis nth_mem)
  with sent_places [OF assms(1,2), of h] i show ?thesis
    by (auto simp: frame_events_def overtakes_def task_frame_def s' runs_update_other)
qed

text \<open>What a step of the pool does to a frame is defined, but for the signal of a task that was overtaken.\<close>

lemma task_frame_step:
  assumes "sched_inv s" "sends_pushed s" "sched_step a s = Some s'"
  shows "frame_run task_promise (frame_events k a s) (task_frame s k) =
    (if overtakes k a s then None else Some (task_frame s' k))"
proof (cases a)
  case (Do_await h)
  with assms task_frame_await [of s h] show ?thesis by (auto simp: sched_step_def overtakes_def split: if_splits)
next
  case (Do_pop i)
  with assms task_frame_pop show ?thesis by (simp add: sched_step_def overtakes_def)
next
  case (Do_run i)
  with assms task_frame_run show ?thesis by (simp add: sched_step_def overtakes_def)
next
  case (Do_push i)
  with assms task_frame_push show ?thesis by (simp add: sched_step_def overtakes_def)
next
  case (Do_send i)
  with assms task_frame_send show ?thesis by (simp add: sched_step_def)
next
  case Do_join
  with assms task_frame_join show ?thesis by (simp add: sched_step_def overtakes_def)
qed (use assms(3) in \<open>auto simp: sched_step_def step_ops frame_events_def overtakes_def task_frame_def runs_update_other
  split: if_splits worker.splits\<close>)

lemma task_frame_history:
  assumes "sched_inv s" "sends_pushed s" "sched_run as s = Some s'"
  shows "frame_run task_promise (frame_history k as s) (task_frame s k) =
    (if overtaken k as s then None else Some (task_frame s' k))"
  using assms
proof (induction as arbitrary: s)
  case (Cons a as)
  then obtain t where t: "sched_step a s = Some t" "sched_run as t = Some s'"
    by (auto split: option.splits)
  have "sched_inv t" "sends_pushed t"
    by (rule scheduler.step_good [OF Cons.prems(1) t(1)], rule sends_pushed_step [OF Cons.prems(2) t(1)])
  with Cons.IH t(2) task_frame_step [OF Cons.prems(1,2) t(1), of k] t(1) show ?case
    by (simp add: frame_run_append)
qed simp

lemma quiescent_frames:
  assumes "reachable n s" "quiescent s" "\<not> sc_stop s"
  shows "task_frame s h = F_none \<or> task_frame s h = F_freed"
proof (cases "n = 0")
  case True
  then show ?thesis using reachable_inline assms(1) by (auto simp: task_frame_def)
next
  case False
  then have "mset (sc_resumed s) = mset (sc_submitted s)"
    using quiescent_done [OF reachable_inv [OF assms(1)]] assms reachable_threads [OF assms(1)] by auto
  then have "set (sc_resumed s) = set (sc_submitted s)" by (rule mset_eq_setD)
  then show ?thesis by (simp add: task_frame_def)
qed

section \<open>Properties\<close>

text \<open>C24: the frames of tasks. In every run of the pool, with any number of threads and in any order of
  their steps, what happens to the frame of a task is defined, with one exception: it is resumed
  only while it is suspended before its end, it ends once, it is freed once, after its end, and
  nobody reads or writes it, or runs the completion function stored in it, before it exists or
  after it is freed. The exception is exactly a thread that signals the loop for a task that the
  loop has already resumed: the completion function it is executing was freed with the task. When
  no thread can move and the pool is not stopped, no frame is left.\<close>

theorem task_frames_managed:
  assumes "sched_run as (scheduler_new n) = Some s"
  shows "frame_run task_promise (frame_history h as (scheduler_new n)) F_none =
       (if overtaken h as (scheduler_new n) then None else Some (task_frame s h)) \<and>
     (quiescent s \<and> \<not> sc_stop s \<longrightarrow> task_frame s h = F_none \<or> task_frame s h = F_freed)"
proof -
  have "task_frame (scheduler_new n) h = F_none" by (simp add: task_frame_def scheduler_new_def)
  with task_frame_history [OF sched_inv_new sends_pushed_new assms, of h] quiescent_frames [OF sched_run_reachable [OF reach_new assms]]
  show ?thesis by simp
qed

text \<open>One thread and two tasks. The first is used in a defined way; the second is pushed while the loop is still
  joining, and signalled when it is gone.\<close>

theorem task_frames_managed_witness:
  "let as = [Do_await 1, Do_await 2, Do_pop 0, Do_run 0, Do_push 0, Do_send 0, Do_async, Do_join,
        Do_pop 0, Do_run 0, Do_push 0, Do_join, Do_send 0]
   in sched_run as (scheduler_new 1) \<noteq> None \<and>
     frame_history 1 as (scheduler_new 1) =
       [E_call, E_use, E_use, E_resume, E_await, E_resume, E_return, E_use, E_use, E_use, E_drop] \<and>
     frame_run task_promise (frame_history 1 as (scheduler_new 1)) F_none = Some F_freed \<and>
     frame_run task_promise (frame_history 2 as (scheduler_new 1)) F_none = None"
proof -
  let ?as = "[Do_await 1, Do_await 2, Do_pop 0, Do_run 0, Do_push 0, Do_send 0, Do_async, Do_join,
        Do_pop 0, Do_run 0, Do_push 0, Do_join, Do_send 0]"
  note ops = frame_events_def sched_step_def scheduler_new_def sched_defs worker_pop_def worker_run_def worker_push_def
    worker_send_def async_cb_def join_pop_def
  obtain s where s: "sched_run ?as (scheduler_new 1) = Some s" "sc_submitted s = [1, 2]" "sc_resumed s = [1, 2]"
    by (simp add: ops)
  have "frame_history 1 ?as (scheduler_new 1) =
      [E_call, E_use, E_use, E_resume, E_await, E_resume, E_return, E_use, E_use, E_use, E_drop]"
    "\<not> overtaken 1 ?as (scheduler_new 1)" "overtaken 2 ?as (scheduler_new 1)"
    by (simp_all add: ops overtakes_def)
  with task_frames_managed [OF s(1), of 1] task_frames_managed [OF s(1), of 2] s show ?thesis
    by (simp add: task_frame_def)
qed

end
