(* ===== verification/Locking.thy ===== *)
theory Locking
  imports Scheduler
begin

text \<open>
  The scheduler with its mutexes (lib/grpcxx/uv/scheduler.h, scheduler.cpp). The theory \<open>Scheduler\<close> takes each
  critical section as one step. Here the steps are the statements: a thread of the pool and the
  thread of the libuv loop stand at a place in the code, a lock that is taken stops the others, and
  the queues change in the middle of the sections. A forward simulation shows that nothing else can
  happen than in \<open>Scheduler\<close>, so the coarse steps are justified by the locks and not by fiat.

  Two places touch shared data without a lock: \<^verbatim>\<open>join\<close> tests \<^verbatim>\<open>_joiners.empty()\<close>, and the destructor
  writes \<^verbatim>\<open>_stop\<close>, a plain \<^verbatim>\<open>bool\<close>. Their values are read here as if the accesses were atomic.
\<close>

section \<open>State\<close>

text \<open>Where a thread of the pool is, in \<open>loop\<close>, in \<open>wrap\<close> and in the completion function of \<open>run\<close>.\<close>

datatype place =
    At_head | At_lock | At_check | At_wait | At_stop | At_front | At_pop coro | At_unlock coro | At_run coro
  | At_jlock coro | At_jpush coro | At_junlock coro | At_send coro | At_gone

text \<open>Where the thread of the loop is: at the head of \<open>join\<close> or elsewhere in the loop, in \<open>enqueue\<close>, or inside the
  body of \<open>join\<close>.\<close>

datatype main_place =
    Main_ready | Main_enq coro | Main_push coro | Main_unlock
  | Main_jlock | Main_front | Main_pop coro | Main_junlock coro | Main_resume coro

datatype agent = Loop_thread | Pool_thread nat

record locked =
  lk_stop :: bool
  lk_pc :: "place list"
  lk_main :: main_place
  lk_joining :: bool
  lk_shifters :: "coro list"
  lk_shifters_mutex :: "agent option"
  lk_joiners :: "coro list"
  lk_joiners_mutex :: "agent option"
  lk_async :: bool
  lk_promise :: "coro \<Rightarrow> promise"
  lk_submitted :: "coro list"
  lk_ran :: "coro list"
  lk_resumed :: "coro list"

definition locked_new :: "nat \<Rightarrow> locked" where
  "locked_new n =
     \<lparr>lk_stop = False, lk_pc = replicate n At_head, lk_main = Main_ready, lk_joining = False, lk_shifters = [],
      lk_shifters_mutex = None, lk_joiners = [], lk_joiners_mutex = None, lk_async = False,
      lk_promise = (\<lambda>_. task_new), lk_submitted = [], lk_ran = [], lk_resumed = []\<rparr>"

section \<open>The threads of the pool\<close>

definition goto :: "nat \<Rightarrow> place \<Rightarrow> locked \<Rightarrow> locked" where
  "goto i pc s = s\<lparr>lk_pc := (lk_pc s)[i := pc]\<rparr>"

text \<open>\<open>loop\<close> up to the call of the coroutine. The wait releases the lock and has it again when it returns; leaving
  the scope of the lock releases it.\<close>

definition loop_step :: "nat \<Rightarrow> place \<Rightarrow> locked \<Rightarrow> locked option" where
  "loop_step i pc s =
     (case pc of
        At_head \<Rightarrow> Some (goto i (if lk_stop s then At_gone else At_lock) s)
      | At_lock \<Rightarrow>
          if lk_shifters_mutex s = None
          then Some (goto i At_check (s\<lparr>lk_shifters_mutex := Some (Pool_thread i)\<rparr>)) else None
      | At_check \<Rightarrow>
          Some (if \<not> lk_stop s \<and> lk_shifters s = [] then goto i At_wait (s\<lparr>lk_shifters_mutex := None\<rparr>)
                else goto i At_stop s)
      | At_wait \<Rightarrow>
          if lk_shifters_mutex s = None
          then Some (goto i At_check (s\<lparr>lk_shifters_mutex := Some (Pool_thread i)\<rparr>)) else None
      | At_stop \<Rightarrow>
          Some (if lk_stop s then goto i At_gone (s\<lparr>lk_shifters_mutex := None\<rparr>) else goto i At_front s)
      | At_front \<Rightarrow> Some (goto i (At_pop (hd (lk_shifters s))) s)
      | At_pop h \<Rightarrow> Some (goto i (At_unlock h) (s\<lparr>lk_shifters := tl (lk_shifters s)\<rparr>))
      | At_unlock h \<Rightarrow> Some (goto i (At_run h) (s\<lparr>lk_shifters_mutex := None\<rparr>))
      | _ \<Rightarrow> None)"

text \<open>The function of \<open>wrap\<close> and the end of the task's coroutine.\<close>

definition run_step :: "nat \<Rightarrow> coro \<Rightarrow> locked \<Rightarrow> locked" where
  "run_step i h s =
     (let (act, p) = task_final_suspend (lk_promise s h);
          s1 = s\<lparr>lk_ran := lk_ran s @ [h], lk_promise := (lk_promise s)(h := p)\<rparr>
      in case act of
           Final_noop \<Rightarrow> goto i At_head s1
         | Final_resume k \<Rightarrow> goto i At_head (s1\<lparr>lk_resumed := lk_resumed s1 @ [k]\<rparr>)
         | Final_call k \<Rightarrow> goto i (At_jlock k) s1)"

text \<open>The completion function of \<open>run\<close>.\<close>

definition complete_step :: "nat \<Rightarrow> place \<Rightarrow> locked \<Rightarrow> locked option" where
  "complete_step i pc s =
     (case pc of
        At_jlock h \<Rightarrow>
          if lk_joiners_mutex s = None
          then Some (goto i (At_jpush h) (s\<lparr>lk_joiners_mutex := Some (Pool_thread i)\<rparr>)) else None
      | At_jpush h \<Rightarrow> Some (goto i (At_junlock h) (s\<lparr>lk_joiners := lk_joiners s @ [h]\<rparr>))
      | At_junlock h \<Rightarrow> Some (goto i (At_send h) (s\<lparr>lk_joiners_mutex := None\<rparr>))
      | At_send h \<Rightarrow> Some (goto i At_head (s\<lparr>lk_async := True\<rparr>))
      | _ \<Rightarrow> None)"

definition thread_step :: "nat \<Rightarrow> locked \<Rightarrow> locked option" where
  "thread_step i s =
     (if i < length (lk_pc s)
      then case lk_pc s ! i of
             At_run h \<Rightarrow> Some (run_step i h s)
           | At_jlock h \<Rightarrow> complete_step i (At_jlock h) s
           | At_jpush h \<Rightarrow> complete_step i (At_jpush h) s
           | At_junlock h \<Rightarrow> complete_step i (At_junlock h) s
           | At_send h \<Rightarrow> complete_step i (At_send h) s
           | pc \<Rightarrow> loop_step i pc s
      else None)"

section \<open>The thread of the loop\<close>

text \<open>\<^verbatim>\<open>co_await _scheduler.run(fn)\<close> in the coroutine \<open>h\<close>, up to the lock of \<open>enqueue\<close>; without threads the function
  runs at once.\<close>

definition await_step :: "coro \<Rightarrow> locked \<Rightarrow> locked option" where
  "await_step h s =
     (if lk_main s \<noteq> Main_ready \<or> h \<in> set (lk_submitted s) then None
      else
        let t = (if lk_pc s = [] then task_new else task_on_complete task_new);
            (ready, p) = task_await h t;
            s1 = s\<lparr>lk_promise := (lk_promise s)(h := p), lk_submitted := lk_submitted s @ [h]\<rparr>
        in if lk_pc s \<noteq> [] then Some (s1\<lparr>lk_main := Main_enq h\<rparr>)
           else let (act, p') = task_final_suspend p;
                    s2 = s1\<lparr>lk_ran := lk_ran s1 @ [h], lk_promise := (lk_promise s1)(h := p')\<rparr>
                in Some (case act of Final_resume k \<Rightarrow> s2\<lparr>lk_resumed := lk_resumed s2 @ [k]\<rparr> | _ \<Rightarrow> s2))"

definition enqueue_step :: "main_place \<Rightarrow> locked \<Rightarrow> locked option" where
  "enqueue_step pc s =
     (case pc of
        Main_enq h \<Rightarrow>
          if lk_shifters_mutex s = None
          then Some (s\<lparr>lk_shifters_mutex := Some Loop_thread, lk_main := Main_push h\<rparr>) else None
      | Main_push h \<Rightarrow> Some (s\<lparr>lk_shifters := lk_shifters s @ [h], lk_main := Main_unlock\<rparr>)
      | Main_unlock \<Rightarrow> Some (s\<lparr>lk_shifters_mutex := None, lk_main := Main_ready\<rparr>)
      | _ \<Rightarrow> None)"

text \<open>\<open>join\<close>: the test of the loop without a lock, then front and pop under it, then the call.\<close>

definition join_step :: "main_place \<Rightarrow> locked \<Rightarrow> locked option" where
  "join_step pc s =
     (case pc of
        Main_ready \<Rightarrow>
          if \<not> lk_joining s then None
          else Some (if lk_joiners s = [] then s\<lparr>lk_joining := False\<rparr> else s\<lparr>lk_main := Main_jlock\<rparr>)
      | Main_jlock \<Rightarrow>
          if lk_joiners_mutex s = None
          then Some (s\<lparr>lk_joiners_mutex := Some Loop_thread, lk_main := Main_front\<rparr>) else None
      | Main_front \<Rightarrow> Some (s\<lparr>lk_main := Main_pop (hd (lk_joiners s))\<rparr>)
      | Main_pop h \<Rightarrow> Some (s\<lparr>lk_joiners := tl (lk_joiners s), lk_main := Main_junlock h\<rparr>)
      | Main_junlock h \<Rightarrow> Some (s\<lparr>lk_joiners_mutex := None, lk_main := Main_resume h\<rparr>)
      | Main_resume h \<Rightarrow> Some (s\<lparr>lk_resumed := lk_resumed s @ [h], lk_main := Main_ready\<rparr>)
      | _ \<Rightarrow> None)"

definition main_step :: "locked \<Rightarrow> locked option" where
  "main_step s =
     (case lk_main s of
        Main_enq h \<Rightarrow> enqueue_step (Main_enq h) s
      | Main_push h \<Rightarrow> enqueue_step (Main_push h) s
      | Main_unlock \<Rightarrow> enqueue_step Main_unlock s
      | pc \<Rightarrow> join_step pc s)"

text \<open>libuv calls the async callback, which calls \<open>join\<close>; the destructor's first statement.\<close>

definition async_step :: "locked \<Rightarrow> locked option" where
  "async_step s =
     (if lk_main s = Main_ready \<and> lk_async s \<and> \<not> lk_joining s
      then Some (s\<lparr>lk_async := False, lk_joining := True\<rparr>) else None)"

definition stop_step :: "locked \<Rightarrow> locked option" where
  "stop_step s = (if lk_main s = Main_ready \<and> \<not> lk_joining s then Some (s\<lparr>lk_stop := True\<rparr>) else None)"

section \<open>Steps\<close>

datatype lock_action = Lk_thread nat | Lk_main | Lk_await coro | Lk_async | Lk_stop

fun locked_step :: "lock_action \<Rightarrow> locked \<Rightarrow> locked option" where
  "locked_step (Lk_thread i) s = thread_step i s"
| "locked_step Lk_main s = main_step s"
| "locked_step (Lk_await h) s = await_step h s"
| "locked_step Lk_async s = async_step s"
| "locked_step Lk_stop s = stop_step s"

inductive locked_reachable :: "nat \<Rightarrow> locked \<Rightarrow> bool" for n where
  lk_new: "locked_reachable n (locked_new n)"
| lk_step: "locked_reachable n s \<Longrightarrow> locked_step a s = Some s' \<Longrightarrow> locked_reachable n s'"

fun locked_run :: "lock_action list \<Rightarrow> locked \<Rightarrow> locked option" where
  "locked_run [] s = Some s"
| "locked_run (a # as) s = (case locked_step a s of None \<Rightarrow> None | Some s' \<Rightarrow> locked_run as s')"

lemma locked_run_reachable: "locked_reachable n s \<Longrightarrow> locked_run as s = Some s' \<Longrightarrow> locked_reachable n s'"
  by (induction as arbitrary: s) (auto split: option.splits intro: lk_step)

lemmas locked_ops = goto_def loop_step_def run_step_def complete_step_def thread_step_def await_step_def
  enqueue_step_def join_step_def main_step_def async_step_def stop_step_def

section \<open>Invariant\<close>

text \<open>The places between taking a mutex and releasing it.\<close>

fun in_shifters :: "place \<Rightarrow> bool" where
  "in_shifters At_check = True"
| "in_shifters At_stop = True"
| "in_shifters At_front = True"
| "in_shifters (At_pop h) = True"
| "in_shifters (At_unlock h) = True"
| "in_shifters _ = False"

fun in_joiners :: "place \<Rightarrow> bool" where
  "in_joiners (At_jpush h) = True"
| "in_joiners (At_junlock h) = True"
| "in_joiners _ = False"

fun main_shifters :: "main_place \<Rightarrow> bool" where
  "main_shifters (Main_push h) = True"
| "main_shifters Main_unlock = True"
| "main_shifters _ = False"

fun main_joiners :: "main_place \<Rightarrow> bool" where
  "main_joiners Main_front = True"
| "main_joiners (Main_pop h) = True"
| "main_joiners (Main_junlock h) = True"
| "main_joiners _ = False"

text \<open>A mutex is owned by exactly the thread that is inside its sections.\<close>

definition inside :: "(place \<Rightarrow> bool) \<Rightarrow> (main_place \<Rightarrow> bool) \<Rightarrow> place list \<Rightarrow> main_place \<Rightarrow> agent \<Rightarrow> bool" where
  "inside P M pcs mp a =
     (case a of Loop_thread \<Rightarrow> M mp | Pool_thread i \<Rightarrow> i < length pcs \<and> P (pcs ! i))"

definition mutex_ok ::
  "(place \<Rightarrow> bool) \<Rightarrow> (main_place \<Rightarrow> bool) \<Rightarrow> agent option \<Rightarrow> place list \<Rightarrow> main_place \<Rightarrow> bool" where
  "mutex_ok P M m pcs mp \<longleftrightarrow> (\<forall>a. m = Some a \<longleftrightarrow> inside P M pcs mp a)"

text \<open>What a thread has learned about a queue and still holds because of the lock, or, for the test without a
  lock in \<open>join\<close>, because no other thread removes from \<open>_joiners\<close>.\<close>

definition knows :: "locked \<Rightarrow> place \<Rightarrow> bool" where
  "knows s pc =
     (case pc of
        At_stop \<Rightarrow> lk_stop s \<or> lk_shifters s \<noteq> []
      | At_front \<Rightarrow> lk_shifters s \<noteq> []
      | At_pop h \<Rightarrow> lk_shifters s \<noteq> [] \<and> hd (lk_shifters s) = h
      | At_gone \<Rightarrow> lk_stop s
      | _ \<Rightarrow> True)"

definition main_knows :: "locked \<Rightarrow> bool" where
  "main_knows s =
     (case lk_main s of
        Main_jlock \<Rightarrow> lk_joining s \<and> lk_joiners s \<noteq> []
      | Main_front \<Rightarrow> lk_joining s \<and> lk_joiners s \<noteq> []
      | Main_pop h \<Rightarrow> lk_joining s \<and> lk_joiners s \<noteq> [] \<and> hd (lk_joiners s) = h
      | Main_junlock h \<Rightarrow> lk_joining s
      | Main_resume h \<Rightarrow> lk_joining s
      | _ \<Rightarrow> True)"

definition locked_inv :: "locked \<Rightarrow> bool" where
  "locked_inv s \<longleftrightarrow>
     mutex_ok in_shifters main_shifters (lk_shifters_mutex s) (lk_pc s) (lk_main s) \<and>
     mutex_ok in_joiners main_joiners (lk_joiners_mutex s) (lk_pc s) (lk_main s) \<and>
     (\<forall>i < length (lk_pc s). knows s (lk_pc s ! i)) \<and> main_knows s"

lemma locked_inv_new: "locked_inv (locked_new n)"
  by (auto simp: locked_inv_def locked_new_def mutex_ok_def inside_def knows_def main_knows_def split: agent.split)

text \<open>The ways in which a step of a thread may move it.\<close>

lemma inside_update:
  "i < length pcs \<Longrightarrow> inside P M (pcs[i := pc]) mp a = (if a = Pool_thread i then P pc else inside P M pcs mp a)"
  by (cases a) (auto simp: inside_def)

lemma inside_main: "inside P M pcs mp' a = (if a = Loop_thread then M mp' else inside P M pcs mp a)"
  by (cases a) (auto simp: inside_def)

lemma mutex_thread:
  assumes "mutex_ok P M m pcs mp" "i < length pcs"
  shows "P pc = P (pcs ! i) \<Longrightarrow> mutex_ok P M m (pcs[i := pc]) mp"
    and "m = None \<Longrightarrow> P pc \<Longrightarrow> mutex_ok P M (Some (Pool_thread i)) (pcs[i := pc]) mp"
    and "P (pcs ! i) \<Longrightarrow> \<not> P pc \<Longrightarrow> mutex_ok P M None (pcs[i := pc]) mp"
proof -
  have i: "inside P M pcs mp (Pool_thread i) = P (pcs ! i)" using assms(2) by (simp add: inside_def)
  show "P pc = P (pcs ! i) \<Longrightarrow> mutex_ok P M m (pcs[i := pc]) mp"
    using assms i by (auto simp: mutex_ok_def inside_update)
  show "m = None \<Longrightarrow> P pc \<Longrightarrow> mutex_ok P M (Some (Pool_thread i)) (pcs[i := pc]) mp"
    using assms by (auto simp: mutex_ok_def inside_update)
  assume P: "P (pcs ! i)" "\<not> P pc"
  then have "m = Some (Pool_thread i)" using assms(1) i by (simp add: mutex_ok_def)
  then have "inside P M pcs mp a \<longleftrightarrow> a = Pool_thread i" for a
    using assms(1) unfolding mutex_ok_def by (metis option.inject)
  then show "mutex_ok P M None (pcs[i := pc]) mp" using assms(2) P(2) by (simp add: mutex_ok_def inside_update)
qed

lemma mutex_main:
  assumes "mutex_ok P M m pcs mp"
  shows "M mp' = M mp \<Longrightarrow> mutex_ok P M m pcs mp'"
    and "m = None \<Longrightarrow> M mp' \<Longrightarrow> mutex_ok P M (Some Loop_thread) pcs mp'"
    and "M mp \<Longrightarrow> \<not> M mp' \<Longrightarrow> mutex_ok P M None pcs mp'"
proof -
  have i: "inside P M pcs mp Loop_thread = M mp" by (simp add: inside_def)
  note upd = inside_main [of P M pcs mp' _ mp]
  show "M mp' = M mp \<Longrightarrow> mutex_ok P M m pcs mp'"
    using assms i by (auto simp: mutex_ok_def upd)
  show "m = None \<Longrightarrow> M mp' \<Longrightarrow> mutex_ok P M (Some Loop_thread) pcs mp'"
    using assms by (auto simp: mutex_ok_def upd)
  assume M: "M mp" "\<not> M mp'"
  then have "m = Some Loop_thread" using assms i by (simp add: mutex_ok_def)
  then have "inside P M pcs mp a \<longleftrightarrow> a = Loop_thread" for a
    using assms unfolding mutex_ok_def by (metis option.inject)
  then show "mutex_ok P M None pcs mp'" using M(2) by (simp add: mutex_ok_def upd)
qed

lemma mutex_inside: "mutex_ok P M m pcs mp \<Longrightarrow> m = Some a \<Longrightarrow> inside P M pcs mp a"
  unfolding mutex_ok_def by blast

lemma mutex_excludes:
  assumes "mutex_ok P M m pcs mp"
  shows "i < length pcs \<Longrightarrow> P (pcs ! i) \<Longrightarrow> m = Some (Pool_thread i)"
    and "M mp \<Longrightarrow> m = Some Loop_thread"
  using assms by (auto simp: mutex_ok_def inside_def)

lemma thread_mutexes:
  assumes "thread_step i s = Some s'"
    and "mutex_ok in_shifters main_shifters (lk_shifters_mutex s) (lk_pc s) (lk_main s)"
    and "mutex_ok in_joiners main_joiners (lk_joiners_mutex s) (lk_pc s) (lk_main s)"
  shows "mutex_ok in_shifters main_shifters (lk_shifters_mutex s') (lk_pc s') (lk_main s') \<and>
    mutex_ok in_joiners main_joiners (lk_joiners_mutex s') (lk_pc s') (lk_main s')"
proof -
  have i: "i < length (lk_pc s)" using assms(1) by (simp add: thread_step_def split: if_splits)
  note S = mutex_thread [OF assms(2) i] and J = mutex_thread [OF assms(3) i]
  show ?thesis
    using assms(1) i
    by (cases "lk_pc s ! i")
      (auto simp: thread_step_def loop_step_def run_step_def complete_step_def goto_def Let_def S J
        split: if_splits prod.splits final_action.splits)
qed

lemma main_mutexes:
  assumes "locked_step a s = Some s'" "\<And>i. a \<noteq> Lk_thread i"
    and "mutex_ok in_shifters main_shifters (lk_shifters_mutex s) (lk_pc s) (lk_main s)"
    and "mutex_ok in_joiners main_joiners (lk_joiners_mutex s) (lk_pc s) (lk_main s)"
  shows "mutex_ok in_shifters main_shifters (lk_shifters_mutex s') (lk_pc s') (lk_main s') \<and>
    mutex_ok in_joiners main_joiners (lk_joiners_mutex s') (lk_pc s') (lk_main s')"
proof -
  note S = mutex_main [OF assms(3)] and J = mutex_main [OF assms(4)]
  show ?thesis
    using assms(1,2) S J assms(3,4)
    by (cases a; cases "lk_main s")
      (auto simp: main_step_def await_step_def enqueue_step_def join_step_def async_step_def stop_step_def Let_def
        split: if_splits prod.splits final_action.splits)
qed

lemma mutex_alone:
  assumes "mutex_ok P M m pcs mp" "i < length pcs" "P (pcs ! i)"
  shows "j < length pcs \<Longrightarrow> P (pcs ! j) \<Longrightarrow> j = i" and "\<not> M mp"
proof -
  have m: "m = Some (Pool_thread i)" by (rule mutex_excludes(1) [OF assms])
  show "j = i" if "j < length pcs" "P (pcs ! j)" using mutex_excludes(1) [OF assms(1) that] m by simp
  show "\<not> M mp" using mutex_excludes(2) [OF assms(1)] m by auto
qed

lemma knows_mono:
  assumes "knows s pc" "lk_stop s \<longrightarrow> lk_stop s'" "\<exists>xs. lk_shifters s' = lk_shifters s @ xs"
  shows "knows s' pc"
  using assms by (auto simp: knows_def split: place.splits)

lemma knows_outside: "\<not> in_shifters pc \<Longrightarrow> knows s pc \<longleftrightarrow> (pc = At_gone \<longrightarrow> lk_stop s)"
  by (cases pc) (simp_all add: knows_def)

text \<open>A step of a pool thread changes \<open>_shifters\<close> in one place only, where it holds the lock.\<close>

lemma thread_step_fields:
  assumes "thread_step i s = Some s'"
  shows "lk_stop s' = lk_stop s" "lk_main s' = lk_main s \<and> lk_joining s' = lk_joining s" "\<exists>pc. lk_pc s' = (lk_pc s)[i := pc]"
    and "(\<And>h. lk_pc s ! i \<noteq> At_pop h) \<Longrightarrow> lk_shifters s' = lk_shifters s"
    and "\<exists>hs. lk_joiners s' = lk_joiners s @ hs"
  using assms
  by (auto simp: thread_step_def loop_step_def run_step_def complete_step_def goto_def Let_def
      split: if_splits place.splits prod.splits final_action.splits)

lemma thread_knows_self:
  assumes "locked_inv s" "thread_step i s = Some s'" "i < length (lk_pc s)"
  shows "knows s' (lk_pc s' ! i)"
proof -
  have "knows s (lk_pc s ! i)" using assms(1,3) by (simp add: locked_inv_def)
  then show ?thesis
    using assms(2,3)
    by (cases "lk_pc s ! i")
      (auto simp: thread_step_def loop_step_def run_step_def complete_step_def goto_def Let_def knows_def
        split: if_splits prod.splits final_action.splits)
qed

lemma thread_knows:
  assumes "locked_inv s" "thread_step i s = Some s'"
  shows "\<forall>j < length (lk_pc s'). knows s' (lk_pc s' ! j)"
proof (intro allI impI)
  fix j
  assume "j < length (lk_pc s')"
  obtain pc where pc: "lk_pc s' = (lk_pc s)[i := pc]" using thread_step_fields(3) [OF assms(2)] by blast
  have i: "i < length (lk_pc s)" using assms(2) by (simp add: thread_step_def split: if_splits)
  have j: "j < length (lk_pc s)" using \<open>j < length (lk_pc s')\<close> pc by simp
  have k: "knows s (lk_pc s ! j)" using assms(1) j by (simp add: locked_inv_def)
  show "knows s' (lk_pc s' ! j)"
  proof (cases "j = i")
    case True
    with thread_knows_self [OF assms i] show ?thesis by simp
  next
    case False
    show ?thesis
    proof (cases "in_shifters (lk_pc s ! j)")
      case True
      then have "lk_pc s ! i \<noteq> At_pop h" for h
        using mutex_alone(1) [of in_shifters main_shifters _ "lk_pc s" "lk_main s" j i] assms(1) i j False
        by (auto simp: locked_inv_def)
      from knows_mono [OF k] thread_step_fields(1,4) [OF assms(2)] this pc False show ?thesis by simp
    next
      case outside: False
      with knows_outside [OF outside] k thread_step_fields(1) [OF assms(2)] pc False show ?thesis by simp
    qed
  qed
qed

lemma main_step_fields:
  assumes "locked_step a s = Some s'" "\<And>i. a \<noteq> Lk_thread i"
  shows "lk_pc s' = lk_pc s" "lk_stop s \<longrightarrow> lk_stop s'" "\<exists>hs. lk_shifters s' = lk_shifters s @ hs"
    and "main_knows s \<Longrightarrow> main_knows s'"
  using assms
  by (cases a; cases "lk_main s";
      auto simp: main_step_def await_step_def enqueue_step_def join_step_def async_step_def stop_step_def Let_def
        main_knows_def split: if_splits prod.splits final_action.splits)+

lemma locked_step_inv:
  assumes "locked_inv s" "locked_step a s = Some s'"
  shows "locked_inv s'"
proof (cases "\<exists>i. a = Lk_thread i")
  case True
  then obtain i where i: "thread_step i s = Some s'" using assms(2) by auto
  have "main_knows s'"
    using assms(1) thread_step_fields(2,5) [OF i] by (auto simp: locked_inv_def main_knows_def split: main_place.splits)
  with thread_mutexes [OF i] thread_knows [OF assms(1) i] assms(1) show ?thesis by (simp add: locked_inv_def)
next
  case False
  then have a: "\<And>i. a \<noteq> Lk_thread i" by simp
  note f = main_step_fields [OF assms(2) a]
  have "\<forall>j < length (lk_pc s'). knows s' (lk_pc s' ! j)"
    using assms(1) f(1) by (auto simp: locked_inv_def intro: knows_mono [OF _ f(2,3)])
  with main_mutexes [OF assms(2) a] f assms(1) show ?thesis by (simp add: locked_inv_def)
qed

lemma locked_reachable_inv: "locked_reachable n s \<Longrightarrow> locked_inv s"
  by (induction rule: locked_reachable.induct) (auto intro: locked_inv_new locked_step_inv)

section \<open>Refinement\<close>

text \<open>The coarse state of a fine one. A coroutine that is being enqueued counts as enqueued, one that a thread
  is about to pop as popped, and one that \<open>join\<close> has popped as still to be resumed.\<close>

fun phase :: "coro list \<Rightarrow> place \<Rightarrow> worker" where
  "phase hs At_front = W_run (hd hs)"
| "phase hs (At_pop h) = W_run h"
| "phase hs (At_unlock h) = W_run h"
| "phase hs (At_run h) = W_run h"
| "phase hs (At_jlock h) = W_push h"
| "phase hs (At_jpush h) = W_push h"
| "phase hs (At_junlock h) = W_send h"
| "phase hs (At_send h) = W_send h"
| "phase hs At_gone = W_exit"
| "phase hs _ = W_idle"

fun taking :: "place \<Rightarrow> bool" where
  "taking At_front = True"
| "taking (At_pop h) = True"
| "taking _ = False"

fun arriving :: "main_place \<Rightarrow> coro list" where
  "arriving (Main_enq h) = [h]"
| "arriving (Main_push h) = [h]"
| "arriving _ = []"

fun leaving :: "main_place \<Rightarrow> coro list" where
  "leaving (Main_junlock h) = [h]"
| "leaving (Main_resume h) = [h]"
| "leaving _ = []"

definition coarse :: "locked \<Rightarrow> sched" where
  "coarse s =
     \<lparr>sc_stop = lk_stop s, sc_threads = map (phase (lk_shifters s)) (lk_pc s),
      sc_shifters = (if list_ex taking (lk_pc s) then tl (lk_shifters s) else lk_shifters s) @ arriving (lk_main s),
      sc_async = lk_async s, sc_joiners = leaving (lk_main s) @ lk_joiners s, sc_joining = lk_joining s,
      sc_promise = lk_promise s, sc_submitted = lk_submitted s, sc_ran = lk_ran s, sc_resumed = lk_resumed s\<rparr>"

lemma coarse_new: "coarse (locked_new n) = scheduler_new n"
  by (simp add: coarse_def locked_new_def scheduler_new_def list_ex_iff)

lemma list_ex_same: "i < length ws \<Longrightarrow> P w = P (ws ! i) \<Longrightarrow> list_ex P (ws[i := w]) = list_ex P ws"
  by (metis list_ex_length length_list_update nth_list_update)

lemma phase_other: "pc \<noteq> At_front \<Longrightarrow> phase hs pc = phase hs' pc"
  by (cases pc) simp_all

lemma taking_in: "taking pc \<Longrightarrow> in_shifters pc"
  by (cases pc) simp_all

text \<open>While a thread is inside the sections of \<open>_shifters_mutex\<close> no other thread is about to pop.\<close>

lemma alone_taking:
  assumes "locked_inv s" "i < length (lk_pc s)" "in_shifters (lk_pc s ! i)"
  shows "list_ex taking (lk_pc s) = taking (lk_pc s ! i)" "list_ex taking ((lk_pc s)[i := pc]) = taking pc"
    and "j < length (lk_pc s) \<Longrightarrow> j \<noteq> i \<Longrightarrow> lk_pc s ! j \<noteq> At_front"
proof -
  have o: "\<not> in_shifters (lk_pc s ! j)" if "j < length (lk_pc s)" "j \<noteq> i" for j
    using mutex_alone(1) [of in_shifters main_shifters _ "lk_pc s" "lk_main s" i j] assms that
    by (auto simp: locked_inv_def)
  then have o': "\<not> taking (lk_pc s ! j)" if "j < length (lk_pc s)" "j \<noteq> i" for j using that taking_in by blast
  show "list_ex taking (lk_pc s) = taking (lk_pc s ! i)"
    unfolding list_ex_length using o' assms(2) by metis
  show "list_ex taking ((lk_pc s)[i := pc]) = taking pc"
    unfolding list_ex_length using o' assms(2) by (metis length_list_update nth_list_update)
  show "lk_pc s ! j \<noteq> At_front" if "j < length (lk_pc s)" "j \<noteq> i" using o [OF that] by auto
qed

lemma main_taking:
  assumes "locked_inv s" "main_shifters (lk_main s)"
  shows "\<not> list_ex taking (lk_pc s)" "map (phase hs) (lk_pc s) = map (phase hs') (lk_pc s)"
proof -
  have o: "\<not> in_shifters pc" if pc: "pc \<in> set (lk_pc s)" for pc
  proof
    assume "in_shifters pc"
    moreover obtain i where "i < length (lk_pc s)" "lk_pc s ! i = pc" using pc by (auto simp: in_set_conv_nth)
    ultimately show False
      using mutex_alone(2) [of in_shifters main_shifters _ "lk_pc s" "lk_main s" i] assms by (auto simp: locked_inv_def)
  qed
  then show "\<not> list_ex taking (lk_pc s)" by (auto simp: list_ex_iff dest: taking_in)
  show "map (phase hs) (lk_pc s) = map (phase hs') (lk_pc s)"
    using o [of At_front] by (intro map_cong refl phase_other) auto
qed

text \<open>The mutexes are not part of the coarse state, and moving a thread changes its phase only.\<close>

lemma coarse_mutex [simp]:
  "coarse (s\<lparr>lk_shifters_mutex := m\<rparr>) = coarse s" "coarse (s\<lparr>lk_joiners_mutex := m\<rparr>) = coarse s"
  by (simp_all add: coarse_def)

lemma coarse_goto:
  assumes "i < length (lk_pc s)" "taking pc = taking (lk_pc s ! i)"
  shows "coarse (goto i pc s) = (coarse s)\<lparr>sc_threads := (sc_threads (coarse s))[i := phase (lk_shifters s) pc]\<rparr>"
  by (simp add: coarse_def goto_def list_ex_same [OF assms] map_update)

lemma coarse_stay:
  assumes "i < length (lk_pc s)" "taking pc = taking (lk_pc s ! i)"
    and "phase (lk_shifters s) pc = phase (lk_shifters s) (lk_pc s ! i)"
  shows "coarse (goto i pc s) = coarse s"
proof -
  have "(sc_threads (coarse s))[i := phase (lk_shifters s) pc] = sc_threads (coarse s)"
    using assms(1,3) by (simp add: coarse_def list_update_same_conv)
  then show ?thesis using coarse_goto [OF assms(1,2)] by simp
qed

lemma coarse_thread:
  "i < length (lk_pc s) \<Longrightarrow> sc_threads (coarse s) ! i = phase (lk_shifters s) (lk_pc s ! i)"
  "length (sc_threads (coarse s)) = length (lk_pc s)"
  by (simp_all add: coarse_def)

lemma coarse_exit:
  assumes "i < length (lk_pc s)" "phase (lk_shifters s) (lk_pc s ! i) = W_idle" "lk_stop s"
  shows "sched_step (Do_exit i) (coarse s) = Some (coarse (goto i At_gone s))"
proof -
  have "\<not> taking (lk_pc s ! i)" using assms(2) by (cases "lk_pc s ! i") simp_all
  moreover have "sc_stop (coarse s)" using assms(3) by (simp add: coarse_def)
  ultimately show ?thesis
    using assms(1,2) coarse_goto [of i s At_gone] by (simp add: sched_step_def worker_exit_def coarse_thread)
qed

text \<open>The steps of a pool thread under the lock of \<open>_shifters\<close>.\<close>

lemma loop_step_coarse:
  assumes "locked_inv s" "i < length (lk_pc s)" "in_shifters (lk_pc s ! i)" "loop_step i (lk_pc s ! i) s = Some s'"
  shows "coarse s' = coarse s \<or> (\<exists>a. sched_step a (coarse s) = Some (coarse s'))"
proof -
  note t = alone_taking [OF assms(1-3)]
  have k: "knows s (lk_pc s ! i)" using assms(1,2) by (simp add: locked_inv_def)
  show ?thesis
  proof (cases "lk_pc s ! i")
    case (At_pop h)
    have other: "map (phase (tl (lk_shifters s))) ((lk_pc s)[i := At_unlock h]) = map (phase (lk_shifters s)) (lk_pc s)"
      using assms(2) t(3) At_pop by (intro nth_equalityI) (auto simp: nth_list_update intro: phase_other)
    have "s' = goto i (At_unlock h) (s\<lparr>lk_shifters := tl (lk_shifters s)\<rparr>)"
      using assms(4) At_pop by (simp add: loop_step_def)
    then have "coarse s' = coarse s" using t(1,2) At_pop other by (simp add: goto_def coarse_def)
    then show ?thesis by simp
  next
    case At_stop
    show ?thesis
    proof (cases "lk_stop s")
      case True
      then have "s' = goto i At_gone (s\<lparr>lk_shifters_mutex := None\<rparr>)"
        using assms(4) At_stop by (simp add: loop_step_def)
      then have "sched_step (Do_exit i) (coarse s) = Some (coarse s')"
        using coarse_exit [of i "s\<lparr>lk_shifters_mutex := None\<rparr>"] assms(2) At_stop True by simp
      then show ?thesis by blast
    next
      case False
      then obtain h hs where h: "lk_shifters s = h # hs" using k At_stop by (auto simp: knows_def neq_Nil_conv)
      have "s' = goto i At_front s" using assms(4) At_stop False by (simp add: loop_step_def)
      then have "sched_step (Do_pop i) (coarse s) = Some (coarse s')"
        using assms(2) t(1,2) At_stop False h
        by (simp add: goto_def coarse_def sched_step_def worker_pop_def map_update)
      then show ?thesis by blast
    qed
  next
    case At_check
    then have "coarse s' = coarse s"
      using assms(2,4) by (auto simp: loop_step_def coarse_stay split: if_splits)
    then show ?thesis by simp
  qed (use assms(2-4) in \<open>auto simp: loop_step_def coarse_stay\<close>)
qed

lemma thread_step_coarse:
  assumes "locked_inv s" "thread_step i s = Some s'"
  shows "coarse s' = coarse s \<or> (\<exists>a. sched_step a (coarse s) = Some (coarse s'))"
proof -
  have i: "i < length (lk_pc s)" using assms(2) by (simp add: thread_step_def split: if_splits)
  note at = coarse_thread(1) [OF i] coarse_thread(2) [of s]
  show ?thesis
  proof (cases "lk_pc s ! i")
    case At_head
    then have s': "s' = goto i (if lk_stop s then At_gone else At_lock) s"
      using assms(2) i by (simp add: thread_step_def loop_step_def)
    show ?thesis
      using s' At_head i coarse_exit [of i s] coarse_stay [of i s At_lock] by (cases "lk_stop s") auto
  next
    case (At_run h)
    have g: "coarse (goto i pc t) = (coarse t)\<lparr>sc_threads := (sc_threads (coarse s))[i := phase (lk_shifters s) pc]\<rparr>"
      if "lk_pc t = lk_pc s" "lk_shifters t = lk_shifters s" "\<not> taking pc" for pc t
      using coarse_goto [of i t pc] that i At_run by (simp add: coarse_def)
    have "sched_step (Do_run i) (coarse s) = Some (coarse s')"
      using assms(2) i At_run at
      by (auto simp: thread_step_def run_step_def Let_def sched_step_def worker_run_def task_finish_def g
          split: prod.splits final_action.splits) (simp_all add: coarse_def)
    then show ?thesis by blast
  next
    case (At_jpush h)
    then have "s' = goto i (At_junlock h) (s\<lparr>lk_joiners := lk_joiners s @ [h]\<rparr>)"
      using assms(2) i by (simp add: thread_step_def complete_step_def)
    then have "sched_step (Do_push i) (coarse s) = Some (coarse s')"
      using coarse_goto [of i "s\<lparr>lk_joiners := lk_joiners s @ [h]\<rparr>" "At_junlock h"] i At_jpush at
      by (simp add: sched_step_def worker_push_def) (simp add: coarse_def)
    then show ?thesis by blast
  next
    case (At_send h)
    then have "s' = goto i At_head (s\<lparr>lk_async := True\<rparr>)"
      using assms(2) i by (simp add: thread_step_def complete_step_def)
    then have "sched_step (Do_send i) (coarse s) = Some (coarse s')"
      using coarse_goto [of i "s\<lparr>lk_async := True\<rparr>" At_head] i At_send at
      by (simp add: sched_step_def worker_send_def) (simp add: coarse_def)
    then show ?thesis by blast
  next
    case At_lock
    with assms(2) i show ?thesis by (auto simp: thread_step_def loop_step_def coarse_stay split: if_splits)
  next
    case At_wait
    with assms(2) i show ?thesis by (auto simp: thread_step_def loop_step_def coarse_stay split: if_splits)
  next
    case (At_jlock h)
    with assms(2) i show ?thesis by (auto simp: thread_step_def complete_step_def coarse_stay split: if_splits)
  next
    case (At_junlock h)
    with assms(2) i show ?thesis by (auto simp: thread_step_def complete_step_def coarse_stay)
  next
    case At_gone
    with assms(2) i show ?thesis by (simp add: thread_step_def loop_step_def)
  qed (use loop_step_coarse [OF assms(1) i] assms(2) i in \<open>simp_all add: thread_step_def\<close>)
qed

lemma coarse_main:
  assumes "arriving m = arriving (lk_main s)" "leaving m = leaving (lk_main s)"
  shows "coarse (s\<lparr>lk_main := m\<rparr>) = coarse s"
  using assms by (simp add: coarse_def)

lemma join_step_coarse:
  assumes "locked_inv s" "join_step (lk_main s) s = Some s'"
  shows "coarse s' = coarse s \<or> sched_step Do_join (coarse s) = Some (coarse s')"
proof (cases "lk_main s")
  case Main_ready
  then have j: "lk_joining s" using assms(2) by (simp add: join_step_def split: if_splits)
  show ?thesis
  proof (cases "lk_joiners s = []")
    case True
    then have "s' = s\<lparr>lk_joining := False\<rparr>" using assms(2) j Main_ready by (simp add: join_step_def)
    then have "sched_step Do_join (coarse s) = Some (coarse s')"
      using Main_ready j True by (simp add: coarse_def sched_step_def join_pop_def)
    then show ?thesis by simp
  next
    case False
    then have "s' = s\<lparr>lk_main := Main_jlock\<rparr>" using assms(2) j Main_ready by (simp add: join_step_def)
    then show ?thesis using Main_ready by (simp add: coarse_main)
  qed
next
  case (Main_pop h)
  then have "lk_joiners s = h # tl (lk_joiners s)" using assms(1) by (auto simp: locked_inv_def main_knows_def)
  moreover have "s' = s\<lparr>lk_joiners := tl (lk_joiners s), lk_main := Main_junlock h\<rparr>"
    using assms(2) Main_pop by (simp add: join_step_def)
  ultimately have "coarse s' = coarse s" using Main_pop by (simp add: coarse_def)
  then show ?thesis by simp
next
  case (Main_resume h)
  have "lk_joining s" using assms(1) Main_resume by (simp add: locked_inv_def main_knows_def)
  moreover have "s' = s\<lparr>lk_resumed := lk_resumed s @ [h], lk_main := Main_ready\<rparr>"
    using assms(2) Main_resume by (simp add: join_step_def)
  ultimately have "sched_step Do_join (coarse s) = Some (coarse s')"
    using Main_resume by (simp add: coarse_def sched_step_def join_pop_def)
  then show ?thesis by simp
qed (use assms(2) in \<open>auto simp: join_step_def coarse_main split: if_splits\<close>)

lemma enqueue_step_coarse:
  assumes "locked_inv s" "enqueue_step (lk_main s) s = Some s'"
  shows "coarse s' = coarse s"
proof (cases "lk_main s")
  case (Main_push h)
  then have "s' = s\<lparr>lk_shifters := lk_shifters s @ [h], lk_main := Main_unlock\<rparr>"
    using assms(2) by (simp add: enqueue_step_def)
  then show ?thesis
    using Main_push main_taking(1) [OF assms(1)] main_taking(2) [OF assms(1), of "lk_shifters s @ [h]" "lk_shifters s"]
    by (simp add: coarse_def)
qed (use assms(2) in \<open>auto simp: enqueue_step_def coarse_main split: if_splits\<close>)

lemma main_step_coarse:
  assumes "locked_inv s" "main_step s = Some s'"
  shows "coarse s' = coarse s \<or> sched_step Do_join (coarse s) = Some (coarse s')"
proof -
  from assms(2) have "enqueue_step (lk_main s) s = Some s' \<or> join_step (lk_main s) s = Some s'"
    by (cases "lk_main s") (simp_all add: main_step_def)
  then show ?thesis using enqueue_step_coarse [OF assms(1)] join_step_coarse [OF assms(1)] by blast
qed

lemma await_step_coarse:
  assumes "await_step h s = Some s'"
  shows "sched_step (Do_await h) (coarse s) = Some (coarse s')"
proof -
  have "lk_main s = Main_ready" "h \<notin> set (lk_submitted s)" using assms by (auto simp: await_step_def split: if_splits)
  then show ?thesis
    using assms
    by (cases "lk_pc s = []")
      (auto simp: await_step_def coarse_def sched_step_def sched_defs split: prod.splits final_action.splits)
qed

lemma locked_step_coarse:
  assumes "locked_inv s" "locked_step a s = Some s'"
  shows "coarse s' = coarse s \<or> (\<exists>b. sched_step b (coarse s) = Some (coarse s'))"
proof (cases a)
  case (Lk_thread i)
  with thread_step_coarse [OF assms(1)] assms(2) show ?thesis by simp
next
  case Lk_main
  with main_step_coarse [OF assms(1)] assms(2) show ?thesis by auto
next
  case (Lk_await h)
  with await_step_coarse assms(2) show ?thesis by auto
next
  case Lk_async
  then have "sched_step Do_async (coarse s) = Some (coarse s')"
    using assms(2) by (auto simp: async_step_def coarse_def sched_step_def async_cb_def split: if_splits)
  then show ?thesis by blast
next
  case Lk_stop
  then have "sched_step Do_stop (coarse s) = Some (coarse s')"
    using assms(2) by (auto simp: stop_step_def coarse_def sched_step_def scheduler_stop_def split: if_splits)
  then show ?thesis by blast
qed

interpretation locks: forward_simulation locked_step sched_step locked_inv coarse
  by unfold_locales (rule locked_step_inv, assumption+, rule locked_step_coarse, assumption+)

lemma locked_reachable_coarse: "locked_reachable n s \<Longrightarrow> locked_inv s \<and> reachable n (coarse s)"
proof (induction rule: locked_reachable.induct)
  case lk_new
  show ?case by (simp add: locked_inv_new coarse_new reach_new)
next
  case (lk_step s a s')
  then show ?case by (intro locks.transfer_step) (auto intro: reach_step)
qed

section \<open>Releasing the locks\<close>

fun act_of :: "agent \<Rightarrow> lock_action" where
  "act_of Loop_thread = Lk_main"
| "act_of (Pool_thread i) = Lk_thread i"

definition frees :: "(locked \<Rightarrow> agent option) \<Rightarrow> agent \<Rightarrow> nat \<Rightarrow> locked \<Rightarrow> bool" where
  "frees mutex a k s \<longleftrightarrow>
     (\<exists>m s'. m \<le> k \<and> locked_run (replicate m (act_of a)) s = Some s' \<and> mutex s' = None)"

lemma frees_0: "mutex s = None \<Longrightarrow> frees mutex a k s"
  by (auto simp: frees_def intro: exI [of _ 0])

lemma frees_Suc:
  assumes "locked_step (act_of a) s = Some s1" "frees mutex a k s1"
  shows "frees mutex a (Suc k) s"
proof -
  obtain m s' where "m \<le> k" "locked_run (replicate m (act_of a)) s1 = Some s'" "mutex s' = None"
    using assms(2) by (auto simp: frees_def)
  then show ?thesis
    unfolding frees_def using assms(1) by (intro exI [of _ "Suc m"] exI [of _ s']) simp
qed

lemma frees_mono: "frees mutex a k s \<Longrightarrow> k \<le> k' \<Longrightarrow> frees mutex a k' s"
  unfolding frees_def by (meson le_trans)

text \<open>The places inside a section, from its end backwards.\<close>

lemma thread_frees_shifters:
  assumes "i < length (lk_pc s)" "in_shifters (lk_pc s ! i)"
  shows "frees lk_shifters_mutex (Pool_thread i) 5 s"
proof -
  let ?f = "\<lambda>k s. frees lk_shifters_mutex (Pool_thread i) k s"
  note d = thread_step_def loop_step_def goto_def
  have unlock: "?f 1 s" if "i < length (lk_pc s)" "lk_pc s ! i = At_unlock h" for h s
    using that frees_Suc [of "Pool_thread i" s _ lk_shifters_mutex 0] by (simp add: d frees_0)
  have pop: "?f 2 s" if "i < length (lk_pc s)" "lk_pc s ! i = At_pop h" for h s
    using that frees_Suc [of "Pool_thread i" s _ lk_shifters_mutex 1, OF _ unlock [of _ h]] by (simp add: d numeral_2_eq_2)
  have front: "?f 3 s" if "i < length (lk_pc s)" "lk_pc s ! i = At_front" for s
    using that frees_Suc [of "Pool_thread i" s _ lk_shifters_mutex 2, OF _ pop [of _ "hd (lk_shifters s)"]]
    by (simp add: d)
  have stop: "?f 4 s" if "i < length (lk_pc s)" "lk_pc s ! i = At_stop" for s
  proof (cases "lk_stop s")
    case True
    with that frees_Suc [of "Pool_thread i" s _ lk_shifters_mutex 3] show ?thesis by (simp add: d frees_0)
  next
    case False
    with that frees_Suc [of "Pool_thread i" s _ lk_shifters_mutex 3, OF _ front] show ?thesis by (simp add: d)
  qed
  have check: "?f 5 s" if "i < length (lk_pc s)" "lk_pc s ! i = At_check" for s
  proof (cases "\<not> lk_stop s \<and> lk_shifters s = []")
    case True
    with that frees_Suc [of "Pool_thread i" s _ lk_shifters_mutex 4] show ?thesis by (simp add: d frees_0)
  next
    case False
    with that frees_Suc [of "Pool_thread i" s _ lk_shifters_mutex 4, OF _ stop] show ?thesis by (auto simp: d)
  qed
  show ?thesis
    using assms(2) unlock [OF assms(1)] pop [OF assms(1)] front [OF assms(1)] stop [OF assms(1)] check [OF assms(1)]
    by (cases "lk_pc s ! i") (auto intro: frees_mono)
qed

lemma thread_frees_joiners:
  assumes "i < length (lk_pc s)" "in_joiners (lk_pc s ! i)"
  shows "frees lk_joiners_mutex (Pool_thread i) 2 s"
proof -
  note d = thread_step_def complete_step_def goto_def
  have unlock: "frees lk_joiners_mutex (Pool_thread i) 1 s" if "i < length (lk_pc s)" "lk_pc s ! i = At_junlock h" for h s
    using that frees_Suc [of "Pool_thread i" s _ lk_joiners_mutex 0] by (simp add: d frees_0)
  have push: "frees lk_joiners_mutex (Pool_thread i) 2 s" if "i < length (lk_pc s)" "lk_pc s ! i = At_jpush h" for h s
    using that frees_Suc [of "Pool_thread i" s _ lk_joiners_mutex 1, OF _ unlock [of _ h]] by (simp add: d numeral_2_eq_2)
  show ?thesis
    using assms(2) unlock [OF assms(1)] push [OF assms(1)] by (cases "lk_pc s ! i") (auto intro: frees_mono)
qed

lemma main_frees_shifters:
  assumes "main_shifters (lk_main s)"
  shows "frees lk_shifters_mutex Loop_thread 2 s"
proof -
  note d = main_step_def enqueue_step_def
  have unlock: "frees lk_shifters_mutex Loop_thread 1 s" if "lk_main s = Main_unlock" for s
    using that frees_Suc [of Loop_thread s _ lk_shifters_mutex 0] by (simp add: d frees_0)
  have push: "frees lk_shifters_mutex Loop_thread 2 s" if "lk_main s = Main_push h" for h s
    using that frees_Suc [of Loop_thread s _ lk_shifters_mutex 1, OF _ unlock] by (simp add: d numeral_2_eq_2)
  show ?thesis using assms unlock [of s] push [of s] by (cases "lk_main s") (auto intro: frees_mono)
qed

lemma main_frees_joiners:
  assumes "main_joiners (lk_main s)"
  shows "frees lk_joiners_mutex Loop_thread 3 s"
proof -
  note d = main_step_def join_step_def
  have unlock: "frees lk_joiners_mutex Loop_thread 1 s" if "lk_main s = Main_junlock h" for h s
    using that frees_Suc [of Loop_thread s _ lk_joiners_mutex 0] by (simp add: d frees_0)
  have pop: "frees lk_joiners_mutex Loop_thread 2 s" if "lk_main s = Main_pop h" for h s
    using that frees_Suc [of Loop_thread s _ lk_joiners_mutex 1, OF _ unlock [of _ h]] by (simp add: d numeral_2_eq_2)
  have front: "frees lk_joiners_mutex Loop_thread 3 s" if "lk_main s = Main_front" for s
    using that frees_Suc [of Loop_thread s _ lk_joiners_mutex 2, OF _ pop [of _ "hd (lk_joiners s)"]] by (simp add: d)
  show ?thesis using assms unlock [of s] pop [of s] front [of s] by (cases "lk_main s") (auto intro: frees_mono)
qed

section \<open>Properties\<close>

text \<open>C3: the critical sections may be taken as single steps. Whatever the threads of the pool and the thread of
  the loop do, statement by statement and with the two mutexes, the scheduler is in a state that
  stands for one which the coarse machine of \<open>Scheduler\<close> can reach. So what holds of all states of the
  latter holds here, for instance: no function runs twice and no coroutine is resumed twice.\<close>

theorem locks_refine:
  assumes "locked_reachable n s"
  shows "reachable n (coarse s) \<and> distinct (lk_ran s) \<and> distinct (lk_resumed s) \<and> set (lk_resumed s) \<subseteq> set (lk_ran s)"
proof -
  have r: "reachable n (coarse s)" using locked_reachable_coarse [OF assms] ..
  from scheduler.once [OF reachable_inv [OF r]] scheduler.in_order [OF reachable_inv [OF r]] r
  show ?thesis by (simp add: coarse_def)
qed

theorem locks_refine_witness:
  "\<exists>s. locked_run ([Lk_await 7] @ replicate 3 Lk_main @ replicate 12 (Lk_thread 0) @ [Lk_async] @ replicate 6 Lk_main)
      (locked_new 1) = Some s \<and> lk_ran s = [7] \<and> lk_resumed s = [7] \<and> reachable 1 (coarse s)"
proof -
  let ?as = "[Lk_await 7] @ replicate 3 Lk_main @ replicate 12 (Lk_thread 0) @ [Lk_async] @ replicate 6 Lk_main"
  obtain s where s: "locked_run ?as (locked_new 1) = Some s" "lk_ran s = [7]" "lk_resumed s = [7]"
    by (simp add: numeral_eq_Suc locked_ops locked_new_def task_new_def task_on_complete_def task_await_def
        task_final_suspend_def)
  from locks_refine [OF locked_run_reachable [OF lk_new s(1)]] s show ?thesis by blast
qed

text \<open>C4: the locks do what they are for. A mutex is owned by exactly the thread that is inside one of its
  sections, so no two are; and \<^verbatim>\<open>front\<close> and \<^verbatim>\<open>pop\<close> are never called on an empty queue, also in \<open>join\<close>, which
  tested its queue before it took the lock.\<close>

theorem locks_exclude:
  assumes "locked_reachable n s"
  shows "(\<forall>a. inside in_shifters main_shifters (lk_pc s) (lk_main s) a \<longleftrightarrow> lk_shifters_mutex s = Some a) \<and>
     (\<forall>a. inside in_joiners main_joiners (lk_pc s) (lk_main s) a \<longleftrightarrow> lk_joiners_mutex s = Some a) \<and>
     (\<forall>i < length (lk_pc s). taking (lk_pc s ! i) \<longrightarrow> lk_shifters s \<noteq> []) \<and>
     (lk_main s = Main_front \<or> (\<exists>h. lk_main s = Main_pop h) \<longrightarrow> lk_joiners s \<noteq> [])"
proof -
  have inv: "locked_inv s" by (rule locked_reachable_inv [OF assms])
  have "lk_shifters s \<noteq> []" if "knows s pc" "taking pc" for pc
    using that by (cases pc) (simp_all add: knows_def)
  with inv show ?thesis by (auto simp: locked_inv_def mutex_ok_def main_knows_def)
qed

theorem locks_exclude_witness:
  "\<exists>s. locked_run ([Lk_await 7] @ replicate 3 Lk_main @ replicate 4 (Lk_thread 1)) (locked_new 2) = Some s \<and>
     lk_pc s = [At_head, At_front] \<and> lk_shifters_mutex s = Some (Pool_thread 1) \<and>
     inside in_shifters main_shifters (lk_pc s) (lk_main s) (Pool_thread 1)"
proof -
  let ?as = "[Lk_await 7] @ replicate 3 Lk_main @ replicate 4 (Lk_thread 1)"
  obtain s where s: "locked_run ?as (locked_new 2) = Some s" "lk_pc s = [At_head, At_front]"
      "lk_shifters_mutex s = Some (Pool_thread 1)"
    by (simp add: numeral_eq_Suc locked_ops locked_new_def task_new_def task_on_complete_def task_await_def)
  with locks_exclude [OF locked_run_reachable [OF lk_new s(1)]] show ?thesis by blast
qed

text \<open>C5: no deadlock. Whoever owns a mutex gives it back after at most five steps of its own, and
  nothing that another thread does or holds can keep it from taking them.\<close>

theorem locks_released:
  assumes "locked_reachable n s"
  shows "(\<forall>a. lk_shifters_mutex s = Some a \<longrightarrow> frees lk_shifters_mutex a 5 s) \<and>
     (\<forall>a. lk_joiners_mutex s = Some a \<longrightarrow> frees lk_joiners_mutex a 5 s)"
proof (intro conjI allI impI)
  have inv: "locked_inv s" by (rule locked_reachable_inv [OF assms])
  fix a
  { assume "lk_shifters_mutex s = Some a"
    then have "inside in_shifters main_shifters (lk_pc s) (lk_main s) a"
      using inv by (auto simp: locked_inv_def dest: mutex_inside)
    then show "frees lk_shifters_mutex a 5 s"
      by (cases a) (auto simp: inside_def intro: thread_frees_shifters frees_mono [OF main_frees_shifters])
  next
    assume "lk_joiners_mutex s = Some a"
    then have "inside in_joiners main_joiners (lk_pc s) (lk_main s) a"
      using inv by (auto simp: locked_inv_def dest: mutex_inside)
    then show "frees lk_joiners_mutex a 5 s"
      by (cases a) (auto simp: inside_def intro: frees_mono [OF thread_frees_joiners] frees_mono [OF main_frees_joiners]) }
qed

theorem locks_released_witness:
  "\<exists>s. locked_run [Lk_thread 0, Lk_thread 0] (locked_new 1) = Some s \<and>
     lk_shifters_mutex s = Some (Pool_thread 0) \<and> frees lk_shifters_mutex (Pool_thread 0) 5 s"
proof -
  obtain s where s: "locked_run [Lk_thread 0, Lk_thread 0] (locked_new 1) = Some s"
      "lk_shifters_mutex s = Some (Pool_thread 0)"
    by (simp add: locked_ops locked_new_def)
  with locks_released [OF locked_run_reachable [OF lk_new s(1)]] show ?thesis by blast
qed

text \<open>The test without the lock. There is a run in which the loop is about to evaluate
  \<^verbatim>\<open>_joiners.empty()\<close>, for which it takes no lock, while a thread of the pool that holds the lock is about to
  push: two threads access the same queue at the same time and one of them writes, which is a data
  race.\<close>

theorem unlocked_test_races:
  "\<exists>s h. locked_reachable 1 s \<and> lk_main s = Main_ready \<and> lk_joining s \<and>
     lk_joiners_mutex s = Some (Pool_thread 0) \<and> lk_pc s = [At_jpush h] \<and>
     (\<exists>s1. locked_step Lk_main s = Some s1) \<and> (\<exists>s2. locked_step (Lk_thread 0) s = Some s2 \<and> lk_joiners s2 \<noteq> lk_joiners s)"
proof -
  let ?as = "[Lk_await 7] @ replicate 3 Lk_main @ [Lk_await 8] @ replicate 3 Lk_main @ replicate 12 (Lk_thread 0) @
    [Lk_async] @ replicate 9 (Lk_thread 0)"
  obtain s where s: "locked_run ?as (locked_new 1) = Some s" "lk_main s = Main_ready" "lk_joining s"
      "lk_joiners_mutex s = Some (Pool_thread 0)" "lk_pc s = [At_jpush 8]"
    by (simp add: numeral_eq_Suc locked_ops locked_new_def task_new_def task_on_complete_def task_await_def
        task_final_suspend_def)
  have "locked_step Lk_main s \<noteq> None" using s(2,3) by (simp add: main_step_def join_step_def)
  moreover have "\<exists>s2. locked_step (Lk_thread 0) s = Some s2 \<and> lk_joiners s2 \<noteq> lk_joiners s"
    using s(5) by (simp add: thread_step_def complete_step_def goto_def)
  ultimately show ?thesis using locked_run_reachable [OF lk_new s(1)] s(2-5) by blast
qed

end
