(* ===== verification/Pool.thy ===== *)
theory Pool
  imports Server Frames
begin

text \<open>
  The uv server as a whole: any number of connection coroutines (\<^verbatim>\<open>uv::server::conn\<close>, lib/grpcxx/uv/server.cpp)
  that share one thread pool (\<^verbatim>\<open>uv::detail::scheduler\<close>). A coroutine that has read a chunk hands the
  function that serves it to the pool and is suspended; some thread runs the function, the thread
  of the loop resumes the coroutine, which flushes its buffer and reads again.

  The steps are those of the scheduler's machine. What a step of it does to the connections is read off
  its record: for every task that ran in the step its function is run on the connection whose
  coroutine awaits it, for every coroutine that was resumed the rest of its turn. Whether that is the
  right connection at the right time is not built in; it is what the theorem says.

  A flush is part of the step that resumes the coroutine: until the write's callback nothing but this
  coroutine touches its connection.
\<close>

section \<open>Connections and the pool\<close>

text \<open>What libuv has for the reader that a coroutine awaits, with the result of the write that the flush after
  it may start and the status of its callback.\<close>

type_synonym chunk = "uv_input \<times> int \<times> int"

text \<open>The coroutine of a connection: its connection and reader, how it ended if it did, the bytes it handed to
  libuv, the task it awaits (none while it awaits the reader), and the inputs it has read.\<close>

record 'ng conn_slot =
  cs_conn :: "'ng uv_conn"
  cs_reader :: reader
  cs_end :: "conn_end option"
  cs_outs :: "bytes list"
  cs_task :: "coro option"
  cs_inputs :: "chunk list"

text \<open>\<open>po_work\<close> is what the function of a task has captured: its connection and the bytes read, and what the
  write of the flush after it will meet.\<close>

record 'ng pool =
  po_sched :: sched
  po_slots :: "nat \<Rightarrow> 'ng conn_slot"
  po_work :: "coro \<Rightarrow> nat \<times> bytes \<times> int \<times> int"

definition pool_new :: "nat \<Rightarrow> 'ng uv_conn \<Rightarrow> 'ng pool" where
  "pool_new n c0 =
     \<lparr>po_sched = scheduler_new n,
      po_slots = (\<lambda>_. \<lparr>cs_conn = c0, cs_reader = reader_new, cs_end = None, cs_outs = [], cs_task = None, cs_inputs = []\<rparr>),
      po_work = (\<lambda>_. (0, [], 0, 0))\<rparr>"

text \<open>The function of a task: every finished request of the chunk is processed. If it does not return there is
  no next state.\<close>

definition work_run :: "'ng nghttp2 \<Rightarrow> server_base \<Rightarrow> coro \<Rightarrow> 'ng pool \<Rightarrow> 'ng pool option" where
  "work_run ng sb t p =
     (case po_work p t of
        (k, bs, start, fin) \<Rightarrow>
          (case uv_serve ng sb bs (cs_conn (po_slots p k)) of
             Some (Return c1) \<Rightarrow> Some (p\<lparr>po_slots := (po_slots p)(k := (po_slots p k)\<lparr>cs_conn := c1\<rparr>)\<rparr>)
           | _ \<Rightarrow> None))"

text \<open>The head of the loop, \<^verbatim>\<open>while (reader)\<close>.\<close>

definition loop_head :: "reader \<Rightarrow> conn_end option" where
  "loop_head rd = (if reader_bool rd then None else Some Conn_closed)"

text \<open>The rest of the turn of the coroutine that awaited a task: \<^verbatim>\<open>co_await c.flush()\<close>, then the head of the
  loop.\<close>

definition work_flush :: "coro \<Rightarrow> 'ng pool \<Rightarrow> 'ng pool option" where
  "work_flush t p =
     (case po_work p t of
        (k, bs, start, fin) \<Rightarrow>
          (case uv_conn_flush k start fin (cs_conn (po_slots p k)) of
             Terminate \<Rightarrow> None
           | Return (out, c2) \<Rightarrow>
               Some (p\<lparr>po_slots := (po_slots p)(k := (po_slots p k)
                         \<lparr>cs_conn := c2, cs_end := loop_head (cs_reader (po_slots p k)),
                          cs_outs := cs_outs (po_slots p k) @ (case out of None \<Rightarrow> [] | Some b \<Rightarrow> [b]),
                          cs_task := None\<rparr>)\<rparr>)))"

fun each :: "('t \<Rightarrow> 'p \<Rightarrow> 'p option) \<Rightarrow> 't list \<Rightarrow> 'p \<Rightarrow> 'p option" where
  "each f [] p = Some p"
| "each f (t # ts) p = (case f t p of None \<Rightarrow> None | Some p1 \<Rightarrow> each f ts p1)"

text \<open>A step of the scheduler and its effect on the connections.\<close>

definition pool_sched :: "'ng nghttp2 \<Rightarrow> server_base \<Rightarrow> action \<Rightarrow> 'ng pool \<Rightarrow> 'ng pool option" where
  "pool_sched ng sb a p =
     (case sched_step a (po_sched p) of
        None \<Rightarrow> None
      | Some s \<Rightarrow>
          (case each (work_run ng sb) (drop (length (sc_ran (po_sched p))) (sc_ran s)) (p\<lparr>po_sched := s\<rparr>) of
             None \<Rightarrow> None
           | Some p1 \<Rightarrow> each work_flush (drop (length (sc_resumed (po_sched p))) (sc_resumed s)) p1))"

text \<open>The coroutine of connection \<open>k\<close> is resumed by the reader. An exception ends it, nothing read takes it to the
  head of the loop, and for a chunk it awaits the task \<open>t\<close>.\<close>

definition pool_chunk ::
  "'ng nghttp2 \<Rightarrow> server_base \<Rightarrow> nat \<Rightarrow> coro \<Rightarrow> chunk \<Rightarrow> 'ng pool \<Rightarrow> 'ng pool option" where
  "pool_chunk ng sb k t x p =
     (if cs_task (po_slots p k) \<noteq> None \<or> cs_end (po_slots p k) \<noteq> None then None
      else
        let (inp, start, fin) = x;
            sl = (po_slots p k)\<lparr>cs_inputs := cs_inputs (po_slots p k) @ [x]\<rparr>
        in case reader_await k inp (cs_reader sl) of
             (Inl e, rd) \<Rightarrow>
               Some (p\<lparr>po_slots := (po_slots p)(k := sl\<lparr>cs_reader := rd, cs_end := Some (Conn_failed e)\<rparr>)\<rparr>)
           | (Inr bs, rd) \<Rightarrow>
               if bs = [] then Some (p\<lparr>po_slots := (po_slots p)(k := sl\<lparr>cs_reader := rd, cs_end := loop_head rd\<rparr>)\<rparr>)
               else pool_sched ng sb (Do_await t)
                      (p\<lparr>po_slots := (po_slots p)(k := sl\<lparr>cs_reader := rd, cs_task := Some t\<rparr>),
                         po_work := (po_work p)(t := (k, bs, start, fin))\<rparr>))"

datatype pool_action = Pool_chunk nat coro chunk | Pool_do action

fun pool_step :: "'ng nghttp2 \<Rightarrow> server_base \<Rightarrow> pool_action \<Rightarrow> 'ng pool \<Rightarrow> 'ng pool option" where
  "pool_step ng sb (Pool_chunk k t x) p = pool_chunk ng sb k t x p"
| "pool_step ng sb (Pool_do a) p = (if awaited a = None then pool_sched ng sb a p else None)"

inductive pool_reachable :: "'ng nghttp2 \<Rightarrow> server_base \<Rightarrow> nat \<Rightarrow> 'ng uv_conn \<Rightarrow> 'ng pool \<Rightarrow> bool"
  for ng sb n c0 where
  pool_reach_new: "pool_reachable ng sb n c0 (pool_new n c0)"
| pool_reach_step: "pool_reachable ng sb n c0 p \<Longrightarrow> pool_step ng sb a p = Some p' \<Longrightarrow> pool_reachable ng sb n c0 p'"

section \<open>The sequential meaning of a connection\<close>

text \<open>One turn of the coroutine, alone: how it has ended, its reader, its connection, and what it has
  written.\<close>

type_synonym 'ng turn_state = "conn_end option \<times> reader \<times> 'ng uv_conn \<times> bytes list"

definition conn_turn ::
  "'ng nghttp2 \<Rightarrow> server_base \<Rightarrow> coro \<Rightarrow> chunk \<Rightarrow> 'ng turn_state \<Rightarrow> 'ng turn_state option" where
  "conn_turn ng sb h x st =
     (case (x, st) of
        ((inp, start, fin), (w, rd, c, outs)) \<Rightarrow>
          if w \<noteq> None then Some st
          else case reader_await h inp rd of
                 (Inl e, rd1) \<Rightarrow> Some (Some (Conn_failed e), rd1, c, outs)
               | (Inr bs, rd1) \<Rightarrow>
                   if bs = [] then Some (loop_head rd1, rd1, c, outs)
                   else (case uv_serve ng sb bs c of
                           Some (Return c1) \<Rightarrow>
                             (case uv_conn_flush h start fin c1 of
                                Terminate \<Rightarrow> None
                              | Return (out, c2) \<Rightarrow>
                                  Some (loop_head rd1, rd1, c2, outs @ (case out of None \<Rightarrow> [] | Some b \<Rightarrow> [b])))
                         | _ \<Rightarrow> None))"

lemma conn_turn_eq:
  "conn_turn ng sb h (inp, start, fin) (w, rd, c, outs) =
     (if w \<noteq> None then Some (w, rd, c, outs)
      else case reader_await h inp rd of
             (Inl e, rd1) \<Rightarrow> Some (Some (Conn_failed e), rd1, c, outs)
           | (Inr bs, rd1) \<Rightarrow>
               if bs = [] then Some (loop_head rd1, rd1, c, outs)
               else (case uv_serve ng sb bs c of
                       Some (Return c1) \<Rightarrow>
                         (case uv_conn_flush h start fin c1 of
                            Terminate \<Rightarrow> None
                          | Return (out, c2) \<Rightarrow>
                              Some (loop_head rd1, rd1, c2, outs @ (case out of None \<Rightarrow> [] | Some b \<Rightarrow> [b])))
                     | _ \<Rightarrow> None))"
  by (simp add: conn_turn_def)

definition end_of :: "conn_end option \<Rightarrow> conn_end" where
  "end_of w = (case w of None \<Rightarrow> Conn_waiting | Some e \<Rightarrow> e)"

lemma each_append: "each f (ts @ us) p = (case each f ts p of None \<Rightarrow> None | Some p1 \<Rightarrow> each f us p1)"
  by (induction ts arbitrary: p) (auto split: option.splits)

text \<open>What a turn writes comes after what was written before.\<close>

definition write_before :: "bytes list \<Rightarrow> 'ng turn_state option \<Rightarrow> 'ng turn_state option" where
  "write_before outs = map_option (\<lambda>(w, rd, c, outs'). (w, rd, c, outs @ outs'))"

lemma write_before_simps [simp]:
  "write_before outs None = None"
  "write_before outs (Some (w, rd, c, outs')) = Some (w, rd, c, outs @ outs')"
  "write_before outs (write_before outs' r) = write_before (outs @ outs') r"
  by (cases r; auto simp: write_before_def)+

lemma conn_turn_outs:
  "conn_turn ng sb h x (w, rd, c, outs) = write_before outs (conn_turn ng sb h x (w, rd, c, []))"
  by (cases x) (simp add: conn_turn_def split: option.splits outcome.splits sum.splits prod.splits)

lemma each_turn_outs:
  "each (conn_turn ng sb h) xs (w, rd, c, outs) = write_before outs (each (conn_turn ng sb h) xs (w, rd, c, []))"
proof (induction xs arbitrary: w rd c outs)
  case (Cons x xs)
  show ?case
  proof (cases "conn_turn ng sb h x (w, rd, c, [])")
    case None
    then show ?thesis by (simp add: conn_turn_outs [of _ _ _ _ _ _ _ outs])
  next
    case (Some r)
    obtain w1 rd1 c1 o1 where r: "r = (w1, rd1, c1, o1)" by (cases r)
    with Some have "each (conn_turn ng sb h) (x # xs) (w, rd, c, outs) =
        each (conn_turn ng sb h) xs (w1, rd1, c1, outs @ o1)"
      by (simp add: conn_turn_outs [of _ _ _ _ _ _ _ outs])
    also have "\<dots> = write_before outs (each (conn_turn ng sb h) xs (w1, rd1, c1, o1))"
      unfolding Cons.IH [of w1 rd1 c1 "outs @ o1"] Cons.IH [of w1 rd1 c1 o1] by simp
    finally show ?thesis using Some r by simp
  qed
qed simp

lemma each_turn_over: "each (conn_turn ng sb h) xs (Some w, rd, c, outs) = Some (Some w, rd, c, outs)"
  by (induction xs) (simp_all add: conn_turn_def split: prod.splits)

text \<open>A sequence of turns is a run of the server's coroutine.\<close>

lemma turns_server_conn:
  assumes "each (conn_turn ng sb h) xs (None, rd, c, []) = Some (w, rd', c', outs)" "reader_bool rd"
  shows "uv_server_conn ng sb h xs rd c = Some (Return (end_of w, outs, c'))"
  using assms
proof (induction xs arbitrary: c rd outs)
  case Nil
  then show ?case by (auto simp: end_of_def)
next
  case (Cons x xs)
  obtain inp start fin where x: "x = (inp, start, fin)" by (cases x)
  obtain res rd1 where r: "reader_await h inp rd = (res, rd1)" by force
  show ?case
  proof (cases res)
    case (Inl e)
    then show ?thesis using Cons.prems x r by (auto simp: conn_turn_eq each_turn_over end_of_def)
  next
    case (Inr bs)
    have rest: "uv_server_conn ng sb h xs rd1 c1 = Some (Return (end_of w, outs1, c'))"
      if "each (conn_turn ng sb h) xs (loop_head rd1, rd1, c1, []) = Some (w, rd', c', outs1)" for c1 outs1
    proof (cases "reader_bool rd1")
      case True
      with that Cons.IH [of rd1 c1 outs1] show ?thesis by (simp add: loop_head_def)
    next
      case False
      with that show ?thesis by (auto simp: loop_head_def each_turn_over uv_server_conn_closed end_of_def)
    qed
    show ?thesis
    proof (cases "bs = []")
      case True
      then show ?thesis using Cons.prems x r Inr rest [of c outs] by (simp add: conn_turn_eq)
    next
      case False
      then obtain c1 out c2 where 1: "uv_serve ng sb bs c = Some (Return c1)"
        "uv_conn_flush h start fin c1 = Return (out, c2)"
        and e: "each (conn_turn ng sb h) xs (loop_head rd1, rd1, c2, case out of None \<Rightarrow> [] | Some b \<Rightarrow> [b]) =
          Some (w, rd', c', outs)"
        using Cons.prems x r Inr by (auto simp: conn_turn_eq split: option.splits outcome.splits)
      obtain outs1 where 2: "each (conn_turn ng sb h) xs (loop_head rd1, rd1, c2, []) = Some (w, rd', c', outs1)"
        "outs = (case out of None \<Rightarrow> [] | Some b \<Rightarrow> [b]) @ outs1"
        using e each_turn_outs [of ng sb h xs "loop_head rd1" rd1 c2 "case out of None \<Rightarrow> [] | Some b \<Rightarrow> [b]"]
        by (auto simp: write_before_def)
      then show ?thesis
        using rest [OF 2(1)] 1 x r Inr False Cons.prems(2) by (cases out) simp_all
    qed
  qed
qed

section \<open>Invariant\<close>

text \<open>A connection that awaits no task is where its turns have brought it; a connection that awaits a task has
  read one chunk more, which its task has served exactly if it has run.\<close>

definition slot_ok ::
  "'ng nghttp2 \<Rightarrow> server_base \<Rightarrow> 'ng uv_conn \<Rightarrow> coro set \<Rightarrow> (coro \<Rightarrow> nat \<times> bytes \<times> int \<times> int) \<Rightarrow> nat \<Rightarrow>
     'ng conn_slot \<Rightarrow> bool" where
  "slot_ok ng sb c0 R work k sl \<longleftrightarrow>
     (case cs_task sl of
        None \<Rightarrow>
          each (conn_turn ng sb k) (cs_inputs sl) (None, reader_new, c0, []) =
            Some (cs_end sl, cs_reader sl, cs_conn sl, cs_outs sl)
      | Some t \<Rightarrow> \<exists>xs inp start fin bs rd c.
          cs_inputs sl = xs @ [(inp, start, fin)] \<and> work t = (k, bs, start, fin) \<and> cs_end sl = None \<and>
          each (conn_turn ng sb k) xs (None, reader_new, c0, []) = Some (None, rd, c, cs_outs sl) \<and>
          reader_await k inp rd = (Inr bs, cs_reader sl) \<and> bs \<noteq> [] \<and>
          (if t \<in> R then uv_serve ng sb bs c = Some (Return (cs_conn sl)) else cs_conn sl = c))"

text \<open>\<open>S\<close>, \<open>R\<close>, \<open>M\<close> are the tasks that were submitted, have run and were resumed: a connection awaits a task
  exactly if the task is its own, submitted and not resumed.\<close>

definition pool_inv ::
  "'ng nghttp2 \<Rightarrow> server_base \<Rightarrow> 'ng uv_conn \<Rightarrow> coro set \<Rightarrow> coro set \<Rightarrow> coro set \<Rightarrow> 'ng pool \<Rightarrow> bool" where
  "pool_inv ng sb c0 S R M p \<longleftrightarrow>
     (\<forall>k. slot_ok ng sb c0 R (po_work p) k (po_slots p k)) \<and>
     (\<forall>k t. cs_task (po_slots p k) = Some t \<longleftrightarrow> t \<in> S - M \<and> fst (po_work p t) = k)"

lemma pool_inv_sched [simp]: "pool_inv ng sb c0 S R M (p\<lparr>po_sched := s\<rparr>) = pool_inv ng sb c0 S R M p"
  by (simp add: pool_inv_def)

lemma slot_ok_cong:
  "slot_ok ng sb c0 R work k sl \<Longrightarrow> (\<And>t. cs_task sl = Some t \<Longrightarrow> (t \<in> R' \<longleftrightarrow> t \<in> R) \<and> work' t = work t) \<Longrightarrow>
     slot_ok ng sb c0 R' work' k sl"
  by (cases "cs_task sl") (simp_all add: slot_ok_def)

lemma pool_invD:
  assumes "pool_inv ng sb c0 S R M p"
  shows "slot_ok ng sb c0 R (po_work p) k (po_slots p k)"
    and "cs_task (po_slots p k) = Some t \<longleftrightarrow> t \<in> S \<and> t \<notin> M \<and> fst (po_work p t) = k"
  using assms by (simp_all add: pool_inv_def)

lemma work_run_inv:
  assumes "pool_inv ng sb c0 S R M p" "t \<in> S" "t \<notin> R" "t \<notin> M" "work_run ng sb t p = Some p'"
  shows "pool_inv ng sb c0 S (insert t R) M p'"
proof -
  obtain k bs start fin where w: "po_work p t = (k, bs, start, fin)" by (cases "po_work p t") auto
  obtain c1 where c1: "uv_serve ng sb bs (cs_conn (po_slots p k)) = Some (Return c1)"
    and p': "p' = p\<lparr>po_slots := (po_slots p)(k := (po_slots p k)\<lparr>cs_conn := c1\<rparr>)\<rparr>"
    using assms(5) w by (auto simp: work_run_def split: prod.splits option.splits outcome.splits)
  have t: "cs_task (po_slots p k) = Some t" using assms(1,2,4) w by (auto simp: pool_inv_def)
  have uniq: "cs_task (po_slots p k') = Some t \<longleftrightarrow> k' = k" for k'
    using assms(1,2,4) w by (auto simp: pool_inv_def)
  have "slot_ok ng sb c0 (insert t R) (po_work p) k' (po_slots p' k')" for k'
  proof (cases "k' = k")
    case True
    have "slot_ok ng sb c0 R (po_work p) k (po_slots p k)" using assms(1) by (simp add: pool_inv_def)
    with t w c1 assms(3) show ?thesis by (fastforce simp: slot_ok_def True p')
  next
    case False
    with slot_ok_cong [OF pool_invD(1) [OF assms(1)], of k' "insert t R"] uniq [of k'] show ?thesis
      by (auto simp: p')
  qed
  with assms(1) show ?thesis by (auto simp: pool_inv_def p')
qed

lemma work_flush_inv:
  assumes "pool_inv ng sb c0 S R M p" "t \<in> S" "t \<in> R" "t \<notin> M" "work_flush t p = Some p'"
  shows "pool_inv ng sb c0 S R (insert t M) p'"
proof -
  obtain k bs start fin where w: "po_work p t = (k, bs, start, fin)" by (cases "po_work p t") auto
  obtain out c2 where c2: "uv_conn_flush k start fin (cs_conn (po_slots p k)) = Return (out, c2)"
    and p': "p' = p\<lparr>po_slots := (po_slots p)(k := (po_slots p k)\<lparr>cs_conn := c2,
      cs_end := loop_head (cs_reader (po_slots p k)), cs_outs := cs_outs (po_slots p k) @ (case out of None \<Rightarrow> [] | Some b \<Rightarrow> [b]), cs_task := None\<rparr>)\<rparr>"
    using assms(5) w by (auto simp: work_flush_def split: outcome.splits)
  have t: "cs_task (po_slots p k) = Some t" using assms(1,2,4) w by (auto simp: pool_inv_def)
  have ok: "slot_ok ng sb c0 R (po_work p) k' (po_slots p k')" for k' using assms(1) by (simp add: pool_inv_def)
  from ok [of k] t w assms(3) obtain xs inp rd c where
    xs: "cs_inputs (po_slots p k) = xs @ [(inp, start, fin)]"
    "each (conn_turn ng sb k) xs (None, reader_new, c0, []) = Some (None, rd, c, cs_outs (po_slots p k))"
    "reader_await k inp rd = (Inr bs, cs_reader (po_slots p k))" "bs \<noteq> []"
    "uv_serve ng sb bs c = Some (Return (cs_conn (po_slots p k)))"
    by (auto simp: slot_ok_def)
  have "slot_ok ng sb c0 R (po_work p) k' (po_slots p' k')" for k'
    using ok [of k'] xs c2 by (cases "k' = k") (simp_all add: slot_ok_def p' each_append conn_turn_eq)
  moreover have "cs_task (po_slots p' k') = Some t' \<longleftrightarrow> t' \<in> S - insert t M \<and> fst (po_work p' t') = k'" for k' t'
    using pool_invD(2) [OF assms(1), of k' t'] t w by (auto simp: p')
  ultimately show ?thesis by (simp add: pool_inv_def p')
qed

lemma chunk_inv:
  assumes "pool_inv ng sb c0 S R M p" "R \<subseteq> S" "M \<subseteq> S" "t \<notin> S"
    and "cs_task (po_slots p k) = None" "cs_end (po_slots p k) = None"
    and "reader_await k inp (cs_reader (po_slots p k)) = (Inr bs, rd)" "bs \<noteq> []"
  shows "pool_inv ng sb c0 (insert t S) R M (p\<lparr>po_slots := (po_slots p)(k := (po_slots p k)
      \<lparr>cs_inputs := cs_inputs (po_slots p k) @ [(inp, start, fin)], cs_reader := rd, cs_task := Some t\<rparr>),
      po_work := (po_work p)(t := (k, bs, start, fin))\<rparr>)"
proof -
  let ?sl = "(po_slots p k)\<lparr>cs_inputs := cs_inputs (po_slots p k) @ [(inp, start, fin)], cs_reader := rd, cs_task := Some t\<rparr>"
  have ok: "slot_ok ng sb c0 R (po_work p) k' (po_slots p k')" for k' using assms(1) by (simp add: pool_inv_def)
  have other: "cs_task (po_slots p k') \<noteq> Some t" for k' using assms(1,4) by (simp add: pool_inv_def)
  have "slot_ok ng sb c0 R ((po_work p)(t := (k, bs, start, fin))) k' (po_slots p k')" for k'
    by (rule slot_ok_cong [OF ok]) (use other in auto)
  moreover have "slot_ok ng sb c0 R ((po_work p)(t := (k, bs, start, fin))) k ?sl"
    using ok [of k] assms(2,4-8) by (auto simp: slot_ok_def)
  moreover have "cs_task (((po_slots p)(k := ?sl)) k') = Some t' \<longleftrightarrow>
      t' \<in> insert t S - M \<and> fst (((po_work p)(t := (k, bs, start, fin))) t') = k'" for k' t'
    using pool_invD(2) [OF assms(1), of k' t'] assms(3,4,5) by (auto split: if_splits)
  ultimately show ?thesis by (simp add: pool_inv_def)
qed

text \<open>An input without bytes is a turn of its own.\<close>

lemma idle_turn_inv:
  assumes "pool_inv ng sb c0 S R M p" "cs_task (po_slots p k) = None" "cs_end (po_slots p k) = None"
    and "conn_turn ng sb k x (None, cs_reader (po_slots p k), cs_conn (po_slots p k), cs_outs (po_slots p k)) =
      Some (w, rd, cs_conn (po_slots p k), cs_outs (po_slots p k))"
  shows "pool_inv ng sb c0 S R M (p\<lparr>po_slots := (po_slots p)(k := (po_slots p k)
      \<lparr>cs_inputs := cs_inputs (po_slots p k) @ [x], cs_reader := rd, cs_end := w\<rparr>)\<rparr>)"
proof -
  have "slot_ok ng sb c0 R (po_work p) k (po_slots p k)" using assms(1) by (simp add: pool_inv_def)
  then have "slot_ok ng sb c0 R (po_work p) k ((po_slots p k)
      \<lparr>cs_inputs := cs_inputs (po_slots p k) @ [x], cs_reader := rd, cs_end := w\<rparr>)"
    using assms(2-4) by (simp add: slot_ok_def each_append)
  with assms(1) show ?thesis by (auto simp: pool_inv_def)
qed

lemma each_run_inv:
  assumes "each (work_run ng sb) ts p = Some p'" "pool_inv ng sb c0 S R M p"
    and "distinct ts" "set ts \<inter> R = {}" "set ts \<inter> M = {}" "set ts \<subseteq> S"
  shows "pool_inv ng sb c0 S (R \<union> set ts) M p'"
  using assms
proof (induction ts arbitrary: p R)
  case (Cons t ts)
  then obtain p1 where p1: "work_run ng sb t p = Some p1" "each (work_run ng sb) ts p1 = Some p'"
    by (auto split: option.splits)
  from work_run_inv [OF Cons.prems(2) _ _ _ p1(1)] Cons.prems have "pool_inv ng sb c0 S (insert t R) M p1" by simp
  from Cons.IH [OF p1(2) this] Cons.prems show ?case by simp
qed simp

lemma each_flush_inv:
  assumes "each work_flush ts p = Some p'" "pool_inv ng sb c0 S R M p"
    and "distinct ts" "set ts \<subseteq> R" "set ts \<inter> M = {}" "R \<subseteq> S"
  shows "pool_inv ng sb c0 S R (M \<union> set ts) p'"
  using assms
proof (induction ts arbitrary: p M)
  case (Cons t ts)
  then obtain p1 where p1: "work_flush t p = Some p1" "each work_flush ts p1 = Some p'"
    by (auto split: option.splits)
  from work_flush_inv [OF Cons.prems(2) _ _ _ p1(1)] Cons.prems have "pool_inv ng sb c0 S R (insert t M) p1" by auto
  from Cons.IH [OF p1(2) this] Cons.prems show ?case by simp
qed simp

text \<open>The functions and turns of the connections leave the scheduler alone.\<close>

lemma each_sched: "(\<And>t p p'. f t p = Some p' \<Longrightarrow> po_sched p' = po_sched p) \<Longrightarrow> each f ts p = Some p' \<Longrightarrow> po_sched p' = po_sched p"
  by (induction ts arbitrary: p) (fastforce split: option.splits)+

lemma work_sched:
  "work_run ng sb t p = Some p' \<Longrightarrow> po_sched p' = po_sched p"
  "work_flush t p = Some p' \<Longrightarrow> po_sched p' = po_sched p"
  by (auto simp: work_run_def work_flush_def split: prod.splits option.splits outcome.splits)

definition pool_ok :: "'ng nghttp2 \<Rightarrow> server_base \<Rightarrow> 'ng uv_conn \<Rightarrow> 'ng pool \<Rightarrow> bool" where
  "pool_ok ng sb c0 p \<longleftrightarrow> sched_inv (po_sched p) \<and>
     pool_inv ng sb c0 (set (sc_submitted (po_sched p))) (set (sc_ran (po_sched p))) (set (sc_resumed (po_sched p))) p"

lemma pool_sched_step:
  assumes "pool_sched ng sb a p = Some p'"
  shows "sched_step a (po_sched p) = Some (po_sched p')"
proof -
  from assms obtain s p1 where "sched_step a (po_sched p) = Some s"
    "each (work_run ng sb) (drop (length (sc_ran (po_sched p))) (sc_ran s)) (p\<lparr>po_sched := s\<rparr>) = Some p1"
    "each work_flush (drop (length (sc_resumed (po_sched p))) (sc_resumed s)) p1 = Some p'"
    by (auto simp: pool_sched_def split: option.splits)
  then show ?thesis using each_sched [OF work_sched(1)] each_sched [OF work_sched(2)] by fastforce
qed

lemma pool_sched_ok:
  assumes "pool_sched ng sb a p = Some p'" "sched_inv (po_sched p)"
    and "pool_inv ng sb c0 (set (sc_submitted (po_sched p')))
           (set (sc_ran (po_sched p))) (set (sc_resumed (po_sched p))) p"
  shows "pool_ok ng sb c0 p'"
proof -
  let ?s = "po_sched p" and ?s' = "po_sched p'"
  note st = pool_sched_step [OF assms(1)]
  obtain p1 where p1: "each (work_run ng sb) (drop (length (sc_ran ?s)) (sc_ran ?s')) (p\<lparr>po_sched := ?s'\<rparr>) = Some p1"
    "each work_flush (drop (length (sc_resumed ?s)) (sc_resumed ?s')) p1 = Some p'"
    using assms(1) st by (auto simp: pool_sched_def split: option.splits)
  note ran = scheduler.newly_ran [OF assms(2) st refl]
  note res = scheduler.newly_resumed [OF assms(2) st refl]
  have good: "sched_inv ?s'" by (rule scheduler.step_good [OF assms(2) st])
  have "pool_inv ng sb c0 (set (sc_submitted ?s')) (set (sc_ran ?s')) (set (sc_resumed ?s)) p1"
    using each_run_inv [OF p1(1) _ ran(2-5)] assms(3) by (subst ran(1)) simp
  from each_flush_inv [OF p1(2) this res(2,4,3)] scheduler.in_order [OF good]
  have "pool_inv ng sb c0 (set (sc_submitted ?s')) (set (sc_ran ?s')) (set (sc_resumed ?s')) p'"
    by (subst res(1)) simp
  with good show ?thesis by (simp add: pool_ok_def)
qed

lemma pool_chunk_ok:
  assumes "pool_ok ng sb c0 p" "pool_chunk ng sb k t x p = Some p'"
  shows "pool_ok ng sb c0 p'"
proof -
  obtain inp start fin where x: "x = (inp, start, fin)" by (cases x)
  obtain res rd where ra: "reader_await k inp (cs_reader (po_slots p k)) = (res, rd)" by force
  have idle: "cs_task (po_slots p k) = None" "cs_end (po_slots p k) = None"
    using assms(2) by (auto simp: pool_chunk_def split: if_splits)
  have good: "sched_inv (po_sched p)"
    and inv: "pool_inv ng sb c0 (set (sc_submitted (po_sched p))) (set (sc_ran (po_sched p))) (set (sc_resumed (po_sched p))) p"
    using assms(1) by (simp_all add: pool_ok_def)
  note turn = idle_turn_inv [OF inv idle, of x]
  show ?thesis
  proof (cases res)
    case (Inl e)
    then have "p' = p\<lparr>po_slots := (po_slots p)(k := (po_slots p k)\<lparr>cs_inputs := cs_inputs (po_slots p k) @ [x],
        cs_reader := rd, cs_end := Some (Conn_failed e)\<rparr>)\<rparr>"
      using assms(2) idle ra by (simp add: pool_chunk_def x)
    with turn [of "Some (Conn_failed e)" rd] ra Inl good show ?thesis by (simp add: pool_ok_def conn_turn_eq x)
  next
    case (Inr bs)
    show ?thesis
    proof (cases "bs = []")
      case True
      then have "p' = p\<lparr>po_slots := (po_slots p)(k := (po_slots p k)\<lparr>cs_inputs := cs_inputs (po_slots p k) @ [x],
          cs_reader := rd, cs_end := loop_head rd\<rparr>)\<rparr>"
        using assms(2) idle ra Inr by (simp add: pool_chunk_def x)
      with turn [of "loop_head rd" rd] ra Inr True good show ?thesis by (simp add: pool_ok_def conn_turn_eq x)
    next
      case False
      let ?p = "p\<lparr>po_slots := (po_slots p)(k := (po_slots p k)\<lparr>cs_inputs := cs_inputs (po_slots p k) @ [x],
          cs_reader := rd, cs_task := Some t\<rparr>), po_work := (po_work p)(t := (k, bs, start, fin))\<rparr>"
      have st: "pool_sched ng sb (Do_await t) ?p = Some p'"
        using assms(2) idle ra Inr False by (simp add: pool_chunk_def x)
      note ss = pool_sched_step [OF st, simplified]
      have "t \<notin> set (sc_submitted (po_sched p))" using scheduler.submitted_new [OF good ss] by simp
      moreover have "set (sc_submitted (po_sched p')) = insert t (set (sc_submitted (po_sched p)))"
        using scheduler.submitted_grows [OF ss] by simp
      moreover have "set (sc_ran (po_sched p)) \<subseteq> set (sc_submitted (po_sched p))"
        "set (sc_resumed (po_sched p)) \<subseteq> set (sc_submitted (po_sched p))"
        using scheduler.in_order [OF good] by auto
      ultimately have "pool_inv ng sb c0 (set (sc_submitted (po_sched p'))) (set (sc_ran (po_sched p)))
          (set (sc_resumed (po_sched p))) ?p"
        using chunk_inv [OF inv _ _ _ idle, of t inp bs rd] ra Inr False x by simp
      then show ?thesis using pool_sched_ok [OF st] good by simp
    qed
  qed
qed

lemma pool_step_ok:
  assumes "pool_ok ng sb c0 p" "pool_step ng sb a p = Some p'"
  shows "pool_ok ng sb c0 p'"
proof (cases a)
  case (Pool_chunk k t x)
  with pool_chunk_ok [OF assms(1)] assms(2) show ?thesis by simp
next
  case (Pool_do b)
  then have b: "awaited b = None" "pool_sched ng sb b p = Some p'" using assms(2) by (auto split: if_splits)
  from scheduler.submitted_grows [OF pool_sched_step [OF b(2)]] b(1)
  have "sc_submitted (po_sched p') = sc_submitted (po_sched p)" by simp
  with pool_sched_ok [OF b(2), of c0] assms(1) show ?thesis by (simp add: pool_ok_def)
qed

lemma pool_new_ok: "pool_ok ng sb c0 (pool_new n c0)"
  using sched_inv_new [of n] by (simp add: pool_ok_def pool_new_def pool_inv_def slot_ok_def) (simp add: scheduler_new_def)

lemma pool_reachable_ok: "pool_reachable ng sb n c0 p \<Longrightarrow> pool_ok ng sb c0 p"
  by (induction rule: pool_reachable.induct) (auto intro: pool_new_ok pool_step_ok)

lemma pool_step_sched:
  assumes "pool_step ng sb a p = Some p'"
  shows "po_sched p' = po_sched p \<or> (\<exists>b. sched_step b (po_sched p) = Some (po_sched p'))"
proof (cases a)
  case (Pool_chunk k t x)
  then show ?thesis
    using assms by (auto simp: pool_chunk_def Let_def split: if_splits prod.splits sum.splits dest!: pool_sched_step)
next
  case (Pool_do b)
  with assms have "sched_step b (po_sched p) = Some (po_sched p')" by (auto split: if_splits dest: pool_sched_step)
  then show ?thesis by blast
qed

lemma pool_reachable_sched: "pool_reachable ng sb n c0 p \<Longrightarrow> reachable n (po_sched p)"
proof (induction rule: pool_reachable.induct)
  case pool_reach_new
  then show ?case by (simp add: pool_new_def reach_new)
next
  case (pool_reach_step p a p')
  with pool_step_sched [OF pool_reach_step.hyps(2)] show ?case by (auto intro: reach_step)
qed

lemma pool_idle:
  assumes "pool_ok ng sb c0 p" "mset (sc_resumed (po_sched p)) = mset (sc_submitted (po_sched p))"
  shows "cs_task (po_slots p k) = None"
proof -
  have "set (sc_resumed (po_sched p)) = set (sc_submitted (po_sched p))"
    using assms(2) by (metis set_mset_mset)
  with assms(1) show ?thesis
    by (cases "cs_task (po_slots p k)") (auto simp: pool_ok_def dest: pool_invD(2) [THEN iffD1])
qed

lemma pool_idle_server_conn:
  assumes "pool_ok ng sb c0 p" "cs_task (po_slots p k) = None"
  shows "uv_server_conn ng sb k (cs_inputs (po_slots p k)) reader_new c0 =
     Some (Return (end_of (cs_end (po_slots p k)), cs_outs (po_slots p k), cs_conn (po_slots p k)))"
proof -
  have "slot_ok ng sb c0 (set (sc_ran (po_sched p))) (po_work p) k (po_slots p k)"
    using assms(1) by (auto simp: pool_ok_def pool_inv_def)
  moreover have "reader_bool reader_new" by (simp add: reader_bool_def reader_new_def)
  ultimately show ?thesis using assms(2) by (intro turns_server_conn) (simp_all add: slot_ok_def)
qed

lemma pool_quiet:
  assumes "pool_reachable ng sb n c0 p" "0 < n" "quiescent (po_sched p)" "\<not> sc_stop (po_sched p)"
  shows "cs_task (po_slots p k) = None"
proof -
  note ok = pool_reachable_ok [OF assms(1)]
  have inv: "sched_inv (po_sched p)" using ok by (simp add: pool_ok_def)
  have "length (sc_threads (po_sched p)) = n" by (rule reachable_threads [OF pool_reachable_sched [OF assms(1)]])
  then show ?thesis using pool_idle [OF ok] quiescent_done [OF inv] assms(2-4) by auto
qed

lemma pool_run_reachable:
  "pool_reachable ng sb n c0 p \<Longrightarrow> each (pool_step ng sb) as p = Some p' \<Longrightarrow> pool_reachable ng sb n c0 p'"
  by (induction as arbitrary: p) (auto split: option.splits intro: pool_reach_step)

text \<open>A task is run by one thread only.\<close>

lemma run_once:
  assumes "sched_inv s" "i < length (sc_threads s)" "sc_threads s ! i = W_run t"
    and "j < length (sc_threads s)" "sc_threads s ! j = W_run t"
  shows "i = j"
proof (rule ccontr)
  assume "i \<noteq> j"
  let ?ws = "(sc_threads s)[i := W_idle]"
  have "W_run t \<in> set ?ws" using assms(4,5) \<open>i \<noteq> j\<close> by (metis length_list_update nth_list_update_neq nth_mem)
  then have "0 < count (held runs ?ws) t" using held_runs [of t ?ws] by simp
  moreover have "held runs ?ws + {#t#} = held runs (sc_threads s)"
    using held_update [OF assms(2), of runs W_idle] assms(3) by simp
  ultimately have "1 < count (held runs (sc_threads s)) t" by (metis add.commute count_add_mset less_add_same_cancel1 add_mset_add_single plus_1_eq_Suc)
  with inv_places(1,3) [OF assms(1), of t] show False by linarith
qed

lemma running_task:
  assumes "pool_ok ng sb c0 p" "i < length (sc_threads (po_sched p))" "sc_threads (po_sched p) ! i = W_run t"
  shows "cs_task (po_slots p (fst (po_work p t))) = Some t"
proof -
  have "sched_inv (po_sched p)" using assms(1) by (simp add: pool_ok_def)
  moreover have "W_run t \<in> set (sc_threads (po_sched p))" using assms(2,3) by (metis nth_mem)
  ultimately have "t \<in> set (sc_submitted (po_sched p)) \<and> t \<notin> set (sc_resumed (po_sched p))"
    using inv_place(2) by blast
  with assms(1) show ?thesis by (auto simp: pool_ok_def pool_inv_def)
qed

lemmas reader_steps = reader_await_def reader_await_ready_def reader_await_suspend_def reader_read_cb_def
  reader_alloc_cb_def reader_await_resume_def reader_new_def reader_bool_def UV_EOF_def Let_def

section \<open>Properties\<close>

text \<open>C9: the thread pool is transparent. Any number of connections share a pool of any number of threads. However
  their steps interleave, a connection that awaits no task is as its coroutine alone would be after
  the inputs it has read, one after the other: it waits for more, has closed or has failed alike,
  has the same state and has written the same bytes. And when the threads of a running pool have
  nothing left to do, no connection awaits a task: every chunk was served and flushed.\<close>

theorem pool_transparent:
  assumes "pool_reachable ng sb n c0 p"
  shows "(cs_task (po_slots p k) = None \<longrightarrow>
       uv_server_conn ng sb k (cs_inputs (po_slots p k)) reader_new c0 =
         Some (Return (end_of (cs_end (po_slots p k)), cs_outs (po_slots p k), cs_conn (po_slots p k)))) \<and>
     (0 < n \<longrightarrow> quiescent (po_sched p) \<longrightarrow> \<not> sc_stop (po_sched p) \<longrightarrow> cs_task (po_slots p k) = None)"
  using pool_idle_server_conn [OF pool_reachable_ok [OF assms]] pool_quiet [OF assms] by blast

text \<open>Two connections and two threads: both chunks are in work at the same time, the second is done first, and
  its client closes the connection.\<close>

theorem pool_transparent_witness:
  "\<exists>p. each (pool_step (sample_ng sample_rx) sample_server)
       ([Pool_chunk 0 10 (Uv_read 1 [0], 0, 0), Pool_chunk 1 11 (Uv_read 1 [0], 0, 0)] @
        map Pool_do [Do_pop 0, Do_pop 1, Do_run 1, Do_run 0, Do_push 1, Do_send 1, Do_async, Do_join] @
        [Pool_chunk 1 12 (Uv_read UV_EOF [], 0, 0)])
       (pool_new 2 (sample_uv_conn [])) = Some p \<and>
     cs_task (po_slots p 0) = Some 10 \<and> cs_end (po_slots p 1) = Some Conn_closed \<and>
     uv_server_conn (sample_ng sample_rx) sample_server 1 [(Uv_read 1 [0], 0, 0), (Uv_read UV_EOF [], 0, 0)] reader_new
         (sample_uv_conn []) = Some (Return (Conn_closed, cs_outs (po_slots p 1), cs_conn (po_slots p 1)))"
proof -
  let ?ng = "sample_ng sample_rx"
  let ?as = "[Pool_chunk 0 10 (Uv_read 1 [0], 0, 0), Pool_chunk 1 11 (Uv_read 1 [0], 0, 0)] @
        map Pool_do [Do_pop 0, Do_pop 1, Do_run 1, Do_run 0, Do_push 1, Do_send 1, Do_async, Do_join] @
        [Pool_chunk 1 12 (Uv_read UV_EOF [], 0, 0)]"
  obtain p where p: "each (pool_step ?ng sample_server) ?as (pool_new 2 (sample_uv_conn [])) = Some p"
    "cs_task (po_slots p 0) = Some 10" "cs_task (po_slots p 1) = None" "cs_end (po_slots p 1) = Some Conn_closed"
    "cs_inputs (po_slots p 1) = [(Uv_read 1 [0], 0, 0), (Uv_read UV_EOF [], 0, 0)]"
    by (simp add: pool_new_def pool_chunk_def pool_sched_def work_run_def work_flush_def sched_step_def scheduler_new_def
        sched_defs step_ops sample_serve uv_conn_flush_ok reader_capacity_def numeral_2_eq_2 loop_head_def reader_steps)
  from pool_transparent [OF pool_run_reachable [OF pool_reach_new p(1)], of 1] p show ?thesis
    by (auto simp: end_of_def)
qed

text \<open>C10: nothing of a connection is shared. While a thread runs a task of a connection, the connection's
  coroutine awaits exactly this task, so the thread of the loop does not resume it with new input, and no
  other thread runs a task of the same connection: connections need no lock.\<close>

theorem pool_exclusive:
  assumes "pool_reachable ng sb n c0 p"
    and "i < length (sc_threads (po_sched p))" "sc_threads (po_sched p) ! i = W_run t" "fst (po_work p t) = k"
  shows "cs_task (po_slots p k) = Some t \<and> (\<forall>t' x. pool_step ng sb (Pool_chunk k t' x) p = None) \<and>
     (\<forall>j t'. j < length (sc_threads (po_sched p)) \<longrightarrow> sc_threads (po_sched p) ! j = W_run t' \<longrightarrow>
        fst (po_work p t') = k \<longrightarrow> j = i)"
proof -
  have ok: "pool_ok ng sb c0 p" by (rule pool_reachable_ok [OF assms(1)])
  then have inv: "sched_inv (po_sched p)" by (simp add: pool_ok_def)
  have t: "cs_task (po_slots p k) = Some t" using running_task [OF ok assms(2,3)] assms(4) by simp
  have "j = i" if j: "j < length (sc_threads (po_sched p))" "sc_threads (po_sched p) ! j = W_run t'"
    "fst (po_work p t') = k" for j t'
  proof -
    have "t' = t" using running_task [OF ok j(1,2)] j(3) t by simp
    then show "j = i" using run_once [OF inv assms(2,3) j(1)] j(2) by simp
  qed
  with t show ?thesis by (simp add: pool_chunk_def)
qed

theorem pool_exclusive_witness:
  "\<exists>p. each (pool_step (sample_ng sample_rx) sample_server)
       [Pool_chunk 0 10 (Uv_read 1 [0], 0, 0), Pool_chunk 1 11 (Uv_read 1 [0], 0, 0), Pool_do (Do_pop 0), Pool_do (Do_pop 1)]
       (pool_new 2 (sample_uv_conn [])) = Some p \<and>
     sc_threads (po_sched p) = [W_run 10, W_run 11] \<and> cs_task (po_slots p 1) = Some 11 \<and>
     pool_step (sample_ng sample_rx) sample_server (Pool_chunk 1 12 (Uv_read 1 [0], 0, 0)) p = None"
proof -
  let ?as = "[Pool_chunk 0 10 (Uv_read 1 [0], 0, 0), Pool_chunk 1 11 (Uv_read 1 [0], 0, 0), Pool_do (Do_pop 0), Pool_do (Do_pop 1)]"
  obtain p where p: "each (pool_step (sample_ng sample_rx) sample_server) ?as (pool_new 2 (sample_uv_conn [])) = Some p"
    "sc_threads (po_sched p) = [W_run 10, W_run 11]" "fst (po_work p 11) = 1"
    by (simp add: pool_new_def pool_chunk_def pool_sched_def sched_step_def scheduler_new_def
        sched_defs step_ops reader_capacity_def numeral_2_eq_2 loop_head_def reader_steps)
  from pool_exclusive [OF pool_run_reachable [OF pool_reach_new p(1)], of 1 11 1] p show ?thesis by simp
qed

end
