(* ===== verification/Calls.thy ===== *)
theory Calls
  imports Pool
begin

text \<open>
  Calls over a whole connection. A call's frames arrive in any number of chunks, which the server reads one
  after the other, answering what it can in between; the request that is in progress waits in the
  connection's map. \<open>exchange\<close> is a conversation (theory \<open>Server\<close>) that also tells which events
  nghttp2 made of the chunks and which responses were sent. The lemmas find the one response of a
  call in it, and follow it through a pool of threads on the uv backend and through the asio backend.
\<close>

section \<open>Exchanges\<close>

inductive exchange ::
  "'ng nghttp2 \<Rightarrow> server_base \<Rightarrow> bytes list \<Rightarrow> 'ng session \<times> streams \<Rightarrow> event list \<Rightarrow> response list \<Rightarrow> bytes list \<Rightarrow>
     'ng session \<times> streams \<Rightarrow> bool"
  for ng sb where
  ex_nil: "exchange ng sb [] x [] [] [] x"
| ex_cons: "session_read ng bs s = (Inr evs, s1) \<Longrightarrow> fold uv_conn_event evs (st, []) = (st1, reqs) \<Longrightarrow>
    drains ng s1 cs1 s2 \<Longrightarrow> answers sb reqs resps \<Longrightarrow> all_sent ng resps s2 cs2 s3 \<Longrightarrow>
    exchange ng sb bss (s3, st1) evs' resps' cs z \<Longrightarrow>
    exchange ng sb (bs # bss) (s, st) (evs @ evs') (resps @ resps') ((cs1 @ cs2) @ cs) z"

lemma exchange_conversation: "exchange ng sb bss x evs resps cs y \<Longrightarrow> conversation ng sb bss x cs y"
proof (induction rule: exchange.induct)
  case (ex_nil x)
  show ?case by (rule conv_nil)
next
  case (ex_cons bs s evs s1 st st1 reqs cs1 s2 resps cs2 s3 bss evs' resps' cs z)
  then have "chunk_served ng sb bs (s, st) (cs1 @ cs2) (s3, st1)" by (auto simp: chunk_served_def)
  then show ?case using ex_cons.IH by (rule conv_cons)
qed

lemma conversation_exchange:
  "conversation ng sb bss x cs y \<Longrightarrow> \<exists>evs resps. exchange ng sb bss x evs resps cs y"
proof (induction rule: conversation.induct)
  case (conv_nil x)
  then show ?case by (blast intro: ex_nil)
next
  case (conv_cons bs x cs y bss ds z)
  obtain s st s3 st1 where [simp]: "x = (s, st)" "y = (s3, st1)" by (cases x, cases y) auto
  from conv_cons.hyps(1) obtain evs s1 reqs cs1 s2 resps cs2 where
    "session_read ng bs s = (Inr evs, s1)" "fold uv_conn_event evs (st, []) = (st1, reqs)"
    "drains ng s1 cs1 s2" "answers sb reqs resps" "all_sent ng resps s2 cs2 s3" and [simp]: "cs = cs1 @ cs2"
    by (auto simp: chunk_served_def)
  then show ?case using conv_cons.IH by simp (blast intro: ex_cons [simplified])
qed

section \<open>The requests of an exchange\<close>

lemma uv_conn_event_acc:
  "uv_conn_event e (st, rs) = (fst (uv_conn_event e (st, [])), snd (uv_conn_event e (st, [])) @ rs)"
  by (simp add: uv_conn_event_def Let_def split: type_t.split option.split)

lemma fold_event_acc:
  "fold uv_conn_event es (st, rs) =
     (fst (fold uv_conn_event es (st, [])), snd (fold uv_conn_event es (st, [])) @ rs)"
proof (induction es arbitrary: st rs)
  case (Cons e es)
  obtain st1 rs1 where e: "uv_conn_event e (st, []) = (st1, rs1)" by force
  then have "uv_conn_event e (st, rs) = (st1, rs1 @ rs)" using uv_conn_event_acc [of e st rs] by simp
  then show ?case using Cons.IH [of st1 "rs1 @ rs"] Cons.IH [of st1 rs1] e by simp
qed simp

text \<open>A response with the stream it is for, next to the result of processing a request.\<close>

definition answer_of :: "server_base \<Rightarrow> request \<Rightarrow> int \<times> response outcome" where
  "answer_of sb req = (req_id req, server_process sb req)"

definition sent_for :: "response \<Rightarrow> int \<times> response outcome" where
  "sent_for resp = (resp_id resp, Return resp)"

lemma answers_sent_for: "answers sb reqs resps \<Longrightarrow> map (answer_of sb) reqs = map sent_for resps"
  using answers_ids [of sb reqs resps]
  by (simp add: answers_def answer_of_def sent_for_def list_eq_iff_nth_eq)

lemma exchange_answers:
  assumes "exchange ng sb bss x evs resps cs y"
  shows "\<exists>reqs. fold uv_conn_event evs (snd x, []) = (snd y, reqs) \<and>
     mset (map (answer_of sb) reqs) = mset (map sent_for resps)"
  using assms
proof (induction rule: exchange.induct)
  case (ex_nil x)
  then show ?case by simp
next
  case (ex_cons bs s evs s1 st st1 reqs cs1 s2 resps cs2 s3 bss evs' resps' cs z)
  then obtain reqs' where r: "fold uv_conn_event evs' (st1, []) = (snd z, reqs')"
    "mset (map (answer_of sb) reqs') = mset (map sent_for resps')" by auto
  have "fold uv_conn_event (evs @ evs') (st, []) = (snd z, reqs' @ reqs)"
    using ex_cons.hyps(2) r(1) fold_event_acc [of evs' st1 reqs] by simp
  moreover have "mset (map (answer_of sb) (reqs' @ reqs)) = mset (map sent_for (resps @ resps'))"
    using r(2) answers_sent_for [OF ex_cons.hyps(4)] by simp
  ultimately show ?case by (auto simp del: map_append mset_append)
qed

lemma single_response:
  assumes "mset (map (answer_of sb) reqs) = mset (map sent_for resps)"
    and "filter (\<lambda>r. req_id r = i) reqs = [r]" "server_process sb r = Return resp"
  shows "filter (\<lambda>p. resp_id p = i) resps = [resp]"
proof -
  have "mset (map (answer_of sb) (filter (\<lambda>r. req_id r = i) reqs)) = mset (map sent_for (filter (\<lambda>p. resp_id p = i) resps))"
  proof -
    have f: "map (answer_of sb) (filter (\<lambda>r. req_id r = i) reqs) = filter (\<lambda>a. fst a = i) (map (answer_of sb) reqs)"
      "map sent_for (filter (\<lambda>p. resp_id p = i) resps) = filter (\<lambda>a. fst a = i) (map sent_for resps)"
      by (simp_all add: filter_map comp_def answer_of_def sent_for_def)
    show ?thesis unfolding f mset_filter by (simp only: assms(1))
  qed
  then have "map sent_for (filter (\<lambda>p. resp_id p = i) resps) = [answer_of sb r]"
    using assms(2) by (simp flip: mset_map)
  then show ?thesis using assms(3) by (auto simp: answer_of_def sent_for_def)
qed

section \<open>From the frames to the request\<close>

lemma request_of_frames:
  assumes "\<not> list_ex bad_header hs" "path_target hs = (svc, meth)" "svc \<noteq> []" "meth \<noteq> []"
    and "message_read_all message_default cs = Inr m"
  shows "let r = request_reads cs (request_headers hs (request_new i))
     in request_bool r \<and> req_id r = i \<and> req_service r = svc \<and> req_method r = meth \<and>
        request_data r = message_data m \<and>
        context_of_request r = context_of_request (request_headers hs (request_new i))"
proof -
  let ?h = "request_headers hs (request_new i)"
  have h: "\<not> request_invalid ?h" "(req_service ?h, req_method ?h) = path_target hs"
    using assms(1) request_headers_target [of "request_new i" hs]
    by (simp_all add: request_headers_invalid path_target_def)
  have "req_msg (request_new i) = message_default" by (simp add: request_new_def)
  then have "request_reads cs ?h = ?h\<lparr>req_msg := m\<rparr>"
    using h(1) assms(5) by (intro request_reads_ok) simp_all
  then show ?thesis
    using h assms(2-4)
    by (simp add: request_bool_def request_data_def context_of_request_def request_invalid_def request_flag_def)
qed

text \<open>The request that the server sees for a call, and the answer it gets. nghttp2 may close the stream after its
  end, in the same exchange.\<close>

lemma local_run_closes:
  "list_all (\<lambda>e. ev_type e = Stream_close) es \<Longrightarrow> local_run stream_event es (None, rs) = (None, rs)"
  by (induction es) (auto simp: stream_event_def)

lemma local_run_call:
  assumes "0 < i" "list_all (\<lambda>e. ev_type e = Stream_close) ends"
  shows "local_run stream_event (unary_events i hs cs @ ends) (None, rs) =
     (None, request_reads cs (request_headers hs (request_new i)) # rs)"
  by (simp only: local_run_append local_run_unary [OF assms(1)] local_run_closes [OF assms(2)])

lemma call_request:
  assumes "0 < i" "of_stream i evs = unary_events i hs (c # cs) @ ends" "streams_inv st" "um_find i st = None"
    and "\<not> list_ex bad_header hs" "path_target hs = (svc, meth)" "svc \<noteq> []" "meth \<noteq> []"
    and "length d < 2 ^ 32" "\<not> bit (length d) 15" "\<not> bit (length d) 23"
    and "concat (c # cs) = message_bytes (message_of_string d)" "5 \<le> length c" "[] \<notin> set cs"
    and "find (\<lambda>s. service_name s = svc) svcs = Some (service_new name impl rpcs)"
    and "find (\<lambda>r. rpc_method r = meth) rpcs = Some rpc" "rpc_parse rpc d = Some q"
    and "\<And>ctx. (\<And>k. context_meta ctx k = (case map_of (filter custom_header hs) k of None \<Rightarrow> [] | Some v \<Rightarrow> v)) \<Longrightarrow>
        impl rpc ctx q = Inr (stat, Some p)"
    and "rpc_serialize rpc p = Some out"
    and "fold uv_conn_event evs (st, []) = (st', reqs)"
    and "list_all (\<lambda>e. ev_type e = Stream_close) ends"
  shows "\<exists>r resp. filter (\<lambda>r. req_id r = i) reqs = [r] \<and> server_process (server_of svcs) r = Return resp \<and>
     resp_status resp = stat \<and> response_bytes resp = message_bytes (message_of_string out)"
proof -
  let ?r = "request_reads (c # cs) (request_headers hs (request_new i))"
  have 1: "filter (\<lambda>r. req_id r = i) reqs = [?r]"
    using uvd.isolation [OF assms(3), of i evs "[]"] local_run_call [OF assms(1,21), of hs "c # cs" "[]"]
      assms(2,4,20) by simp
  obtain m where m: "message_read_all message_default (c # cs) = Inr m" "message_data m = d"
    using message_reassembles [OF assms(9-14)] by blast
  note r = request_of_frames [OF assms(5-8) m(1), of i, unfolded Let_def]
  have "impl rpc (context_of_request ?r) q = Inr (stat, Some p)"
    using assms(18) context_meta_headers [OF assms(5), of i] r by simp
  then have "\<exists>resp. server_process (server_of svcs) ?r = Return resp \<and> resp_id resp = req_id ?r \<and>
     resp_status resp = stat \<and> response_bytes resp = message_bytes (message_of_string out)"
    using r m(2) assms(15-17,19) by (intro server_dispatches [of ?r svcs name impl rpcs rpc q]) simp_all
  with 1 show ?thesis by blast
qed

text \<open>A call in an exchange has one response.\<close>

lemma call_exchanged:
  assumes "exchange ng (server_of svcs) bss (s, st) evs resps outs y"
    and "0 < i" "of_stream i evs = unary_events i hs (c # cs) @ ends" "streams_inv st" "um_find i st = None"
    and "\<not> list_ex bad_header hs" "path_target hs = (svc, meth)" "svc \<noteq> []" "meth \<noteq> []"
    and "length d < 2 ^ 32" "\<not> bit (length d) 15" "\<not> bit (length d) 23"
    and "concat (c # cs) = message_bytes (message_of_string d)" "5 \<le> length c" "[] \<notin> set cs"
    and "find (\<lambda>s. service_name s = svc) svcs = Some (service_new name impl rpcs)"
    and "find (\<lambda>r. rpc_method r = meth) rpcs = Some rpc" "rpc_parse rpc d = Some q"
    and "\<And>ctx. (\<And>k. context_meta ctx k = (case map_of (filter custom_header hs) k of None \<Rightarrow> [] | Some v \<Rightarrow> v)) \<Longrightarrow>
        impl rpc ctx q = Inr (stat, Some p)"
    and "rpc_serialize rpc p = Some out"
    and "list_all (\<lambda>e. ev_type e = Stream_close) ends"
  shows "\<exists>resp. filter (\<lambda>r. resp_id r = i) resps = [resp] \<and> resp_status resp = stat \<and>
     response_bytes resp = message_bytes (message_of_string out)"
proof -
  obtain reqs where reqs: "fold uv_conn_event evs (st, []) = (snd y, reqs)"
    "mset (map (answer_of (server_of svcs)) reqs) = mset (map sent_for resps)"
    using exchange_answers [OF assms(1)] by auto
  from call_request [OF assms(2-20) reqs(1) assms(21)] obtain r resp where
    "filter (\<lambda>r. req_id r = i) reqs = [r]" "server_process (server_of svcs) r = Return resp"
    "resp_status resp = stat" "response_bytes resp = message_bytes (message_of_string out)" by blast
  with single_response [OF reqs(2)] show ?thesis by blast
qed

section \<open>Exchanges on a pool\<close>

text \<open>Chunks that libuv reads and whose writes succeed.\<close>

definition reads_of :: "bytes list \<Rightarrow> chunk list" where
  "reads_of bss = map (\<lambda>bs. (Uv_read (int (length bs)) bs, 0, 0)) bss"

text \<open>A connection that has read the chunks of an exchange and is idle waits for more and has written the
  exchange's bytes.\<close>

lemma pool_exchange:
  assumes "pool_reachable ng sb n c0 p" "cs_task (po_slots p k) = None"
    and "cs_inputs (po_slots p k) = reads_of bss" "uvc_buffer c0 = []"
    and "list_all (\<lambda>bs. bs \<noteq> [] \<and> length bs \<le> reader_capacity) bss"
    and "exchange ng sb bss (uvc_session c0, uvc_streams c0) evs resps outs y"
  shows "end_of (cs_end (po_slots p k)) = Conn_waiting" "concat (cs_outs (po_slots p k)) = concat outs"
    and "cs_conn (po_slots p k) = c0\<lparr>uvc_session := fst y, uvc_streams := snd y\<rparr>"
proof -
  have "reader_bool reader_new" by (simp add: reader_bool_def reader_new_def)
  from uv_conversation [OF exchange_conversation [OF assms(6)] refl assms(4) this assms(5), of k]
  show "end_of (cs_end (po_slots p k)) = Conn_waiting" "concat (cs_outs (po_slots p k)) = concat outs"
    and "cs_conn (po_slots p k) = c0\<lparr>uvc_session := fst y, uvc_streams := snd y\<rparr>"
    using pool_idle_server_conn [OF pool_reachable_ok [OF assms(1)] assms(2)] by (auto simp: assms(3) reads_of_def)
qed

section \<open>A call in two chunks\<close>

text \<open>For the witnesses: headers and most of the message in the first chunk, its last byte in the second.\<close>

definition halves_rx :: "bytes \<Rightarrow> int \<times> ng_callback list" where
  "halves_rx bs =
     (int (length bs),
      if bs = [1] then [On_header 1 '':path'' ''/S/M'', On_data_chunk 1 [0, 0, 0, 0, 2, 5]]
      else [On_data_chunk 1 [6], On_frame_recv 1 1])"

definition half_conn :: "sample_state uv_conn" where
  "half_conn = the (case uv_serve (sample_ng halves_rx) sample_server [1] (sample_uv_conn []) of
     Some (Return c) \<Rightarrow> Some c | _ \<Rightarrow> None)"

lemma halves_serve:
  "uv_serve (sample_ng halves_rx) sample_server [1] (sample_uv_conn []) = Some (Return half_conn)"
  "uv_serve (sample_ng halves_rx) sample_server [2] half_conn =
     Some (Return ((sample_uv_conn [])\<lparr>uvc_session := sample_sent, uvc_buffer := [1, 2, 0, 0, 0, 0, 2, 6, 5, 3]\<rparr>))"
  by code_simp+

lemma half_conn_parts: "uvc_buffer half_conn = []" "uvc_session half_conn = sample_session []"
  by code_simp+

lemma halves_read:
  "session_read (sample_ng halves_rx) [1] (sample_session []) =
     (Inr [header_event 1 ('':path'', ''/S/M''), data_event 1 [0, 0, 0, 0, 2, 5]], sample_session [])"
  "session_read (sample_ng halves_rx) [2] (sample_session []) = (Inr [data_event 1 [6], end_event 1], sample_session [])"
  by (simp_all add: session_read_def sample_ng_def halves_rx_def sample_session_def header_event_def data_event_def
      end_event_def Let_def session_callbacks_def callback_defs session_emit_def)

lemma served_exchange:
  assumes "uv_serve ng sb bs c = Some (Return c')" "session_read ng bs (uvc_session c) = (Inr evs, s1)"
    and "exchange ng sb bss (uvc_session c', uvc_streams c') evs' resps' cs' z"
  shows "\<exists>resps cs. exchange ng sb (bs # bss) (uvc_session c, uvc_streams c) (evs @ evs') (resps @ resps') (cs @ cs') z \<and>
     uvc_buffer c' = uvc_buffer c @ concat cs"
proof -
  obtain cs s' st' where ch: "chunk_served ng sb bs (uvc_session c, uvc_streams c) cs (s', st')"
    "c' = c\<lparr>uvc_session := s', uvc_streams := st', uvc_buffer := uvc_buffer c @ concat cs\<rparr>"
    using assms(1,2) unfolding uv_serve_iff by auto
  then obtain reqs cs1 s2 resps cs2 where f: "fold uv_conn_event evs (uvc_streams c, []) = (st', reqs)"
    "drains ng s1 cs1 s2" "answers sb reqs resps" "all_sent ng resps s2 cs2 s'" and cs: "cs = cs1 @ cs2"
    using assms(2) unfolding chunk_served_def by auto
  have "exchange ng sb bss (s', st') evs' resps' cs' z" using assms(3) ch(2) by simp
  from ex_cons [OF assms(2) f this] ch(2) cs show ?thesis
    by (intro exI [of _ resps] exI [of _ "cs1 @ cs2"]) simp
qed

lemma halves_exchange:
  "\<exists>resps outs. exchange (sample_ng halves_rx) sample_server [[1], [2]] (sample_session [], [])
     (unary_events 1 [('':path'', ''/S/M'')] [[0, 0, 0, 0, 2, 5], [6]]) resps outs (sample_sent, []) \<and>
     concat outs = [1, 2, 0, 0, 0, 0, 2, 6, 5, 3]"
proof -
  obtain resps2 outs2 where 2: "exchange (sample_ng halves_rx) sample_server [[2]]
      (uvc_session half_conn, uvc_streams half_conn) [data_event 1 [6], end_event 1] resps2 outs2 (sample_sent, [])"
    "concat outs2 = [1, 2, 0, 0, 0, 0, 2, 6, 5, 3]"
    using served_exchange [OF halves_serve(2) _ ex_nil] halves_read(2) by (auto simp: half_conn_parts sample_uv_conn_def)
  have "session_read (sample_ng halves_rx) [1] (uvc_session (sample_uv_conn [])) =
      (Inr [header_event 1 ('':path'', ''/S/M''), data_event 1 [0, 0, 0, 0, 2, 5]], sample_session [])"
    using halves_read(1) by (simp add: sample_uv_conn_def)
  from served_exchange [OF halves_serve(1) this 2(1)] obtain resps cs where
    "exchange (sample_ng halves_rx) sample_server [[1], [2]] (sample_session [], [])
      (unary_events 1 [('':path'', ''/S/M'')] [[0, 0, 0, 0, 2, 5], [6]]) (resps @ resps2) (cs @ outs2) (sample_sent, [])"
    "concat cs = []"
    by (auto simp: half_conn_parts sample_uv_conn_def unary_events_def)
  with 2(2) show ?thesis by (intro exI [of _ "resps @ resps2"] exI [of _ "cs @ outs2"]) simp
qed

lemma halves_call:
  shows "of_stream 1 (unary_events 1 [('':path'', ''/S/M'')] [[0, 0, 0, 0, 2, 5], [6]]) =
       unary_events 1 [('':path'', ''/S/M'')] [[0, 0, 0, 0, 2, 5], [6]]"
    and "path_target [('':path'', ''/S/M'')] = (''S'', ''M'')" "\<not> list_ex bad_header [('':path'', ''/S/M'')]"
    and "concat [[0, 0, 0, 0, 2, 5], [6]] = message_bytes (message_of_string [5, 6])"
proof -
  have "split_path ''/S/M'' = Some (''S'', ''M'')" by (simp add: split_path_def)
  then show "path_target [('':path'', ''/S/M'')] = (''S'', ''M'')" "\<not> list_ex bad_header [('':path'', ''/S/M'')]"
    by (simp_all add: path_target_def bad_header_def)
  show "of_stream 1 (unary_events 1 [('':path'', ''/S/M'')] [[0, 0, 0, 0, 2, 5], [6]]) =
       unary_events 1 [('':path'', ''/S/M'')] [[0, 0, 0, 0, 2, 5], [6]]"
    by (simp add: unary_events_def header_event_def data_event_def end_event_def)
  show "concat [[0, 0, 0, 0, 2, 5], [6]] = message_bytes (message_of_string [5, 6])"
    by (simp add: message_bytes_of_string prefix_bytes_def)
qed

end
