(* ===== verification/Generated.thy ===== *)
theory Generated
  imports Codegen Service
begin

text \<open>
  What the header written by \<^verbatim>\<open>Grpcxx::Generate\<close> (src/protoc-gen-grpcxx/grpcxx.cpp) declares, as values of the
  library's classes: \<^verbatim>\<open>Service\<close>, a \<^verbatim>\<open>grpcxx::service\<close> with the full name of the proto service and one
  \<^verbatim>\<open>grpcxx::rpc\<close> per method, over the generated \<^verbatim>\<open>ServiceImpl\<close>, whose \<^verbatim>\<open>call\<close> is a stub until the
  application specialises it. The types of the messages, with their parse and serialise functions,
  are protobuf's; here they are functions of the type's name.
\<close>

section \<open>The declarations\<close>

definition generated_name :: "string \<Rightarrow> service_desc \<Rightarrow> string" where
  "generated_name package s = package @ (if package = [] then [] else ''.'') @ sd_name s"

definition generated_rpc ::
  "(string \<Rightarrow> bytes \<Rightarrow> 'q option) \<Rightarrow> (string \<Rightarrow> 'p \<Rightarrow> bytes option) \<Rightarrow> method_desc \<Rightarrow> ('q, 'p) rpc" where
  "generated_rpc parse serialize m =
     \<lparr>rpc_name = fixed_string_new (literal (md_name m)), rpc_parse = parse (md_input m),
      rpc_serialize = serialize (md_output m)\<rparr>"

text \<open>\<^verbatim>\<open>ServiceImpl::call\<close>, the primary template.\<close>

definition stub_call :: "('q, 'p) impl" where
  "stub_call rpc ctx req = Inr (status_of_code Code_unimplemented, None)"

definition generated_service ::
  "(string \<Rightarrow> bytes \<Rightarrow> 'q option) \<Rightarrow> (string \<Rightarrow> 'p \<Rightarrow> bytes option) \<Rightarrow> string \<Rightarrow> ('q, 'p) impl \<Rightarrow> service_desc \<Rightarrow> service" where
  "generated_service parse serialize package impl s =
     service_new (fixed_string_new (literal (generated_name package s))) impl
       (map (generated_rpc parse serialize) (sd_methods s))"

text \<open>A server with all services of a proto file.\<close>

definition generated_server ::
  "(string \<Rightarrow> bytes \<Rightarrow> 'q option) \<Rightarrow> (string \<Rightarrow> 'p \<Rightarrow> bytes option) \<Rightarrow> ('q, 'p) impl \<Rightarrow> file_desc \<Rightarrow> server_base" where
  "generated_server parse serialize impl fd =
     server_of (map (generated_service parse serialize (fd_package fd) impl) (fd_services fd))"

section \<open>Lemmas\<close>

definition service_decl :: "string \<Rightarrow> service_desc \<Rightarrow> string" where
  "service_decl package s = ''using Service = grpcxx::service<'' @ quote @ generated_name package s @ quote"

definition rpc_decl :: "method_desc \<Rightarrow> string" where
  "rpc_decl m = ''using rpc'' @ md_name m @ '' = grpcxx::rpc<'' @ quote @ md_name m @ quote"

lemma generate_methods_cons:
  "generate_methods package (m # ms) (out, tmp) =
     (case mapper package (md_input m) of
        Inl e \<Rightarrow> Inl e
      | Inr i \<Rightarrow>
          (case mapper package (md_output m) of
             Inl e \<Rightarrow> Inl e
           | Inr r \<Rightarrow>
               generate_methods package ms
                 (out @ rpc_decl m @ '', '' @ i @ '', '' @ r @ ''>;'' @ newline @ newline, tmp @ '', rpc'' @ md_name m)))"
  by (simp add: rpc_decl_def split: sum.split)

lemma generate_methods_prefix:
  assumes "generate_methods package ms (out, tmp) = Inr (out', tmp')"
  shows "\<exists>more. out' = out @ more" "tmp' = tmp @ concat (map (\<lambda>m. '', rpc'' @ md_name m) ms)"
  using assms
proof (induction ms arbitrary: out tmp)
  case (Cons m ms)
  { case 1
    then show ?case using Cons.IH(1) by (fastforce simp: generate_methods_cons simp del: generate_methods.simps split: sum.splits)
  next
    case 2
    then show ?case using Cons.IH(2) by (fastforce simp: generate_methods_cons simp del: generate_methods.simps split: sum.splits) }
qed simp_all

lemma generate_methods_alias:
  assumes "generate_methods package ms (out, tmp) = Inr (out', tmp')" "m \<in> set ms"
  shows "\<exists>pre post. out' = pre @ rpc_decl m @ post"
  using assms
proof (induction ms arbitrary: out tmp)
  case (Cons x ms)
  obtain i r where rest: "generate_methods package ms
      (out @ rpc_decl x @ '', '' @ i @ '', '' @ r @ ''>;'' @ newline @ newline, tmp @ '', rpc'' @ md_name x) = Inr (out', tmp')"
    using Cons.prems(1) unfolding generate_methods_cons by (auto split: sum.splits)
  show ?case
  proof (cases "m = x")
    case True
    from generate_methods_prefix(1) [OF rest] obtain more where
      "out' = out @ rpc_decl m @ ('', '' @ i @ '', '' @ r @ ''>;'' @ newline @ newline @ more)"
      unfolding True append_assoc by blast
    then show ?thesis by blast
  next
    case False
    with Cons.IH [OF rest] Cons.prems(2) show ?thesis by simp
  qed
qed simp

text \<open>The text declares the service under its full name and every method under its own.\<close>

lemma generate_service_declares:
  assumes "generate_service package s out = Inr out'"
  shows "\<exists>pre post. out' = pre @ service_decl package s @ post"
    and "m \<in> set (sd_methods s) \<Longrightarrow> \<exists>pre post. out' = pre @ rpc_decl m @ post"
proof -
  obtain o1 t1 where g: "generate_methods package (sd_methods s) (out @ open_line (sd_name s), service_decl package s) = Inr (o1, t1)"
    and out': "out' = o1 @ t1 @ ''>;'' @ newline @ newline @ service_impl @ close_line (sd_name s)"
    using assms by (auto simp: generate_service_def service_decl_def generated_name_def Let_def split: sum.splits)
  show "\<exists>pre post. out' = pre @ service_decl package s @ post"
    unfolding out' generate_methods_prefix(2) [OF g] append_assoc by blast
  show "\<exists>pre post. out' = pre @ rpc_decl m @ post" if "m \<in> set (sd_methods s)"
    using generate_methods_alias [OF g that] unfolding out' by (metis append_assoc)
qed

lemma generated_name_inject: "generated_name package s = generated_name package s' \<longleftrightarrow> sd_name s = sd_name s'"
  by (simp add: generated_name_def)

lemma find_generated:
  assumes "s \<in> set ss" "distinct (map sd_name ss)"
  shows "find (\<lambda>v. service_name v = generated_name package s) (map (generated_service parse serialize package impl) ss) =
     Some (generated_service parse serialize package impl s)"
  using assms
proof (induction ss)
  case (Cons x ss)
  then show ?case by (auto simp: generated_service_def generated_name_inject)
qed simp

lemma find_generated_rpc:
  "find (\<lambda>r. rpc_method r = meth) (map (generated_rpc parse serialize) ms) =
     map_option (generated_rpc parse serialize) (find (\<lambda>m. md_name m = meth) ms)"
  by (induction ms) (simp_all add: generated_rpc_def rpc_method_def)

text \<open>Where a request for a path goes.\<close>

lemma generated_service_call:
  assumes "s \<in> set (fd_services fd)" "distinct (map sd_name (fd_services fd))"
    and "request_bool r" "req_service r = generated_name (fd_package fd) s"
  shows "server_process (generated_server parse serialize impl fd) r =
     (case find (\<lambda>m. md_name m = req_method r) (sd_methods s) of
        None \<Rightarrow> Return (response_set_data [] (response_set_status (status_of_code Code_not_found) (response_new (req_id r) Code_ok)))
      | Some m \<Rightarrow>
          (case service_handler impl (generated_rpc parse serialize m) (context_of_request r) (request_data r) of
             Inl e \<Rightarrow> if is_std_exception e then Return (response_new (req_id r) Code_internal) else Terminate
           | Inr (st, out) \<Rightarrow>
               Return (response_set_data out (response_set_status st (response_new (req_id r) Code_ok)))))"
proof -
  have "um_find (req_service r) (sb_services (generated_server parse serialize impl fd)) =
      Some (service_call (generated_service parse serialize (fd_package fd) impl s))"
    unfolding generated_server_def find_service map_of_find assms(4) by (simp add: find_generated [OF assms(1,2)])
  then show ?thesis
    using assms(3)
    by (cases "find (\<lambda>m. md_name m = req_method r) (sd_methods s)")
      (simp_all add: server_process_found generated_service_def service_call_unknown service_call_found find_generated_rpc)
qed

section \<open>Properties\<close>

text \<open>C27: generated code and library agree. For every service of a proto file: the generated header declares
  it under the name that the path of a call has, and a server over the generated stubs answers
  a call of \<^verbatim>\<open>/package.Service/Method\<close> with \<^verbatim>\<open>unimplemented\<close> if the service has the method and the payload
  parses, and with \<^verbatim>\<open>not_found\<close> if it does not have it.\<close>

theorem generated_stub_answers:
  assumes "s \<in> set (fd_services fd)" "distinct (map sd_name (fd_services fd))"
    and "generate_service (fd_package fd) s out = Inr src"
    and "\<not> request_invalid r" "CHR ''/'' \<notin> set (generated_name (fd_package fd) s)"
    and "generated_name (fd_package fd) s \<noteq> []" "meth \<noteq> []"
    and "\<forall>m\<in>set (sd_methods s). parse (md_input m) (request_data r) = Some (q m)"
  shows "(\<exists>pre post. src = pre @ service_decl (fd_package fd) s @ post) \<and>
     (\<exists>resp. server_process (generated_server parse serialize stub_call fd)
         (request_header '':path'' (''/'' @ generated_name (fd_package fd) s @ ''/'' @ meth) r) = Return resp \<and>
       resp_id resp = req_id r \<and> response_bytes resp = [0, 0, 0, 0, 0] \<and>
       st_code (resp_status resp) = (if meth \<in> md_name ` set (sd_methods s) then Code_unimplemented else Code_not_found))"
proof
  show "\<exists>pre post. src = pre @ service_decl (fd_package fd) s @ post"
    using generate_service_declares(1) [OF assms(3)] .
  let ?name = "generated_name (fd_package fd) s"
  let ?r = "request_header '':path'' (''/'' @ ?name @ ''/'' @ meth) r"
  have r: "?r = (request_set_flag Flag_header_path r)\<lparr>req_service := ?name, req_method := meth\<rparr>"
    by (rule request_header_path [OF assms(4) split_path_join [OF assms(5,7)]])
  have f: "request_bool ?r" "req_service ?r = ?name" "req_method ?r = meth" "req_id ?r = req_id r" "request_data ?r = request_data r"
    unfolding r using assms(4,6,7) by (simp_all add: request_bool_def request_data_def)
  have e: "message_bytes (message_of_string []) = [0, 0, 0, 0, 0]"
    by (simp add: message_bytes_of_string prefix_bytes_def)
  note p = generated_service_call [OF assms(1,2) f(1,2), of parse serialize stub_call]
  show "\<exists>resp. server_process (generated_server parse serialize stub_call fd) ?r = Return resp \<and>
       resp_id resp = req_id r \<and> response_bytes resp = [0, 0, 0, 0, 0] \<and>
       st_code (resp_status resp) = (if meth \<in> md_name ` set (sd_methods s) then Code_unimplemented else Code_not_found)"
  proof (cases "find (\<lambda>m. md_name m = meth) (sd_methods s)")
    case None
    then have "meth \<notin> md_name ` set (sd_methods s)" by (auto simp: find_None_iff)
    with None p f e show ?thesis by (simp add: status_of_code_def)
  next
    case (Some m)
    then have m: "m \<in> set (sd_methods s)" "md_name m = meth" by (auto simp: find_Some_iff)
    have "service_handler stub_call (generated_rpc parse serialize m) (context_of_request ?r) (request_data ?r) =
        Inr (status_of_code Code_unimplemented, [])"
      using assms(8) m f(5)
      by (simp add: service_handler_def rpc_map_request_def rpc_map_response_def generated_rpc_def stub_call_def)
    with Some p f e m show ?thesis by (auto simp: status_of_code_def)
  qed
qed

theorem generated_stub_answers_witness:
  "\<exists>resp. server_process (generated_server (\<lambda>_. Some) (\<lambda>_. Some) (stub_call :: (bytes, bytes) impl)
       \<lparr>fd_name = ''g.proto'', fd_package = ''p.v1'',
        fd_services = [\<lparr>sd_name = ''G'', sd_methods = [\<lparr>md_name = ''Hello'', md_input = ''p.v1.Q'', md_output = ''p.v1.R''\<rparr>]\<rparr>]\<rparr>)
       (request_header '':path'' ''/p.v1.G/Hello'' (request_new 1)) = Return resp \<and>
     st_code (resp_status resp) = Code_unimplemented"
proof -
  let ?m = "\<lparr>md_name = ''Hello'', md_input = ''p.v1.Q'', md_output = ''p.v1.R''\<rparr>"
  let ?s = "\<lparr>sd_name = ''G'', sd_methods = [?m]\<rparr>"
  let ?f = "\<lparr>fd_name = ''g.proto'', fd_package = ''p.v1'', fd_services = [?s]\<rparr>"
  obtain src where t: "generate_service ''p.v1'' ?s [] = Inr src"
    by (simp add: generate_service_def mapper_def starts_with_def)
  have n: "generated_name ''p.v1'' ?s = ''p.v1.G''" by (simp add: generated_name_def)
  have "\<not> request_invalid (request_new 1)" by (simp add: request_new_def request_invalid_def request_flag_def)
  with generated_stub_answers [where fd = "?f" and s = "?s" and out = "[]" and src = src and r = "request_new 1" and meth = "''Hello''"
      and parse = "\<lambda>_. Some" and serialize = "\<lambda>_. Some :: bytes \<Rightarrow> bytes option" and q = "\<lambda>_. request_data (request_new 1)"] t n
  show ?thesis by auto
qed

end
