(* ===== verification/Uv_Loop.thy ===== *)
theory Uv_Loop
  imports Server Scheduler
begin

text \<open>
  The end of a uv server: \<^verbatim>\<open>uv::detail::loop\<close> (lib/grpcxx/uv/loop.h, loop.cpp), the destructors of
  \<^verbatim>\<open>uv::server\<close> and \<^verbatim>\<open>uv::detail::scheduler\<close> as far as they close handles, the deleter of a
  connection's handle (uv/conn.h), and what the promises of \<^verbatim>\<open>uv::detail::coroutine\<close> (uv/coroutine.h)
  and \<^verbatim>\<open>uv::detail::task\<close> (uv/task.h) do with an exception that leaves the coroutine's body.

  libuv is a parameter, a record with one field per call. \<^verbatim>\<open>uv_close\<close> of a handle that is closing
  already fails an assertion of libuv, which is the result \<open>None\<close>. What the sources rely on is
  stated by \<open>libuv_ok\<close>.
\<close>

type_synonym uv_handle = nat

definition UV_EBUSY :: int where
  "UV_EBUSY = -16"

definition UV_ECANCELED :: int where
  "UV_ECANCELED = -125"

definition UV_EINVAL :: int where
  "UV_EINVAL = -22"

section \<open>Exceptions that leave a coroutine\<close>

text \<open>The line the promise writes to \<^verbatim>\<open>stderr\<close>; \<open>what\<close> is the text of a standard exception.\<close>

definition coroutine_unhandled_exception :: "(cpp_exn \<Rightarrow> string) \<Rightarrow> cpp_exn \<Rightarrow> string" where
  "coroutine_unhandled_exception what e =
     (if is_std_exception e then ''[warn] '' @ what e @ ''\<newline>''
      else ''[warn] Unknown exception\<newline>'')"

definition task_unhandled_exception :: "(cpp_exn \<Rightarrow> string) \<Rightarrow> cpp_exn \<Rightarrow> string" where
  "task_unhandled_exception what e =
     (if is_std_exception e then ''[error] '' @ what e @ ''\<newline>''
      else ''[error] Unknown exception\<newline>'')"

section \<open>The loop and its handles\<close>

record 'l libuv =
  uv_loop_alive :: "'l \<Rightarrow> bool"
  uv_stop :: "'l \<Rightarrow> 'l"
  uv_handles :: "'l \<Rightarrow> uv_handle list"
  uv_is_active :: "uv_handle \<Rightarrow> 'l \<Rightarrow> bool"
  uv_is_closing :: "uv_handle \<Rightarrow> 'l \<Rightarrow> bool"
  uv_close :: "uv_handle \<Rightarrow> 'l \<Rightarrow> 'l option"
  uv_read_start :: "uv_handle \<Rightarrow> 'l \<Rightarrow> int \<times> 'l"
  uv_loop_close :: "'l \<Rightarrow> int \<times> 'l"
  uv_run_once :: "'l \<Rightarrow> (uv_handle \<times> int) list \<times> 'l"

text \<open>\<open>uv_handles\<close> are the handles that \<^verbatim>\<open>uv_walk\<close> visits. \<open>uv_run_once\<close> gives the write callbacks that
  \<^verbatim>\<open>uv_run(UV_RUN_ONCE)\<close> makes, with their statuses: when it is called every handle is closing, and
  of closing handles libuv reports only the requests it cancels.

  A connection's coroutine is suspended in one of three places.\<close>

datatype conn_wait = Wait_read | Wait_task | Wait_flush

record 'l teardown =
  td_loop :: 'l
  td_conns :: "(uv_handle, conn_wait) umap"
  td_log :: "string list"

text \<open>\<^verbatim>\<open>conn::deleter\<close>.\<close>

definition conn_deleter :: "'l libuv \<Rightarrow> uv_handle \<Rightarrow> 'l \<Rightarrow> 'l outcome" where
  "conn_deleter uv h l = (case uv_close uv h l of None \<Rightarrow> Terminate | Some l1 \<Rightarrow> Return l1)"

text \<open>The callback of a write resumes the coroutine that awaits the flush. An error is logged by the
  task \<^verbatim>\<open>flush\<close>, the coroutine goes on with its loop and awaits the reader again. When reading
  cannot be started the exception leaves the coroutine: its connection is destroyed and the
  promise logs.\<close>

definition flush_resumed ::
  "'l libuv \<Rightarrow> (cpp_exn \<Rightarrow> string) \<Rightarrow> uv_handle \<Rightarrow> int \<Rightarrow> 'l teardown \<Rightarrow> 'l teardown outcome" where
  "flush_resumed uv what h status d =
     (if um_find h (td_conns d) \<noteq> Some Wait_flush then Return d
      else let w = \<lparr>wr_done = False, wr_e = None, wr_h = Some h\<rparr>;
               flushed = fst (writer_await_resume (fst (writer_write_cb status w)));
               log = td_log d @ (case flushed of Inl e \<Rightarrow> [task_unhandled_exception what e] | Inr _ \<Rightarrow> []);
               (r, l1) = uv_read_start uv h (td_loop d)
           in if r = 0
              then Return (d\<lparr>td_loop := l1, td_conns := um_assign h Wait_read (td_conns d), td_log := log\<rparr>)
              else case conn_deleter uv h l1 of
                     Terminate \<Rightarrow> Terminate
                   | Return l2 \<Rightarrow>
                       Return (d\<lparr>td_loop := l2, td_conns := um_erase h (td_conns d),
                                td_log := log @ [coroutine_unhandled_exception what
                                                   (Runtime_error ''Failed to start reading data: '')]\<rparr>))"

fun write_callbacks ::
  "'l libuv \<Rightarrow> (cpp_exn \<Rightarrow> string) \<Rightarrow> (uv_handle \<times> int) list \<Rightarrow> 'l teardown \<Rightarrow> 'l teardown outcome" where
  "write_callbacks uv what [] d = Return d"
| "write_callbacks uv what ((h, status) # cbs) d =
     (case flush_resumed uv what h status d of
        Terminate \<Rightarrow> Terminate
      | Return d1 \<Rightarrow> write_callbacks uv what cbs d1)"

text \<open>The destructor of the loop: the walk, then the loop that closes it.\<close>

fun loop_walk :: "'l libuv \<Rightarrow> uv_handle list \<Rightarrow> 'l \<Rightarrow> 'l outcome" where
  "loop_walk uv [] l = Return l"
| "loop_walk uv (h # hs) l =
     (if uv_is_closing uv h l then loop_walk uv hs l
      else case uv_close uv h l of None \<Rightarrow> Terminate | Some l1 \<Rightarrow> loop_walk uv hs l1)"

partial_function (option) loop_close_wait ::
  "'l libuv \<Rightarrow> (cpp_exn \<Rightarrow> string) \<Rightarrow> 'l teardown \<Rightarrow> 'l teardown outcome option" where
  "loop_close_wait uv what d =
     (case uv_loop_close uv (td_loop d) of
        (r, l1) \<Rightarrow>
          if r = UV_EBUSY
          then case uv_run_once uv l1 of
                 (cbs, l2) \<Rightarrow>
                   (case write_callbacks uv what cbs (d\<lparr>td_loop := l2\<rparr>) of
                      Terminate \<Rightarrow> Some Terminate
                    | Return d1 \<Rightarrow> loop_close_wait uv what d1)
          else Some (Return (d\<lparr>td_loop := l1\<rparr>)))"

definition loop_delete ::
  "'l libuv \<Rightarrow> (cpp_exn \<Rightarrow> string) \<Rightarrow> 'l teardown \<Rightarrow> 'l teardown outcome option" where
  "loop_delete uv what d =
     (let l1 = (if uv_loop_alive uv (td_loop d) then uv_stop uv (td_loop d) else td_loop d)
      in case loop_walk uv (uv_handles uv l1) l1 of
           Terminate \<Rightarrow> Some Terminate
         | Return l2 \<Rightarrow> loop_close_wait uv what (d\<lparr>td_loop := l2\<rparr>))"

text \<open>The last lines of the scheduler's destructor, after its threads have been joined, and the body of the
  server's destructor, whose members are destroyed after it in the opposite order of their
  declaration.\<close>

definition scheduler_close :: "'l libuv \<Rightarrow> uv_handle \<Rightarrow> 'l \<Rightarrow> 'l outcome" where
  "scheduler_close uv async l =
     (if uv_is_active uv async l
      then (case uv_close uv async l of None \<Rightarrow> Terminate | Some l1 \<Rightarrow> Return l1) else Return l)"

definition server_close :: "'l libuv \<Rightarrow> uv_handle \<Rightarrow> 'l \<Rightarrow> 'l outcome" where
  "server_close uv tcp l =
     (if \<not> uv_is_closing uv tcp l
      then (case uv_close uv tcp l of None \<Rightarrow> Terminate | Some l1 \<Rightarrow> Return l1) else Return l)"

definition server_destroy ::
  "'l libuv \<Rightarrow> (cpp_exn \<Rightarrow> string) \<Rightarrow> uv_handle \<Rightarrow> uv_handle \<Rightarrow> 'l teardown \<Rightarrow> 'l teardown outcome option" where
  "server_destroy uv what tcp async d =
     (case server_close uv tcp (td_loop d) of
        Terminate \<Rightarrow> Some Terminate
      | Return l1 \<Rightarrow>
          (case scheduler_close uv async l1 of
             Terminate \<Rightarrow> Some Terminate
           | Return l2 \<Rightarrow> loop_delete uv what (d\<lparr>td_loop := l2\<rparr>)))"

section \<open>What libuv promises\<close>

text \<open>\<open>writing\<close> are the handles with a write in flight, \<open>m\<close> measures the work left on closing handles.
  Closing is for good, \<^verbatim>\<open>uv_close\<close> of a handle that is closing aborts, a loop with handles is
  busy, and with all handles closing \<^verbatim>\<open>uv_run\<close> makes progress: it cancels writes, reports each of
  them, and reading cannot be started on their handles any more.\<close>

definition same_handles :: "'l libuv \<Rightarrow> ('l \<Rightarrow> uv_handle list) \<Rightarrow> 'l \<Rightarrow> 'l \<Rightarrow> bool" where
  "same_handles uv writing l l' \<longleftrightarrow> uv_handles uv l' = uv_handles uv l \<and> writing l' = writing l"

definition all_closing :: "'l libuv \<Rightarrow> 'l \<Rightarrow> bool" where
  "all_closing uv l \<longleftrightarrow> (\<forall>h\<in>set (uv_handles uv l). uv_is_closing uv h l)"

definition run_once_ok :: "'l libuv \<Rightarrow> ('l \<Rightarrow> uv_handle list) \<Rightarrow> ('l \<Rightarrow> nat) \<Rightarrow> 'l \<Rightarrow> bool" where
  "run_once_ok uv writing m l \<longleftrightarrow>
     (case uv_run_once uv l of (cbs, l') \<Rightarrow>
        m l' < m l \<and> set (uv_handles uv l') \<subseteq> set (uv_handles uv l) \<and>
        (\<forall>h. uv_is_closing uv h l \<longrightarrow> uv_is_closing uv h l') \<and>
        fst ` set cbs \<subseteq> set (writing l) \<and> set (writing l) \<subseteq> fst ` set cbs \<union> set (writing l') \<and>
        (\<forall>h\<in>fst ` set cbs. fst (uv_read_start uv h l') \<noteq> 0 \<and> snd (uv_read_start uv h l') = l'))"

definition libuv_ok :: "'l libuv \<Rightarrow> ('l \<Rightarrow> uv_handle list) \<Rightarrow> ('l \<Rightarrow> nat) \<Rightarrow> bool" where
  "libuv_ok uv writing m \<longleftrightarrow>
     (\<forall>l. same_handles uv writing l (uv_stop uv l) \<and> (\<forall>h. uv_is_closing uv h (uv_stop uv l) = uv_is_closing uv h l)) \<and>
     (\<forall>h l. case uv_close uv h l of
              None \<Rightarrow> uv_is_closing uv h l
            | Some l' \<Rightarrow> \<not> uv_is_closing uv h l \<and> same_handles uv writing l l' \<and>
                         (\<forall>h'. uv_is_closing uv h' l' \<longleftrightarrow> h' = h \<or> uv_is_closing uv h' l)) \<and>
     (\<forall>h l. uv_is_active uv h l \<longrightarrow> \<not> uv_is_closing uv h l) \<and>
     (\<forall>l. set (writing l) \<subseteq> set (uv_handles uv l)) \<and>
     (\<forall>l. if uv_handles uv l = [] then uv_loop_close uv l = (0, l) else uv_loop_close uv l = (UV_EBUSY, l)) \<and>
     (\<forall>l. uv_handles uv l \<noteq> [] \<longrightarrow> all_closing uv l \<longrightarrow> run_once_ok uv writing m l)"

section \<open>Lemmas\<close>

lemma libuv_okD:
  assumes "libuv_ok uv writing m"
  shows "same_handles uv writing l (uv_stop uv l)"
    and "uv_is_closing uv h (uv_stop uv l) = uv_is_closing uv h l"
    and "uv_is_active uv h l \<Longrightarrow> \<not> uv_is_closing uv h l"
    and "set (writing l) \<subseteq> set (uv_handles uv l)"
    and "uv_handles uv l = [] \<Longrightarrow> uv_loop_close uv l = (0, l)"
    and "uv_handles uv l \<noteq> [] \<Longrightarrow> uv_loop_close uv l = (UV_EBUSY, l)"
    and "uv_handles uv l \<noteq> [] \<Longrightarrow> all_closing uv l \<Longrightarrow> run_once_ok uv writing m l"
  using assms unfolding libuv_ok_def by (simp_all add: subset_iff) 

lemma uv_close_ok:
  assumes "libuv_ok uv writing m" "\<not> uv_is_closing uv h l"
  obtains l' where "uv_close uv h l = Some l'" "same_handles uv writing l l'"
    "\<And>h'. uv_is_closing uv h' l' \<longleftrightarrow> h' = h \<or> uv_is_closing uv h' l"
proof -
  from assms(1) have "case uv_close uv h l of
              None \<Rightarrow> uv_is_closing uv h l
            | Some l' \<Rightarrow> \<not> uv_is_closing uv h l \<and> same_handles uv writing l l' \<and>
                         (\<forall>h'. uv_is_closing uv h' l' \<longleftrightarrow> h' = h \<or> uv_is_closing uv h' l)"
    unfolding libuv_ok_def by simp
  with assms(2) that show thesis by (auto split: option.splits)
qed

lemma uv_close_closing:
  assumes "libuv_ok uv writing m" "uv_is_closing uv h l"
  shows "uv_close uv h l = None"
proof (rule ccontr)
  assume "uv_close uv h l \<noteq> None"
  then obtain l' where "uv_close uv h l = Some l'" by blast
  with assms show False unfolding libuv_ok_def by (auto dest: spec [where x = h] split: option.splits)
qed

lemma same_handles_refl [simp]: "same_handles uv writing l l"
  by (simp add: same_handles_def)

lemma same_handles_trans [trans]:
  "same_handles uv writing l l' \<Longrightarrow> same_handles uv writing l' l'' \<Longrightarrow> same_handles uv writing l l''"
  by (simp add: same_handles_def)

text \<open>The walk closes what it visits and nothing else, without ever closing a handle twice.\<close>

lemma loop_walk_ok:
  assumes "libuv_ok uv writing m"
  obtains l' where "loop_walk uv hs l = Return l'" "same_handles uv writing l l'"
    "\<And>h. uv_is_closing uv h l' \<longleftrightarrow> h \<in> set hs \<or> uv_is_closing uv h l"
proof -
  have "\<exists>l'. loop_walk uv hs l = Return l' \<and> same_handles uv writing l l' \<and>
      (\<forall>h. uv_is_closing uv h l' \<longleftrightarrow> h \<in> set hs \<or> uv_is_closing uv h l)"
  proof (induction hs arbitrary: l)
    case (Cons h hs)
    show ?case
    proof (cases "uv_is_closing uv h l")
      case True
      then show ?thesis using Cons.IH [of l] by auto
    next
      case False
      with assms obtain l1 where l1: "uv_close uv h l = Some l1" "same_handles uv writing l l1"
        "\<And>h'. uv_is_closing uv h' l1 \<longleftrightarrow> h' = h \<or> uv_is_closing uv h' l"
        using uv_close_ok by metis
      with False Cons.IH [of l1] same_handles_trans [OF l1(2)] show ?thesis by fastforce
    qed
  qed simp
  with that show thesis by blast
qed

lemma flush_resumed_idle:
  "um_find h (td_conns d) \<noteq> Some Wait_flush \<Longrightarrow> flush_resumed uv what h status d = Return d"
  by (simp add: flush_resumed_def)

lemma flush_resumed_closing:
  assumes "libuv_ok uv writing m" "um_find h (td_conns d) = Some Wait_flush"
    and "uv_is_closing uv h (td_loop d)" "fst (uv_read_start uv h (td_loop d)) \<noteq> 0"
    and "snd (uv_read_start uv h (td_loop d)) = td_loop d"
  shows "flush_resumed uv what h status d = Terminate"
  using assms uv_close_closing [OF assms(1,3)]
  by (cases "uv_read_start uv h (td_loop d)") (simp add: flush_resumed_def Let_def conn_deleter_def)

lemma write_callbacks_ok:
  assumes ok: "libuv_ok uv writing m"
    and cbs: "\<And>h. h \<in> fst ` set cbs \<Longrightarrow> uv_is_closing uv h (td_loop d) \<and>
          fst (uv_read_start uv h (td_loop d)) \<noteq> 0 \<and> snd (uv_read_start uv h (td_loop d)) = td_loop d"
  shows "write_callbacks uv what cbs d =
     (if \<exists>h\<in>fst ` set cbs. um_find h (td_conns d) = Some Wait_flush then Terminate else Return d)"
  using cbs
proof (induction cbs)
  case (Cons cb cbs)
  obtain h st where cb: "cb = (h, st)" by force
  show ?case
  proof (cases "um_find h (td_conns d) = Some Wait_flush")
    case True
    with flush_resumed_closing [OF ok True] Cons.prems show ?thesis by (simp add: cb)
  next
    case False
    with Cons show ?thesis by (simp add: cb flush_resumed_idle)
  qed
qed simp

text \<open>How the destructor ends: it aborts if a connection awaits its flush, otherwise no handle is left and
  the coroutines of the connections are as they were.\<close>

definition torn_down :: "'l libuv \<Rightarrow> 'l teardown \<Rightarrow> 'l teardown outcome \<Rightarrow> bool" where
  "torn_down uv d r \<longleftrightarrow>
     (if \<exists>h. um_find h (td_conns d) = Some Wait_flush then r = Terminate
      else \<exists>l. r = Return (d\<lparr>td_loop := l\<rparr>) \<and> uv_handles uv l = [])"

lemma torn_down_loop [simp]: "torn_down uv (d\<lparr>td_loop := l\<rparr>) r = torn_down uv d r"
  by (simp add: torn_down_def)

lemma loop_close_wait_ok:
  assumes ok: "libuv_ok uv writing m" and "all_closing uv (td_loop d)"
    and "\<And>h. um_find h (td_conns d) = Some Wait_flush \<Longrightarrow> h \<in> set (writing (td_loop d))"
  shows "\<exists>r. loop_close_wait uv what d = Some r \<and>
     torn_down uv d r"
  using assms(2,3)
proof (induction "m (td_loop d)" arbitrary: d rule: less_induct)
  case less
  let ?l = "td_loop d" and ?w = "\<lambda>h. um_find h (td_conns d) = Some Wait_flush"
  show ?case
  proof (cases "uv_handles uv ?l = []")
    case True
    then have "\<not> (\<exists>h. ?w h)" using less.prems(2) libuv_okD(4) [OF ok, of ?l] by auto
    then have "torn_down uv d (Return (d\<lparr>td_loop := ?l\<rparr>))"
      using True unfolding torn_down_def by (auto intro!: exI [of _ ?l])
    with libuv_okD(5) [OF ok True] show ?thesis
      by (subst loop_close_wait.simps) (simp add: UV_EBUSY_def)
  next
    case False
    obtain cbs l' where run: "uv_run_once uv ?l = (cbs, l')" by force
    from libuv_okD(7) [OF ok False less.prems(1)] run
    have r: "m l' < m ?l" "set (uv_handles uv l') \<subseteq> set (uv_handles uv ?l)"
      "\<And>h. uv_is_closing uv h ?l \<Longrightarrow> uv_is_closing uv h l'" "fst ` set cbs \<subseteq> set (writing ?l)"
      "set (writing ?l) \<subseteq> fst ` set cbs \<union> set (writing l')"
      "\<And>h. h \<in> fst ` set cbs \<Longrightarrow> fst (uv_read_start uv h l') \<noteq> 0 \<and> snd (uv_read_start uv h l') = l'"
      by (auto simp: run_once_ok_def)
    have c: "h \<in> fst ` set cbs \<Longrightarrow> uv_is_closing uv h l'" for h
      using r(3,4) libuv_okD(4) [OF ok, of ?l] less.prems(1) unfolding all_closing_def by blast
    have w: "write_callbacks uv what cbs (d\<lparr>td_loop := l'\<rparr>) =
        (if \<exists>h\<in>fst ` set cbs. ?w h then Terminate else Return (d\<lparr>td_loop := l'\<rparr>))"
      using write_callbacks_ok [OF ok, of cbs "d\<lparr>td_loop := l'\<rparr>"] r(6) c by simp
    show ?thesis
    proof (cases "\<exists>h\<in>fst ` set cbs. ?w h")
      case True
      with w run libuv_okD(6) [OF ok False] show ?thesis
        by (subst loop_close_wait.simps) (auto simp: torn_down_def)
    next
      case no: False
      have "all_closing uv l'" using r(2,3) less.prems(1) unfolding all_closing_def by blast
      moreover have "h \<in> set (writing l')" if "?w h" for h
        using less.prems(2) [OF that] r(5) no that by auto
      ultimately have "\<exists>r. loop_close_wait uv what (d\<lparr>td_loop := l'\<rparr>) = Some r \<and>
          torn_down uv d r"
        using less.hyps [of "d\<lparr>td_loop := l'\<rparr>"] r(1) by simp
      with w no run libuv_okD(6) [OF ok False] show ?thesis
        by (subst loop_close_wait.simps) simp
    qed
  qed
qed

lemma server_close_ok:
  assumes "libuv_ok uv writing m"
  obtains l' where "server_close uv tcp l = Return l'" "same_handles uv writing l l'"
  using assms by (cases "uv_is_closing uv tcp l") (auto simp: server_close_def elim: uv_close_ok [where h = tcp and l = l])

lemma scheduler_close_ok:
  assumes "libuv_ok uv writing m"
  obtains l' where "scheduler_close uv async l = Return l'" "same_handles uv writing l l'"
proof (cases "uv_is_active uv async l")
  case True
  from uv_close_ok [OF assms libuv_okD(3) [OF assms True]] obtain l' where
    "uv_close uv async l = Some l'" "same_handles uv writing l l'" by metis
  with True that show thesis by (simp add: scheduler_close_def)
qed (auto simp: scheduler_close_def that)

lemma loop_delete_ok:
  assumes ok: "libuv_ok uv writing m"
    and "\<And>h. um_find h (td_conns d) = Some Wait_flush \<Longrightarrow> h \<in> set (writing (td_loop d))"
  shows "\<exists>r. loop_delete uv what d = Some r \<and>
     torn_down uv d r"
proof -
  let ?l = "if uv_loop_alive uv (td_loop d) then uv_stop uv (td_loop d) else td_loop d"
  have s: "same_handles uv writing (td_loop d) ?l" using libuv_okD(1) [OF ok] by simp
  obtain l2 where l2: "loop_walk uv (uv_handles uv ?l) ?l = Return l2" "same_handles uv writing ?l l2"
    "\<And>h. uv_is_closing uv h l2 \<longleftrightarrow> h \<in> set (uv_handles uv ?l) \<or> uv_is_closing uv h ?l"
    using loop_walk_ok [OF ok] by metis
  then have "all_closing uv l2" by (simp add: all_closing_def same_handles_def)
  moreover have "writing l2 = writing (td_loop d)" using s l2(2) by (simp add: same_handles_def)
  ultimately show ?thesis
    using loop_close_wait_ok [OF ok, of "d\<lparr>td_loop := l2\<rparr>" what] assms(2) l2(1)
    by (simp add: loop_delete_def Let_def)
qed

lemma server_destroy_ok:
  assumes ok: "libuv_ok uv writing m"
    and "\<And>h. um_find h (td_conns d) = Some Wait_flush \<Longrightarrow> h \<in> set (writing (td_loop d))"
  shows "\<exists>r. server_destroy uv what tcp async d = Some r \<and> torn_down uv d r"
proof -
  obtain l1 where l1: "server_close uv tcp (td_loop d) = Return l1" "same_handles uv writing (td_loop d) l1"
    using server_close_ok [OF ok] .
  obtain l2 where l2: "scheduler_close uv async l1 = Return l2" "same_handles uv writing l1 l2"
    using scheduler_close_ok [OF ok] .
  have "writing l2 = writing (td_loop d)" using l1(2) l2(2) by (simp add: same_handles_def)
  then show ?thesis
    using loop_delete_ok [OF ok, of "d\<lparr>td_loop := l2\<rparr>" what] assms(2) l1(1) l2(1)
    by (simp add: server_destroy_def)
qed

section \<open>A sample libuv\<close>

record sample_loop =
  sl_handles :: "uv_handle list"
  sl_closing :: "uv_handle list"
  sl_writing :: "uv_handle list"

definition sample_libuv :: "sample_loop libuv" where
  "sample_libuv =
     \<lparr>uv_loop_alive = (\<lambda>l. sl_handles l \<noteq> []),
      uv_stop = (\<lambda>l. l),
      uv_handles = sl_handles,
      uv_is_active = (\<lambda>h l. h \<in> set (sl_handles l) \<and> h \<notin> set (sl_closing l)),
      uv_is_closing = (\<lambda>h l. h \<in> set (sl_closing l)),
      uv_close = (\<lambda>h l. if h \<in> set (sl_closing l) then None else Some (l\<lparr>sl_closing := h # sl_closing l\<rparr>)),
      uv_read_start = (\<lambda>h l. (if h \<in> set (sl_closing l) then UV_EINVAL else 0, l)),
      uv_loop_close = (\<lambda>l. (if sl_handles l = [] then 0 else UV_EBUSY, l)),
      uv_run_once = (\<lambda>l. (map (\<lambda>h. (h, UV_ECANCELED)) (filter (\<lambda>h. h \<in> set (sl_handles l) \<and> h \<in> set (sl_closing l)) (sl_writing l)),
                         l\<lparr>sl_handles := filter (\<lambda>h. h \<notin> set (sl_closing l)) (sl_handles l)\<rparr>))\<rparr>"

definition sample_writing :: "sample_loop \<Rightarrow> uv_handle list" where
  "sample_writing l = filter (\<lambda>h. h \<in> set (sl_handles l)) (sl_writing l)"

lemma sample_libuv_ok: "libuv_ok sample_libuv sample_writing (\<lambda>l. length (sl_handles l))"
proof -
  have "run_once_ok sample_libuv sample_writing (\<lambda>l. length (sl_handles l)) l"
    if "sl_handles l \<noteq> []" "\<forall>h\<in>set (sl_handles l). h \<in> set (sl_closing l)" for l
  proof -
    have "filter (\<lambda>h. h \<notin> set (sl_closing l)) (sl_handles l) = []" using that(2) by (simp add: filter_empty_conv)
    with that show ?thesis
      by (auto simp: run_once_ok_def sample_libuv_def sample_writing_def UV_EINVAL_def image_image)
  qed
  moreover have "uv_handles sample_libuv = sl_handles" by (simp add: sample_libuv_def)
  moreover have "all_closing sample_libuv l \<longleftrightarrow> (\<forall>h\<in>set (sl_handles l). h \<in> set (sl_closing l))" for l
    by (simp add: all_closing_def sample_libuv_def)
  ultimately show ?thesis
    unfolding libuv_ok_def by (auto simp: sample_libuv_def sample_writing_def same_handles_def)
qed

text \<open>A loop with the listening handle 0, which is closing, the async handle 1 and one connection.\<close>

definition sample_down :: "uv_handle list \<Rightarrow> conn_wait \<Rightarrow> sample_loop teardown" where
  "sample_down ws w =
     \<lparr>td_loop = \<lparr>sl_handles = [0, 1, 2], sl_closing = [0], sl_writing = ws\<rparr>, td_conns = [(2, w)], td_log = []\<rparr>"

lemma sample_down_simps [simp]:
  "um_find h (td_conns (sample_down ws w)) = Some w' \<longleftrightarrow> h = 2 \<and> w' = w"
  "set (sample_writing (td_loop (sample_down ws w))) = set ws \<inter> {0, 1, 2}"
  by (auto simp: sample_down_def um_find_def sample_writing_def)

section \<open>Properties\<close>

text \<open>C12: destroying a uv server, in any state of its loop. If no connection awaits the end of a write the
  destructor returns: no handle is left, none was closed twice (which would abort), and the
  coroutines of the connections have neither been resumed nor destroyed. If a connection awaits
  the end of a write the destructor aborts: the cancelled write resumes the connection's
  coroutine, which fails to read and closes a handle that is closing already.\<close>

theorem server_destroy_iff:
  assumes "libuv_ok uv writing m"
    and "\<forall>h. um_find h (td_conns d) = Some Wait_flush \<longrightarrow> h \<in> set (writing (td_loop d))"
  shows "(server_destroy uv what tcp async d = Some Terminate \<longleftrightarrow>
            (\<exists>h. um_find h (td_conns d) = Some Wait_flush)) \<and>
     (\<forall>h. um_find h (td_conns d) \<noteq> Some Wait_flush) =
        (\<exists>l. server_destroy uv what tcp async d = Some (Return (d\<lparr>td_loop := l\<rparr>)) \<and> uv_handles uv l = [])"
  using server_destroy_ok [OF assms(1), of d what tcp async] assms(2)
  by (auto simp: torn_down_def split: if_splits)

theorem server_destroy_iff_witness:
  "server_destroy sample_libuv (\<lambda>e. []) 0 1 (sample_down [2] Wait_flush) = Some Terminate \<and>
   (\<exists>l. server_destroy sample_libuv (\<lambda>e. []) 0 1 (sample_down [] Wait_read) =
     Some (Return ((sample_down [] Wait_read)\<lparr>td_loop := l\<rparr>)) \<and> uv_handles sample_libuv l = [])"
proof
  show "server_destroy sample_libuv (\<lambda>e. []) 0 1 (sample_down [2] Wait_flush) = Some Terminate"
    using server_destroy_iff [OF sample_libuv_ok, of "sample_down [2] Wait_flush" "\<lambda>e. []" 0 1] by simp
  show "\<exists>l. server_destroy sample_libuv (\<lambda>e. []) 0 1 (sample_down [] Wait_read) =
     Some (Return ((sample_down [] Wait_read)\<lparr>td_loop := l\<rparr>)) \<and> uv_handles sample_libuv l = []"
    using server_destroy_iff [OF sample_libuv_ok, of "sample_down [] Wait_read" "\<lambda>e. []" 0 1] by simp
qed

end
