(* ===== verification/Base64.thy ===== *)
theory Base64
  imports Prelude
begin

unbundle bit_operations_syntax

text \<open>
  The base64 encoder of the errors example, \<^verbatim>\<open>b64::encode\<close> (examples/errors/main.cpp), which turns the
  serialised \<^verbatim>\<open>google.rpc.Status\<close> into the text of the \<^verbatim>\<open>grpc-status-details-bin\<close> trailer.

  The accumulator \<open>i\<close> is an \<^verbatim>\<open>int\<close>: an integer cut to 32 bits, two's complement, after every shift and
  addition. \<^verbatim>\<open>char\<close> is signed, so adding a byte of 0x80 and above subtracts. (Where the sum leaves the
  range of \<^verbatim>\<open>int\<close> the C++ program has no defined result; the model wraps. The bits concerned are never
  read.)
\<close>

section \<open>The encoder\<close>

definition b64_alphabet :: string where
  "b64_alphabet = ''ABCDEFGHIJKLMNOPQRSTUVWXYZabcdefghijklmnopqrstuvwxyz0123456789+/''"

definition int32 :: "int \<Rightarrow> int" where
  "int32 x = signed_take_bit 31 x"

text \<open>\<^verbatim>\<open>alphabet[(i >> j) & 0x3f]\<close>.\<close>

definition b64_digit :: "int \<Rightarrow> nat \<Rightarrow> char" where
  "b64_digit i j = b64_alphabet ! nat (drop_bit j i AND 0x3f)"

text \<open>The inner loop, \<^verbatim>\<open>while (j >= 0)\<close>.\<close>

function b64_drain :: "int \<Rightarrow> int \<Rightarrow> string \<Rightarrow> string \<times> int" where
  "b64_drain i j out = (if 0 \<le> j then b64_drain i (j - 6) (out @ [b64_digit i (nat j)]) else (out, j))"
  by auto

termination
  by (relation "measure (\<lambda>(i, j, out). nat (j + 6))") auto

text \<open>One turn of the loop over the input.\<close>

definition b64_step :: "byte \<Rightarrow> string \<times> int \<times> int \<Rightarrow> string \<times> int \<times> int" where
  "b64_step c st =
     (let (out, i, j) = st;
          i1 = int32 (int32 (push_bit 8 i) + sint c);
          (out1, j1) = b64_drain i1 (j + 8) out
      in (out1, i1, j1))"

text \<open>The padding, \<^verbatim>\<open>while (out.size() % 4)\<close>.\<close>

function b64_pad :: "string \<Rightarrow> string" where
  "b64_pad out = (if length out mod 4 \<noteq> 0 then b64_pad (out @ ''='') else out)"
  by auto

termination
proof (relation "measure (\<lambda>out. (4 - length out mod 4) mod 4)")
  fix out :: string
  assume "length out mod 4 \<noteq> 0"
  then show "(out @ ''='', out) \<in> measure (\<lambda>out. (4 - length out mod 4) mod 4)"
    by (simp add: mod_Suc) presburger
qed simp

definition b64_encode :: "bytes \<Rightarrow> string" where
  "b64_encode bs =
     (let (out, i, j) = fold b64_step bs ([], 0, -6);
          out1 = (if -6 < j then out @ [b64_digit (int32 (push_bit 8 i)) (nat (j + 8))] else out)
      in b64_pad out1)"

section \<open>Specification\<close>

text \<open>Base64 as RFC 4648 has it: three bytes are four groups of six bits.\<close>

definition b64_char :: "nat \<Rightarrow> char" where
  "b64_char n = b64_alphabet ! n"

fun b64_spec :: "bytes \<Rightarrow> string" where
  "b64_spec [] = []"
| "b64_spec [a] = [b64_char (unat a div 4), b64_char (unat a mod 4 * 16), CHR ''='', CHR ''='']"
| "b64_spec [a, b] =
     [b64_char (unat a div 4), b64_char (unat a mod 4 * 16 + unat b div 16), b64_char (unat b mod 16 * 4), CHR ''='']"
| "b64_spec (a # b # c # bs) =
     [b64_char (unat a div 4), b64_char (unat a mod 4 * 16 + unat b div 16),
      b64_char (unat b mod 16 * 4 + unat c div 64), b64_char (unat c mod 64)] @ b64_spec bs"

text \<open>Inputs without a byte of 0x80 and above in second or third place of its group of three.\<close>

fun b64_safe :: "bytes \<Rightarrow> bool" where
  "b64_safe [] = True"
| "b64_safe [a] = True"
| "b64_safe [a, b] = (unat b < 128)"
| "b64_safe (a # b # c # bs) = (unat b < 128 \<and> unat c < 128 \<and> b64_safe bs)"

text \<open>The decoder a client applies.\<close>

definition b64_value :: "char \<Rightarrow> nat" where
  "b64_value c = the (index_of c b64_alphabet)"

definition b64_byte1 :: "nat \<Rightarrow> nat \<Rightarrow> byte" where
  "b64_byte1 p q = word_of_nat (p * 4 + q div 16)"

definition b64_byte2 :: "nat \<Rightarrow> nat \<Rightarrow> byte" where
  "b64_byte2 q r = word_of_nat (q mod 16 * 16 + r div 4)"

definition b64_byte3 :: "nat \<Rightarrow> nat \<Rightarrow> byte" where
  "b64_byte3 r s = word_of_nat (r mod 4 * 64 + s)"

fun b64_decode :: "string \<Rightarrow> bytes option" where
  "b64_decode [] = Some []"
| "b64_decode (p # q # r # s # cs) =
     (let a = b64_byte1 (b64_value p) (b64_value q);
          b = b64_byte2 (b64_value q) (b64_value r);
          c = b64_byte3 (b64_value r) (b64_value s)
      in if s \<noteq> CHR ''='' then map_option (\<lambda>bs. a # b # c # bs) (b64_decode cs)
         else if cs \<noteq> [] then None
         else if r \<noteq> CHR ''='' then Some [a, b] else Some [a])"
| "b64_decode _ = None"

section \<open>Lemmas\<close>

declare b64_drain.simps [simp del] b64_pad.simps [simp del]

lemma b64_digit_mod:
  "b64_digit i j = b64_char (nat (i mod 2 ^ (j + 6) div 2 ^ j))"
proof -
  have "drop_bit j i AND 0x3f = take_bit 6 (drop_bit j i)"
    by (simp add: take_bit_eq_mask mask_eq_exp_minus_1)
  also have "\<dots> = drop_bit j (take_bit (j + 6) i)"
    by (simp add: take_bit_drop_bit ac_simps)
  finally show ?thesis
    by (simp add: b64_digit_def b64_char_def take_bit_eq_mod drop_bit_eq_div)
qed

lemma int32_mod: "n \<le> 32 \<Longrightarrow> int32 x mod 2 ^ n = x mod 2 ^ n"
  by (simp add: int32_def take_bit_signed_take_bit flip: take_bit_eq_mod)

definition b64_push :: "int \<Rightarrow> byte \<Rightarrow> int" where
  "b64_push i c = int32 (int32 (push_bit 8 i) + sint c)"

lemma push_mod: "n \<le> 32 \<Longrightarrow> b64_push i c mod 2 ^ n = (i * 256 + sint c) mod 2 ^ n"
  unfolding b64_push_def
  by (simp add: int32_mod mod_add_left_eq [of "int32 _", symmetric])
    (simp add: push_bit_eq_mult mod_add_left_eq)

lemma b64_digitI: "i mod 2 ^ (j + 6) div 2 ^ j = int n \<Longrightarrow> b64_digit i j = b64_char n"
  by (simp add: b64_digit_mod)

lemma uint_byte: "0 \<le> uint (c :: byte)" "uint (c :: byte) < 256"
  using uint_bounded [of c] by simp_all

text \<open>What a byte of 0x80 and above takes from the bits before it.\<close>

definition borrow :: "byte \<Rightarrow> int" where
  "borrow c = (if uint c < 128 then 0 else 1)"

lemma sint_byte: "sint (c :: byte) = uint c - 256 * borrow c"
proof -
  have "uint c div 128 = (if uint c < 128 then 0 else 1)"
    using uint_byte [of c] by (auto intro: div_pos_pos_trivial int_div_pos_eq [where r = "uint c - 128"])
  then have "bit (uint c) 7 \<longleftrightarrow> \<not> uint c < 128" by (simp add: bit_iff_odd)
  then show ?thesis
    using uint_byte [of c]
    by (simp add: sint_uint signed_take_bit_eq_take_bit_minus take_bit_int_eq_self borrow_def)
qed

lemma push_eq: "n \<le> 32 \<Longrightarrow> b64_push i c mod 2 ^ n = ((i - borrow c) * 256 + uint c) mod 2 ^ n"
  by (simp add: push_mod sint_byte algebra_simps)

lemma mod_cut: "(x * 2 ^ m + y) mod 2 ^ (k + m) = (x mod 2 ^ k) * 2 ^ m + y" if "0 \<le> y" "y < 2 ^ m" for x y :: int
proof -
  have "(x * 2 ^ m + y) mod (2 ^ m * 2 ^ k) = 2 ^ m * ((x * 2 ^ m + y) div 2 ^ m mod 2 ^ k) + (x * 2 ^ m + y) mod 2 ^ m"
    by (rule zmod_zmult2_eq) simp
  with that show ?thesis by (simp add: power_add ac_simps)
qed

lemma push_high: "k \<le> 24 \<Longrightarrow> b64_push i c mod 2 ^ (k + 8) = ((i - borrow c) mod 2 ^ k) * 256 + uint c"
  using push_eq [of "k + 8" i c] mod_cut [of "uint c" 8 "i - borrow c" k] uint_byte [of c] by simp

lemma push_low: "n \<le> 8 \<Longrightarrow> b64_push i c mod 2 ^ n = uint c mod 2 ^ n"
proof -
  assume "n \<le> 8"
  then have "(2 :: int) ^ n dvd 256" using le_imp_power_dvd [of n 8 "2 :: int"] by simp
  then have "((i - borrow c) * 256 + uint c) mod 2 ^ n = uint c mod 2 ^ n"
    by (metis dvd_mult mod_add_left_eq dvd_imp_mod_0 add_0)
  with \<open>n \<le> 8\<close> show ?thesis using push_eq [of n i c] by simp
qed

lemma digit_first: "b64_digit (b64_push i a) 2 = b64_char (unat a div 4)"
  using push_low [of 8 i a] uint_byte [of a] by (intro b64_digitI) (simp add: zdiv_int)

lemma push_borrow: "n \<le> 8 \<Longrightarrow> (b64_push i a - borrow b) mod 2 ^ n = (uint a - borrow b) mod 2 ^ n"
  by (rule mod_diff_cong [OF push_low refl])

lemma div_parts: "(x * 256 + y) div 16 = x * 16 + y div 16" "(x * 256 + y) div 64 = x * 4 + y div 64" for x y :: int
  using div_mult_self1 [of 16 y "x * 16"] div_mult_self1 [of 64 y "x * 4"] by (simp_all add: ac_simps)

lemma digit_second:
  "b64_digit (b64_push (b64_push i a) b) 4 = b64_char (nat ((uint a - borrow b) mod 4 * 16 + uint b div 16))"
  using push_high [of 2 "b64_push i a" b] push_borrow [of 2 i a b]
  by (simp add: b64_digit_mod div_parts)

lemma digit_third:
  "b64_digit (b64_push (b64_push i a) b) 6 = b64_char (nat ((uint a - borrow b) mod 16 * 4 + uint b div 64))"
  using push_high [of 4 "b64_push i a" b] push_borrow [of 4 i a b]
  by (simp add: b64_digit_mod div_parts)

lemma digit_fourth: "b64_digit (b64_push i a) 0 = b64_char (unat a mod 64)"
  using push_low [of 6 i a] by (intro b64_digitI) (simp add: zmod_int)

lemma shift_mod: "k \<le> 24 \<Longrightarrow> int32 (push_bit 8 i) mod 2 ^ (k + 8) = i mod 2 ^ k * 256"
  using mod_cut [of 0 8 i k] by (simp add: int32_mod push_bit_eq_mult)

lemma digit_last:
  "b64_digit (int32 (push_bit 8 (b64_push i a))) 4 = b64_char (unat a mod 4 * 16)"
  "b64_digit (int32 (push_bit 8 (b64_push i a))) 6 = b64_char (unat a mod 16 * 4)"
proof -
  have "int32 (push_bit 8 (b64_push i a)) mod 1024 = int (unat a mod 4 * 16) * 16"
    using shift_mod [of 2 "b64_push i a"] push_low [of 2 i a] by (simp add: zmod_int)
  then show "b64_digit (int32 (push_bit 8 (b64_push i a))) 4 = b64_char (unat a mod 4 * 16)"
    by (intro b64_digitI) simp
  have "int32 (push_bit 8 (b64_push i a)) mod 4096 = int (unat a mod 16 * 4) * 64"
    using shift_mod [of 4 "b64_push i a"] push_low [of 4 i a] by (simp add: zmod_int)
  then show "b64_digit (int32 (push_bit 8 (b64_push i a))) 6 = b64_char (unat a mod 16 * 4)"
    by (intro b64_digitI) simp
qed

lemma drain_unfold:
  "0 \<le> j \<Longrightarrow> b64_drain i j out = b64_drain i (j - 6) (out @ [b64_digit i (nat j)])"
  "j < 0 \<Longrightarrow> b64_drain i j out = (out, j)"
  by (subst b64_drain.simps, simp)+

lemma drain_simps:
  "b64_drain i 2 out = (out @ [b64_digit i 2], -4)"
  "b64_drain i 4 out = (out @ [b64_digit i 4], -2)"
  "b64_drain i 6 out = (out @ [b64_digit i 6, b64_digit i 0], -6)"
  by (simp_all add: drain_unfold)

lemma step_simps:
  "b64_step a (out, i, -6) = (out @ [b64_digit (b64_push i a) 2], b64_push i a, -4)"
  "b64_step a (out, i, -4) = (out @ [b64_digit (b64_push i a) 4], b64_push i a, -2)"
  "b64_step a (out, i, -2) = (out @ [b64_digit (b64_push i a) 6, b64_digit (b64_push i a) 0], b64_push i a, -6)"
  by (simp_all add: b64_step_def drain_simps Let_def flip: b64_push_def)

text \<open>What the code computes, group by group.\<close>

fun b64_code :: "bytes \<Rightarrow> string" where
  "b64_code [] = []"
| "b64_code [a] = [b64_char (unat a div 4), b64_char (unat a mod 4 * 16), CHR ''='', CHR ''='']"
| "b64_code [a, b] =
     [b64_char (unat a div 4), b64_char (nat ((uint a - borrow b) mod 4 * 16 + uint b div 16)),
      b64_char (unat b mod 16 * 4), CHR ''='']"
| "b64_code (a # b # c # bs) =
     [b64_char (unat a div 4), b64_char (nat ((uint a - borrow b) mod 4 * 16 + uint b div 16)),
      b64_char (nat ((uint b - borrow c) mod 16 * 4 + uint c div 64)), b64_char (unat c mod 64)] @ b64_code bs"

definition b64_finish :: "string \<times> int \<times> int \<Rightarrow> string" where
  "b64_finish st =
     (let (out, i, j) = st
      in b64_pad (if -6 < j then out @ [b64_digit (int32 (push_bit 8 i)) (nat (j + 8))] else out))"

lemma pad_simps:
  "length out mod 4 = 0 \<Longrightarrow> b64_pad out = out"
  "length out mod 4 = 0 \<Longrightarrow> b64_pad (out @ [a, b, c]) = out @ [a, b, c, CHR ''='']"
  "length out mod 4 = 0 \<Longrightarrow> b64_pad (out @ [a, b]) = out @ [a, b, CHR ''='', CHR ''='']"
proof -
  show 0: "b64_pad out = out" if "length out mod 4 = 0" for out
    using that by (subst b64_pad.simps) simp
  show 3: "b64_pad (out @ [a, b, c]) = out @ [a, b, c, CHR ''='']" if "length out mod 4 = 0" for a b c
    using that by (subst b64_pad.simps) (simp add: 0 mod_Suc)
  show "b64_pad (out @ [a, b]) = out @ [a, b, CHR ''='', CHR ''='']" if "length out mod 4 = 0"
    using that 3 [OF that, of a b "CHR ''=''"] by (subst b64_pad.simps) (simp add: mod_Suc)
qed

lemma b64_loop: "length out mod 4 = 0 \<Longrightarrow> b64_finish (fold b64_step bs (out, i, -6)) = out @ b64_code bs"
proof (induction bs arbitrary: out i rule: b64_code.induct)
  case (4 a b c bs)
  let ?i = "b64_push (b64_push (b64_push i a) b) c"
  have "length (out @ take 4 (b64_code (a # b # c # bs))) mod 4 = 0" using 4(2) by simp
  from 4(1) [OF this, of ?i] show ?case
    by (simp add: step_simps digit_first digit_second digit_third digit_fourth)
qed (simp_all add: b64_finish_def step_simps digit_first digit_second digit_last pad_simps)

lemma b64_encode_code: "b64_encode bs = b64_code bs"
  using b64_loop [of "[]" bs 0] by (simp add: b64_encode_def b64_finish_def Let_def split: prod.splits)

lemma b64_char_inject: "m < 64 \<Longrightarrow> n < 64 \<Longrightarrow> b64_char m = b64_char n \<longleftrightarrow> m = n"
  unfolding b64_char_def
  by (rule nth_eq_iff_index_eq) (simp_all add: b64_alphabet_def)


lemma b64_code_length: "length (b64_code bs) = 4 * ((length bs + 2) div 3)"
proof (induction bs rule: b64_code.induct)
  case (4 a b c bs)
  have "(length bs + 2 + 3) div 3 = Suc ((length bs + 2) div 3)" by (simp add: div_add_self2)
  with 4 show ?case by simp
qed simp_all

lemma mod_pred: "(x - 1) mod 4 \<noteq> x mod 4" "(x - 1) mod 16 \<noteq> x mod 16" for x :: int
  by presburger+

text \<open>A group that got a borrow is not the group without it.\<close>

lemma group_iff:
  fixes m n k l :: nat and e :: int
  assumes "e = 0 \<or> e = 1" "n div l < k" "k * d = 64" "(int m - 1) mod int d \<noteq> int m mod int d" "0 < d"
  shows "b64_char (nat ((int m - e) mod int d * int k + int n div int l)) = b64_char (m mod d * k + n div l) \<longleftrightarrow> e = 0"
proof -
  have bound: "x * k + n div l < 64" if "x < d" for x
  proof -
    have "x * k + n div l < Suc x * k" using assms(2) by simp
    also have "\<dots> \<le> d * k" using that by (intro mult_le_mono1) simp
    finally show ?thesis using assms(3) by (simp add: mult.commute)
  qed
  define x where "x = nat ((int m - e) mod int d)"
  have x: "(int m - e) mod int d = int x" "x < d"
    using assms(5) by (simp_all add: x_def nat_less_iff)
  have "nat ((int m - e) mod int d * int k + int n div int l) = x * k + n div l"
    by (simp add: x flip: zdiv_int of_nat_mult of_nat_add)
  moreover have "b64_char (x * k + n div l) = b64_char (m mod d * k + n div l) \<longleftrightarrow> x = m mod d"
    using assms(2,5) by (subst b64_char_inject) (auto intro: bound x)
  moreover have "x = m mod d \<longleftrightarrow> e = 0"
    using assms(1,4) x(1) by (metis diff_zero of_nat_eq_iff zmod_int)
  ultimately show ?thesis by simp
qed

lemma borrow_iff: "borrow b = 0 \<or> borrow b = 1" "borrow b = 0 \<longleftrightarrow> unat b < 128"
proof -
  have "uint b < 128 \<longleftrightarrow> unat b < 128" using of_nat_less_iff [of "unat b" 128, where ?'a = int] by simp
  then show "borrow b = 0 \<longleftrightarrow> unat b < 128" by (simp add: borrow_def)
qed (simp add: borrow_def)

lemma unat_byte: "unat (b :: byte) < 256"
  using unsigned_less [of b] by simp

lemma second_iff:
  "b64_char (nat ((uint a - borrow b) mod 4 * 16 + uint b div 16)) = b64_char (unat a mod 4 * 16 + unat b div 16)
     \<longleftrightarrow> unat b < 128"
  using group_iff [OF borrow_iff(1), of "unat b" 16 16 4 "unat a" b] mod_pred(1) [of "uint a"] unat_byte [of b]
  by (simp add: borrow_iff(2) less_mult_imp_div_less)

lemma third_iff:
  "b64_char (nat ((uint a - borrow b) mod 16 * 4 + uint b div 64)) = b64_char (unat a mod 16 * 4 + unat b div 64)
     \<longleftrightarrow> unat b < 128"
  using group_iff [OF borrow_iff(1), of "unat b" 64 4 16 "unat a" b] mod_pred(2) [of "uint a"] unat_byte [of b]
  by (simp add: borrow_iff(2) less_mult_imp_div_less)

lemma b64_code_spec: "b64_code bs = b64_spec bs \<longleftrightarrow> b64_safe bs"
  by (induction bs rule: b64_code.induct) (simp_all add: second_iff third_iff)

lemma index_of_nth: "distinct xs \<Longrightarrow> n < length xs \<Longrightarrow> index_of (xs ! n) xs = Some n"
proof (induction xs arbitrary: n)
  case (Cons x xs)
  then show ?case by (cases n) auto
qed simp

lemma b64_alphabet_props: "distinct b64_alphabet" "length b64_alphabet = 64" "CHR ''='' \<notin> set b64_alphabet"
  by (simp_all add: b64_alphabet_def)

lemma b64_value_char [simp]: "n < 64 \<Longrightarrow> b64_value (b64_char n) = n"
  by (simp add: b64_value_def b64_char_def index_of_nth b64_alphabet_props)

lemma b64_char_pad [simp]: "n < 64 \<Longrightarrow> b64_char n \<noteq> CHR ''=''"
  unfolding b64_char_def using b64_alphabet_props nth_mem [of n b64_alphabet] by metis

lemma split_small: "r < k \<Longrightarrow> (q * k + r) div k = q" "r < k \<Longrightarrow> (q * k + r) mod k = r" for q r k :: nat
  by simp_all

text \<open>The groups of six bits of a byte, put together again.\<close>

lemma group_bounds:
  assumes "m < 256" "n < (256 :: nat)"
  shows "m div 4 < 64" "m mod 4 * 16 + n div 16 < 64" "m mod 16 * 4 + n div 64 < 64" "m mod 4 * 16 < 64"
    "m mod 16 * 4 < 64" "m mod 64 < 64"
proof -
  have "m div 4 < 64" "n div 16 < 16" "n div 64 < 4" using assms by (simp_all add: less_mult_imp_div_less)
  moreover have "m mod 4 < 4" "m mod 16 < 16" "m mod 64 < 64" by simp_all
  ultimately show "m div 4 < 64" "m mod 4 * 16 + n div 16 < 64" "m mod 16 * 4 + n div 64 < 64" "m mod 4 * 16 < 64"
    "m mod 16 * 4 < 64" "m mod 64 < 64" by linarith+
qed

lemma group_join:
  assumes "n < (256 :: nat)"
  shows "m div 4 * 4 + (m mod 4 * 16 + n div 16) div 16 = m" "m div 4 * 4 + m mod 4 * 16 div 16 = m"
    "(m mod 4 * 16 + n div 16) mod 16 * 16 = n div 16 * 16" "(m mod 16 * 4 + n div 64) mod 4 * 64 = n div 64 * 64"
    "(m mod 16 * 4 + n div 64) div 4 = m mod 16" "m mod 16 * 4 div 4 = m mod 16"
proof -
  have "n div 16 < 16" "n div 64 < 4" using assms by (simp_all add: less_mult_imp_div_less)
  then show "m div 4 * 4 + (m mod 4 * 16 + n div 16) div 16 = m" "(m mod 4 * 16 + n div 16) mod 16 * 16 = n div 16 * 16"
    "(m mod 16 * 4 + n div 64) mod 4 * 64 = n div 64 * 64" "(m mod 16 * 4 + n div 64) div 4 = m mod 16"
    by (simp_all only: split_small div_mult_mod_eq)
qed simp_all

lemma of_nat_unat_id: "word_of_nat (unat w) = w" for w :: byte
  by simp

lemma byte_join:
  "b64_byte1 (unat a div 4) (unat a mod 4 * 16 + unat b div 16) = a"
  "b64_byte1 (unat a div 4) (unat a mod 4 * 16) = a"
  "b64_byte2 (unat a mod 4 * 16 + unat b div 16) (unat b mod 16 * 4 + unat c div 64) = b"
  "b64_byte2 (unat a mod 4 * 16 + unat b div 16) (unat b mod 16 * 4) = b"
  "b64_byte3 (unat b mod 16 * 4 + unat c div 64) (unat c mod 64) = c" for a b c :: byte
  unfolding b64_byte1_def b64_byte2_def b64_byte3_def
  by (simp_all only: group_join [OF unat_byte] div_mult_mod_eq of_nat_unat_id)

lemma b64_decode_spec: "b64_decode (b64_spec bs) = Some bs"
  by (induction bs rule: b64_spec.induct) (simp_all add: group_bounds [OF unat_byte unat_byte] byte_join Let_def)

section \<open>Properties\<close>

text \<open>C18: the encoder computes base64 exactly on the inputs that have no byte of 0x80 and above in
  second or third place of a group of three: such a byte, a negative \<^verbatim>\<open>char\<close>, takes a bit from the
  group before it.\<close>

theorem b64_encode_correct_iff: "b64_encode bs = b64_spec bs \<longleftrightarrow> b64_safe bs"
  by (simp add: b64_encode_code b64_code_spec)

text \<open>The length of the result is what the encoder reserves, four characters for every three bytes
  begun, whatever the bytes.\<close>

theorem b64_encode_length: "length (b64_encode bs) = 4 * ((length bs + 2) div 3)"
  by (simp add: b64_encode_code b64_code_length)

text \<open>A client that decodes the text gets the bytes back.\<close>

theorem b64_roundtrip:
  assumes "b64_safe bs"
  shows "b64_decode (b64_encode bs) = Some bs"
  using assms b64_decode_spec [of bs] b64_code_spec [of bs] by (simp add: b64_encode_code)

theorem b64_roundtrip_witness: "b64_decode (b64_encode [0xff, 0x10, 0x7f, 0xf0]) = Some [0xff, 0x10, 0x7f, 0xf0]"
  by (rule b64_roundtrip) simp

end
