(* ===== verification/Examples.thy ===== *)
theory Examples
  imports Server Base64 Generated
begin

text \<open>
  The two example applications: examples/helloworld/main.cpp, which answers a greeting, and
  examples/errors/main.cpp, which answers with a status and base64-encoded details. The message
  types, the rpcs' parse and serialise functions and the services' names come from the proto files
  and protobuf; the functions are arguments.
\<close>

section \<open>The greeter\<close>

definition ascii :: "string \<Rightarrow> bytes" where
  "ascii s = map of_char s"

record greeter_request =
  greq_name :: bytes

record greeter_response =
  gres_message :: bytes

text \<open>The literal after the name is a backquote, a space and the UTF-8 bytes of a waving hand.\<close>

definition greeting :: "bytes \<Rightarrow> bytes" where
  "greeting name = ascii ''Hello `'' @ name @ ascii ''` '' @ [0xf0, 0x9f, 0x91, 0x8b]"

text \<open>\<^verbatim>\<open>GreeterImpl::call\<close>: the primary template and the specialisation for \<^verbatim>\<open>rpcHello\<close>.\<close>

definition greeter_call :: "(greeter_request, greeter_response) impl" where
  "greeter_call rpc ctx req =
     (if rpc_method rpc = ''Hello''
      then Inr (status_of_code Code_ok, Some \<lparr>gres_message = greeting (greq_name req)\<rparr>)
      else Inr (status_of_code Code_unimplemented, None))"

text \<open>The generated \<^verbatim>\<open>ServiceImpl\<close> with the specialisation for \<^verbatim>\<open>rpcHello\<close> at the head of the file.\<close>

definition greeter_impl_call :: "(greeter_request, greeter_response) impl" where
  "greeter_impl_call rpc ctx req =
     (if rpc_method rpc = ''Hello''
      then let res = \<lparr>gres_message = greeting (greq_name req)\<rparr> in Inr (status_of_code Code_ok, Some res)
      else stub_call rpc ctx req)"

definition greeter_service ::
  "(bytes \<Rightarrow> greeter_request option) \<Rightarrow> (greeter_response \<Rightarrow> bytes option) \<Rightarrow> service" where
  "greeter_service parse serialize =
     service_new (fixed_string_new (literal ''helloworld.v1.Greeter'')) greeter_call
       [\<lparr>rpc_name = fixed_string_new (literal ''Hello''), rpc_parse = parse, rpc_serialize = serialize\<rparr>]"

section \<open>Detailed errors\<close>

definition GOOGLE_RPC_INVALID_ARGUMENT :: int where
  "GOOGLE_RPC_INVALID_ARGUMENT = 3"

text \<open>\<^verbatim>\<open>static_cast<code_t>(int)\<close>.\<close>

definition code_of_value :: "int \<Rightarrow> code_t option" where
  "code_of_value i = find (\<lambda>c. code_value c = i) all_codes"

text \<open>\<^verbatim>\<open>ServiceImpl::call<rpcTest>\<close>; \<open>serialize\<close> is \<^verbatim>\<open>google::rpc::Status::SerializeAsString\<close> of a status with a code
  and a message.\<close>

definition errors_call :: "(int \<Rightarrow> string \<Rightarrow> bytes) \<Rightarrow> ('q, 'p) impl" where
  "errors_call serialize rpc ctx req =
     (if rpc_method rpc = ''Test''
      then let data = serialize GOOGLE_RPC_INVALID_ARGUMENT ''Sample error message'';
               encoded = b64_encode data
           in Inr (status_of_details (the (code_of_value GOOGLE_RPC_INVALID_ARGUMENT)) encoded, None)
      else Inr (status_of_code Code_unimplemented, None))"

definition errors_service ::
  "(int \<Rightarrow> string \<Rightarrow> bytes) \<Rightarrow> (bytes \<Rightarrow> 'q option) \<Rightarrow> ('p \<Rightarrow> bytes option) \<Rightarrow> service" where
  "errors_service serialize parse_empty serialize_empty =
     service_new (fixed_string_new (literal ''examples.v1.Errors'')) (errors_call serialize)
       [\<lparr>rpc_name = fixed_string_new (literal ''Test''), rpc_parse = parse_empty, rpc_serialize = serialize_empty\<rparr>]"

section \<open>The main programs\<close>

text \<open>Both: one service, then \<^verbatim>\<open>server.run("127.0.0.1", 7000)\<close> without a stop token. An exception that leaves
  \<^verbatim>\<open>main\<close> ends the program; \<open>None\<close> is a server that still runs.\<close>

definition example_main :: "uv_results \<Rightarrow> bool list \<Rightarrow> service \<Rightarrow> server_base \<times> int outcome option" where
  "example_main u ticks svc =
     (server_add svc server_base_new,
      case uv_server_run_ip u ''127.0.0.1'' False ticks uv_server_new of
        Inl e \<Rightarrow> Some Terminate
      | Inr None \<Rightarrow> None
      | Inr (Some s) \<Rightarrow> Some (Return 0))"

definition helloworld_main ::
  "(bytes \<Rightarrow> greeter_request option) \<Rightarrow> (greeter_response \<Rightarrow> bytes option) \<Rightarrow> uv_results \<Rightarrow> bool list \<Rightarrow>
     server_base \<times> int outcome option" where
  "helloworld_main parse serialize u ticks = example_main u ticks (greeter_service parse serialize)"

definition errors_main ::
  "(int \<Rightarrow> string \<Rightarrow> bytes) \<Rightarrow> (bytes \<Rightarrow> 'q option) \<Rightarrow> ('p \<Rightarrow> bytes option) \<Rightarrow> uv_results \<Rightarrow> bool list \<Rightarrow>
     server_base \<times> int outcome option" where
  "errors_main serialize parse_empty serialize_empty u ticks =
     example_main u ticks (errors_service serialize parse_empty serialize_empty)"

section \<open>Lemmas\<close>

text \<open>Both ways to implement the greeter answer alike.\<close>

lemma greeter_impls_agree: "greeter_impl_call = greeter_call"
  by (intro ext) (simp add: greeter_impl_call_def greeter_call_def stub_call_def)

lemma example_server: "server_add svc server_base_new = server_of [svc]"
  by (simp add: server_of_def)

lemma code_of_value_code [simp]: "code_of_value (code_value c) = Some c"
  by (simp add: code_of_value_def find_code)

lemma invalid_argument_cast: "code_of_value GOOGLE_RPC_INVALID_ARGUMENT = Some Code_invalid_argument"
  using code_of_value_code [of Code_invalid_argument] by (simp add: GOOGLE_RPC_INVALID_ARGUMENT_def)

text \<open>What an accepted request for a rpc of a server with one service gets when the application answers
  without a message.\<close>

lemma single_service_status:
  assumes "request_bool req" "req_service req = service_name (service_new name impl rpcs)"
    and "find (\<lambda>r. rpc_method r = req_method req) rpcs = Some rpc"
    and "rpc_parse rpc (request_data req) = Some q"
    and "impl rpc (context_of_request req) q = Inr (st, None)"
  shows "\<exists>resp. server_process (server_of [service_new name impl rpcs]) req = Return resp \<and> resp_id resp = req_id req \<and>
     resp_status resp = st \<and> response_bytes resp = message_bytes (message_of_string [])"
proof -
  have "um_find (req_service req) (sb_services (server_of [service_new name impl rpcs])) =
      Some (service_call (service_new name impl rpcs))"
    using assms(2) by (simp add: find_service)
  moreover have "service_call (service_new name impl rpcs) (context_of_request req) (req_method req)
      (request_data req) = Inr (st, [])"
    using assms(3-5)
    by (simp add: service_call_found service_handler_def rpc_map_request_def rpc_map_response_def)
  ultimately show ?thesis using assms(1) by (simp add: server_process_found)
qed

section \<open>Properties\<close>

text \<open>C17: the detailed error reaches the client. An accepted call of the errors example whose payload
  parses is answered with an empty message and, in the trailers, the code \<^verbatim>\<open>invalid_argument\<close> and
  details that decode to the serialised \<^verbatim>\<open>google.rpc.Status\<close>, provided that its bytes are ones that
  the encoder gets right.\<close>

theorem errors_details:
  assumes "request_bool req" "req_service req = ''examples.v1.Errors''" "req_method req = ''Test''"
    and "parse_empty (request_data req) = Some q"
    and "b64_safe (serialize 3 ''Sample error message'')" "serialize 3 ''Sample error message'' \<noteq> []"
  shows "\<exists>resp. server_process (fst (errors_main serialize parse_empty serialize_empty u ticks)) req =
       Return resp \<and> resp_id resp = req_id req \<and> response_bytes resp = [0, 0, 0, 0, 0] \<and>
     Option.bind (map_of (session_nv (response_trailers (resp_status resp))) ''grpc-status'') code_of_text =
       Some Code_invalid_argument \<and>
     Option.bind (map_of (session_nv (response_trailers (resp_status resp))) ''grpc-status-details-bin'') b64_decode =
       Some (serialize 3 ''Sample error message'')"
proof -
  let ?d = "serialize 3 ''Sample error message''"
  let ?st = "status_of_details Code_invalid_argument (b64_encode ?d)"
  have d: "b64_decode (b64_encode ?d) = Some ?d"
    using assms(5) b64_decode_spec [of ?d] b64_code_spec [of ?d] by (simp add: b64_encode_code)
  then have ne: "b64_encode ?d \<noteq> []" using assms(6) by auto
  have "\<exists>resp. server_process (server_of [errors_service serialize parse_empty serialize_empty]) req = Return resp \<and>
     resp_id resp = req_id req \<and> resp_status resp = ?st \<and> response_bytes resp = message_bytes (message_of_string [])"
    unfolding errors_service_def using assms(1-4)
    by (intro single_service_status [where q = q and rpc =
          "\<lparr>rpc_name = fixed_string_new (literal ''Test''), rpc_parse = parse_empty, rpc_serialize = serialize_empty\<rparr>"])
      (simp_all add: rpc_method_def errors_call_def invalid_argument_cast Let_def, simp add: GOOGLE_RPC_INVALID_ARGUMENT_def)
  moreover have "message_bytes (message_of_string []) = [0, 0, 0, 0, 0]"
    by (simp add: message_bytes_of_string prefix_bytes_def)
  moreover have "st_details ?st = b64_encode ?d" "st_code ?st = Code_invalid_argument"
    by (simp_all add: status_of_details_def)
  ultimately show ?thesis
    using ne d code_of_to_string [of Code_invalid_argument]
    by (auto simp: errors_main_def example_main_def example_server response_trailers_lookup)
qed

theorem errors_details_witness:
  "\<exists>resp. server_process (fst (errors_main (\<lambda>c m. [8, word_of_int c, 18, word_of_nat (length m)] @ ascii m)
       (\<lambda>d. Some ()) (\<lambda>r :: unit. Some []) \<lparr>ur_ip4_addr = 0, ur_ip6_addr = 0, ur_tcp_bind = 0, ur_tcp_open = 0,
       ur_getsockname = 0, ur_listen = 0\<rparr> []))
     ((request_new 1)\<lparr>req_service := ''examples.v1.Errors'', req_method := ''Test''\<rparr>) = Return resp \<and>
     Option.bind (map_of (session_nv (response_trailers (resp_status resp))) ''grpc-status-details-bin'') b64_decode =
       Some ([8, 3, 18, 20] @ ascii ''Sample error message'')"
proof -
  let ?r = "(request_new 1)\<lparr>req_service := ''examples.v1.Errors'', req_method := ''Test''\<rparr>"
  have "request_bool ?r"
    by (simp add: request_bool_def request_invalid_def request_flag_def request_new_def)
  moreover have "b64_safe ([8, 3, 18, 20] @ ascii ''Sample error message'')" by (simp add: ascii_def)
  ultimately show ?thesis
    using errors_details [of ?r "\<lambda>d. Some ()" "()" "\<lambda>c m. [8, word_of_int c, 18, word_of_nat (length m)] @ ascii m"]
    by fastforce
qed

text \<open>The greeter greets. An accepted call of \<^verbatim>\<open>Hello\<close> whose payload parses to a name is answered with
  the greeting for this name; a call of any other method is answered with \<^verbatim>\<open>not_found\<close>.\<close>

theorem greeter_greets:
  assumes "request_bool req" "req_service req = ''helloworld.v1.Greeter''"
    and "parse (request_data req) = Some \<lparr>greq_name = name\<rparr>"
    and "serialize \<lparr>gres_message = greeting name\<rparr> = Some out"
  shows "\<exists>resp. server_process (fst (helloworld_main parse serialize u ticks)) req = Return resp \<and>
     resp_id resp = req_id req \<and>
     (if req_method req = ''Hello''
      then st_code (resp_status resp) = Code_ok \<and> response_bytes resp = message_bytes (message_of_string out)
      else st_code (resp_status resp) = Code_not_found)"
proof -
  let ?rpc = "\<lparr>rpc_name = fixed_string_new (literal ''Hello''), rpc_parse = parse, rpc_serialize = serialize\<rparr>"
  let ?svc = "greeter_service parse serialize"
  have f: "um_find (req_service req) (sb_services (server_of [?svc])) = Some (service_call ?svc)"
    using assms(2) by (simp add: find_service greeter_service_def)
  have "service_call ?svc (context_of_request req) (req_method req) (request_data req) =
      Inr (if req_method req = ''Hello'' then (status_of_code Code_ok, out) else (status_of_code Code_not_found, []))"
  proof (cases "req_method req = ''Hello''")
    case True
    then have "find (\<lambda>r. rpc_method r = req_method req) [?rpc] = Some ?rpc" by (simp add: rpc_method_def)
    from service_call_found [OF this] True assms(3,4) show ?thesis
      by (simp add: greeter_service_def service_handler_def rpc_map_request_def rpc_map_response_def
          greeter_call_def rpc_method_def)
  next
    case False
    then have "find (\<lambda>r. rpc_method r = req_method req) [?rpc] = None" by (simp add: rpc_method_def)
    from service_call_unknown [OF this] False show ?thesis by (simp add: greeter_service_def)
  qed
  with f show ?thesis
    using assms(1)
    by (simp add: helloworld_main_def example_main_def example_server server_process_found status_of_code_def)
qed

theorem greeter_greets_witness:
  "\<exists>resp. server_process (fst (helloworld_main (\<lambda>d. Some \<lparr>greq_name = drop 2 d\<rparr>) (\<lambda>r. Some (gres_message r))
       \<lparr>ur_ip4_addr = 0, ur_ip6_addr = 0, ur_tcp_bind = 0, ur_tcp_open = 0,
       ur_getsockname = 0, ur_listen = 0\<rparr> []))
     ((request_new 1)\<lparr>req_service := ''helloworld.v1.Greeter'', req_method := ''Hello'',
        req_msg := message_of_string [10, 1, 120]\<rparr>) = Return resp \<and>
     response_bytes resp = message_bytes (message_of_string (greeting [120]))"
proof -
  let ?r = "(request_new 1)\<lparr>req_service := ''helloworld.v1.Greeter'', req_method := ''Hello'',
    req_msg := message_of_string [10, 1, 120]\<rparr>"
  have "request_bool ?r" "request_data ?r = [10, 1, 120]"
    by (simp_all add: request_bool_def request_invalid_def request_flag_def request_new_def request_data_def
        message_data_def message_of_string_def)
  then show ?thesis
    using greeter_greets [of ?r "\<lambda>d. Some \<lparr>greq_name = drop 2 d\<rparr>" "[120]" "\<lambda>r. Some (gres_message r)" "greeting [120]"]
    by fastforce
qed

text \<open>The main programs start a server that never returns, or end when it cannot be started.\<close>

theorem example_main_runs:
  "snd (example_main u ticks svc) =
     (if (ur_ip4_addr u = 0 \<or> ur_ip6_addr u = 0) \<and> ur_tcp_bind u = 0 \<and> ur_listen u = 0 then None else Some Terminate)"
  by (auto simp: example_main_def uv_server_run_ip_def uv_server_listen_ip_def uv_server_bind_def uv_server_listen_def
      uv_server_run_def uv_server_new_def uv_server_ticks_idle simp del: uv_server_ticks.simps)

end
