(* ===== verification/Echo_Server.thy ===== *)
theory Echo_Server
  imports Prelude
begin

text \<open>
  The HTTP/2 echo server of .experiments/h2c (echo-server.h, echo-server.cpp): callbacks of libuv and
  nghttp2 over a context per connection, which answers the DATA frames of a stream with the bytes
  received on it.

  nghttp2 and libuv are parameters. nghttp2 makes callbacks while it works and the callbacks call it
  back, so a call of it is a tree: its leaves are results, its nodes callbacks with nghttp2's state
  at that time and the continuation from the state (or value) that the callback leaves. What
  the callbacks print is left out.
\<close>

section \<open>nghttp2 and libuv\<close>

datatype echo_callback =
    Cb_header stream_id string string
  | Cb_frame int stream_id
  | Cb_data_chunk stream_id bytes
  | Cb_stream_close stream_id

datatype 'ng echo_recv =
    Rx_done int 'ng
  | Rx_call echo_callback 'ng "'ng \<Rightarrow> 'ng echo_recv"

text \<open>While it sends nghttp2 hands out bytes, which are answered with a number of bytes, and asks for
  the data of a response, offering \<open>length\<close> bytes of room; the answer has the number of bytes, the
  end flag and the bytes.\<close>

datatype 'ng echo_send =
    Tx_done int 'ng
  | Tx_bytes bytes "int \<Rightarrow> 'ng echo_send"
  | Tx_data stream_id nat "nat \<times> bool \<times> bytes \<Rightarrow> 'ng echo_send"
  | Tx_closed stream_id "'ng echo_send"

record 'ng echo_api =
  api_server_new :: 'ng
  api_submit_settings :: "(int \<times> nat) list \<Rightarrow> 'ng \<Rightarrow> int \<times> 'ng"
  api_mem_recv :: "bytes \<Rightarrow> 'ng \<Rightarrow> 'ng echo_recv"
  api_send :: "'ng \<Rightarrow> 'ng echo_send"
  api_submit_response :: "stream_id \<Rightarrow> header list \<Rightarrow> 'ng \<Rightarrow> int \<times> 'ng"
  api_uv_write :: "bytes \<Rightarrow> int"

definition NGHTTP2_DATA :: int where
  "NGHTTP2_DATA = 0"

definition NGHTTP2_HEADERS :: int where
  "NGHTTP2_HEADERS = 1"

definition NGHTTP2_SETTINGS_MAX_CONCURRENT_STREAMS :: int where
  "NGHTTP2_SETTINGS_MAX_CONCURRENT_STREAMS = 3"

section \<open>The context of a connection\<close>

record h2_stream =
  hs_headers :: "(string, string) umap"
  hs_data :: bytes

record 'ng h2_context =
  hc_session :: 'ng
  hc_streams :: "(stream_id, h2_stream) umap"
  hc_writes :: "bytes list"
  hc_in_flight :: nat

text \<open>\<open>hc_writes\<close> are the byte strings given to \<^verbatim>\<open>uv_write\<close>, \<open>hc_in_flight\<close> counts the write requests
  that are allocated and not yet freed.

  The subscript operator of \<^verbatim>\<open>std::map\<close>: the element, after inserting a default one if there is
  none.\<close>

definition map_index :: "'k \<Rightarrow> 'v \<Rightarrow> ('k, 'v) umap \<Rightarrow> 'v \<times> ('k, 'v) umap" where
  "map_index k dflt m =
     (case um_find k m of Some v \<Rightarrow> (v, m) | None \<Rightarrow> (dflt, um_emplace k dflt m))"

definition h2_stream_new :: h2_stream where
  "h2_stream_new = \<lparr>hs_headers = [], hs_data = []\<rparr>"

definition h2_context_new :: "'ng echo_api \<Rightarrow> 'ng h2_context" where
  "h2_context_new api =
     \<lparr>hc_session = api_server_new api, hc_streams = [], hc_writes = [], hc_in_flight = 0\<rparr>"

section \<open>The callbacks of nghttp2\<close>

definition on_session_header :: "stream_id \<Rightarrow> string \<Rightarrow> string \<Rightarrow> 'ng h2_context \<Rightarrow> 'ng h2_context" where
  "on_session_header sid name val ctx =
     (let (st, m) = map_index sid h2_stream_new (hc_streams ctx)
      in ctx\<lparr>hc_streams := um_assign sid (st\<lparr>hs_headers := um_emplace name val (hs_headers st)\<rparr>) m\<rparr>)"

definition on_session_data_chunk :: "stream_id \<Rightarrow> bytes \<Rightarrow> 'ng h2_context \<Rightarrow> 'ng h2_context" where
  "on_session_data_chunk sid bs ctx =
     (let (st, m) = map_index sid h2_stream_new (hc_streams ctx)
      in ctx\<lparr>hc_streams := um_assign sid (st\<lparr>hs_data := hs_data st @ bs\<rparr>) m\<rparr>)"

text \<open>A DATA frame is answered at once; a refused submission is only logged.\<close>

definition on_session_frame :: "'ng echo_api \<Rightarrow> int \<Rightarrow> stream_id \<Rightarrow> 'ng h2_context \<Rightarrow> 'ng h2_context" where
  "on_session_frame api type sid ctx =
     (if type = NGHTTP2_DATA then
        let (st, m) = map_index sid h2_stream_new (hc_streams ctx);
            (content_type, hs) = map_index ''content-type'' [] (hs_headers st);
            (rv, ng) = api_submit_response api sid
              [('':status'', ''200''), (''content-type'', content_type)] (hc_session ctx)
        in ctx\<lparr>hc_streams := um_assign sid (st\<lparr>hs_headers := hs\<rparr>) m, hc_session := ng\<rparr>
      else if type = NGHTTP2_HEADERS then
        ctx\<lparr>hc_streams := snd (map_index sid h2_stream_new (hc_streams ctx))\<rparr>
      else ctx)"

definition on_session_stream_close :: "stream_id \<Rightarrow> 'ng h2_context \<Rightarrow> 'ng h2_context" where
  "on_session_stream_close sid ctx = ctx"

fun on_session :: "'ng echo_api \<Rightarrow> echo_callback \<Rightarrow> 'ng h2_context \<Rightarrow> 'ng h2_context" where
  "on_session api (Cb_header sid name val) ctx = on_session_header sid name val ctx"
| "on_session api (Cb_frame type sid) ctx = on_session_frame api type sid ctx"
| "on_session api (Cb_data_chunk sid bs) ctx = on_session_data_chunk sid bs ctx"
| "on_session api (Cb_stream_close sid) ctx = on_session_stream_close sid ctx"

text \<open>\<open>on_data_read\<close>: the value returned, the end flag, the bytes in the buffer up to this value, and how many
  bytes \<^verbatim>\<open>memcpy\<close> read from the string.\<close>

definition on_data_read :: "stream_id \<Rightarrow> nat \<Rightarrow> 'ng h2_context \<Rightarrow> (nat \<times> bool \<times> bytes) \<times> nat \<times> 'ng h2_context" where
  "on_data_read sid len ctx =
     (let (st, m) = map_index sid h2_stream_new (hc_streams ctx);
          ctx1 = ctx\<lparr>hc_streams := m\<rparr>
      in if length (hs_data st) > len then ((0, True, []), 0, ctx1)
         else ((length (hs_data st), True, hs_data st), len, ctx1))"

definition on_session_send :: "'ng echo_api \<Rightarrow> bytes \<Rightarrow> 'ng h2_context \<Rightarrow> int \<times> 'ng h2_context" where
  "on_session_send api bs ctx =
     (int (length bs),
      ctx\<lparr>hc_writes := (if api_uv_write api bs = 0 then hc_writes ctx @ [bs] else hc_writes ctx),
          hc_in_flight := Suc (hc_in_flight ctx)\<rparr>)"

text \<open>Following the trees. The callbacks of a receiving nghttp2 are also listed, for the lemmas.\<close>

primrec echo_receive :: "'ng echo_api \<Rightarrow> 'ng echo_recv \<Rightarrow> 'ng h2_context \<Rightarrow> int \<times> 'ng h2_context" where
  "echo_receive api (Rx_done n ng) ctx = (n, ctx\<lparr>hc_session := ng\<rparr>)"
| "echo_receive api (Rx_call cb ng k) ctx =
     (let ctx1 = on_session api cb (ctx\<lparr>hc_session := ng\<rparr>) in echo_receive api (k (hc_session ctx1)) ctx1)"

primrec recv_trace :: "'ng echo_api \<Rightarrow> 'ng echo_recv \<Rightarrow> 'ng h2_context \<Rightarrow> echo_callback list" where
  "recv_trace api (Rx_done n ng) ctx = []"
| "recv_trace api (Rx_call cb ng k) ctx =
     (let ctx1 = on_session api cb (ctx\<lparr>hc_session := ng\<rparr>) in cb # recv_trace api (k (hc_session ctx1)) ctx1)"

primrec echo_transmit :: "'ng echo_api \<Rightarrow> 'ng echo_send \<Rightarrow> 'ng h2_context \<Rightarrow> int \<times> 'ng h2_context" where
  "echo_transmit api (Tx_done rv ng) ctx = (rv, ctx\<lparr>hc_session := ng\<rparr>)"
| "echo_transmit api (Tx_bytes bs k) ctx =
     (let (n, ctx1) = on_session_send api bs ctx in echo_transmit api (k n) ctx1)"
| "echo_transmit api (Tx_data sid len k) ctx =
     (let (r, _, ctx1) = on_data_read sid len ctx in echo_transmit api (k r) ctx1)"
| "echo_transmit api (Tx_closed sid k) ctx = echo_transmit api k (on_session_stream_close sid ctx)"

section \<open>The callbacks of libuv\<close>

text \<open>A connection: its socket is being read or was closed, with its context unless it never had one.\<close>

datatype 'ng echo_conn = Echo_none | Echo_reading "'ng h2_context" | Echo_closing "'ng h2_context option"

definition on_alloc :: "nat \<Rightarrow> bytes" where
  "on_alloc suggested_size = replicate suggested_size 0"

definition on_close :: "'ng echo_conn \<Rightarrow> 'ng echo_conn" where
  "on_close c = Echo_none"

definition on_write :: "int \<Rightarrow> 'ng h2_context \<Rightarrow> 'ng h2_context" where
  "on_write status ctx = ctx\<lparr>hc_in_flight := hc_in_flight ctx - 1\<rparr>"

definition on_conn :: "'ng echo_api \<Rightarrow> int \<Rightarrow> int \<Rightarrow> 'ng echo_conn" where
  "on_conn api status accepted =
     (if status < 0 then Echo_none
      else if accepted = 0
      then let ctx = h2_context_new api;
               (rv, ng) = api_submit_settings api [(NGHTTP2_SETTINGS_MAX_CONCURRENT_STREAMS, 1)] (hc_session ctx);
               ctx1 = ctx\<lparr>hc_session := ng\<rparr>
           in if rv \<noteq> 0 then Echo_closing (Some ctx1) else Echo_reading ctx1
      else Echo_closing None)"

text \<open>\<open>on_read\<close> with \<open>nread\<close> and the buffer that libuv filled.\<close>

definition on_read :: "'ng echo_api \<Rightarrow> int \<Rightarrow> bytes \<Rightarrow> 'ng h2_context \<Rightarrow> 'ng echo_conn" where
  "on_read api nread buf ctx =
     (if nread < 0 then Echo_closing (Some ctx)
      else let (n, ctx1) = echo_receive api (api_mem_recv api (take (nat nread) buf) (hc_session ctx)) ctx
           in if n < 0 then Echo_closing (Some ctx1)
              else let (rv, ctx2) = echo_transmit api (api_send api (hc_session ctx1)) ctx1
                   in if rv \<noteq> 0 then Echo_closing (Some ctx2) else Echo_reading ctx2)"

text \<open>\<open>main\<close>: the value returned, given the results of \<^verbatim>\<open>uv_listen\<close> and \<^verbatim>\<open>uv_run\<close>.\<close>

definition echo_main :: "int \<Rightarrow> int \<Rightarrow> int" where
  "echo_main listen run = (if listen \<noteq> 0 then 1 else run)"

text \<open>A connection that is read chunk by chunk until it is closed, and the callbacks nghttp2 made for it.\<close>

fun echo_reads :: "'ng echo_api \<Rightarrow> bytes list \<Rightarrow> 'ng echo_conn \<Rightarrow> 'ng echo_conn \<times> echo_callback list" where
  "echo_reads api (bs # bss) (Echo_reading ctx) =
     (let tr = recv_trace api (api_mem_recv api bs (hc_session ctx)) ctx;
          (c, tr') = echo_reads api bss (on_read api (int (length bs)) bs ctx)
      in (c, tr @ tr'))"
| "echo_reads api _ c = (c, [])"

section \<open>Lemmas\<close>

fun echo_context :: "'ng echo_conn \<Rightarrow> 'ng h2_context option" where
  "echo_context (Echo_reading ctx) = Some ctx"
| "echo_context (Echo_closing c) = c"
| "echo_context Echo_none = None"

definition stream_data :: "stream_id \<Rightarrow> 'ng h2_context \<Rightarrow> bytes" where
  "stream_data sid ctx = (case um_find sid (hc_streams ctx) of None \<Rightarrow> [] | Some st \<Rightarrow> hs_data st)"

fun chunk_of :: "stream_id \<Rightarrow> echo_callback \<Rightarrow> bytes" where
  "chunk_of sid (Cb_data_chunk s bs) = (if s = sid then bs else [])"
| "chunk_of sid _ = []"

definition chunks :: "stream_id \<Rightarrow> echo_callback list \<Rightarrow> bytes" where
  "chunks sid cbs = concat (map (chunk_of sid) cbs)"

lemma chunks_simps [simp]:
  "chunks sid [] = []" "chunks sid (cb # cbs) = chunk_of sid cb @ chunks sid cbs"
  "chunks sid (cbs @ cbs') = chunks sid cbs @ chunks sid cbs'"
  by (simp_all add: chunks_def)

lemma map_index_find:
  "fst (map_index k dflt m) = (case um_find k m of None \<Rightarrow> dflt | Some v \<Rightarrow> v)"
  "um_find k' (snd (map_index k dflt m)) = (if k' = k then Some (fst (map_index k dflt m)) else um_find k' m)"
  by (auto simp: map_index_def um.find_emplace split: option.splits)

lemmas stream_simps = stream_data_def map_index_find um.find_assign h2_stream_new_def Let_def case_prod_beta

lemma on_session_data:
  "stream_data sid (on_session api cb ctx) = stream_data sid ctx @ chunk_of sid cb"
  by (cases cb) (auto simp: on_session_header_def on_session_frame_def on_session_data_chunk_def
      on_session_stream_close_def stream_simps split: option.splits)

lemma stream_data_session [simp]: "stream_data sid (ctx\<lparr>hc_session := ng\<rparr>) = stream_data sid ctx"
  by (simp add: stream_data_def)

lemma echo_receive_data:
  "stream_data sid (snd (echo_receive api t ctx)) = stream_data sid ctx @ chunks sid (recv_trace api t ctx)"
proof (induction t arbitrary: ctx)
  case (Rx_call cb ng k)
  then show ?case by (simp add: Let_def on_session_data)
qed simp

lemma on_data_read_eq:
  "on_data_read sid len ctx =
     (if length (stream_data sid ctx) > len then (0, True, [])
      else (length (stream_data sid ctx), True, stream_data sid ctx),
      if length (stream_data sid ctx) > len then 0 else len,
      ctx\<lparr>hc_streams := snd (map_index sid h2_stream_new (hc_streams ctx))\<rparr>)"
  by (auto simp: on_data_read_def stream_simps split: option.splits)

lemma on_data_read_data [simp]: "stream_data s (snd (snd (on_data_read sid len ctx))) = stream_data s ctx"
  by (auto simp: on_data_read_def stream_simps split: option.splits)

lemma on_session_send_data [simp]: "stream_data s (snd (on_session_send api bs ctx)) = stream_data s ctx"
  by (simp add: on_session_send_def stream_data_def)

lemma echo_transmit_data: "stream_data s (snd (echo_transmit api t ctx)) = stream_data s ctx"
  by (induction t arbitrary: ctx) (simp_all add: case_prod_beta Let_def on_session_stream_close_def)

lemma on_read_data:
  assumes "echo_context (on_read api (int (length bs)) bs ctx) = Some ctx'"
  shows "stream_data sid ctx' = stream_data sid ctx @
     chunks sid (recv_trace api (api_mem_recv api bs (hc_session ctx)) ctx)"
proof -
  obtain n ctx1 where 1: "echo_receive api (api_mem_recv api bs (hc_session ctx)) ctx = (n, ctx1)" by force
  obtain rv ctx2 where 2: "echo_transmit api (api_send api (hc_session ctx1)) ctx1 = (rv, ctx2)" by force
  have "stream_data sid ctx1 = stream_data sid ctx @ chunks sid (recv_trace api (api_mem_recv api bs (hc_session ctx)) ctx)"
    using echo_receive_data [of sid api "api_mem_recv api bs (hc_session ctx)" ctx] 1 by simp
  moreover have "stream_data sid ctx2 = stream_data sid ctx1"
    using echo_transmit_data [of sid api "api_send api (hc_session ctx1)" ctx1] 2 by simp
  ultimately show ?thesis using assms 1 2 by (auto simp: on_read_def split: if_splits)
qed

lemma on_read_context: "\<exists>ctx'. echo_context (on_read api nread buf ctx) = Some ctx'"
  by (auto simp: on_read_def Let_def case_prod_beta)

lemma echo_reads_data:
  assumes "echo_context c0 = Some ctx0" "echo_reads api bss c0 = (c, tr)"
  shows "\<exists>ctx. echo_context c = Some ctx \<and> stream_data sid ctx = stream_data sid ctx0 @ chunks sid tr"
  using assms
proof (induction api bss c0 arbitrary: ctx0 tr rule: echo_reads.induct)
  case (1 api bs bss ctx)
  obtain ctx1 where c1: "echo_context (on_read api (int (length bs)) bs ctx) = Some ctx1"
    using on_read_context by blast
  obtain tr' where r: "echo_reads api bss (on_read api (int (length bs)) bs ctx) = (c, tr')"
    "tr = recv_trace api (api_mem_recv api bs (hc_session ctx)) ctx @ tr'"
    using "1.prems"(2) by (auto simp: Let_def split: prod.splits)
  from "1.IH" [OF refl c1 r(1)] on_read_data [OF c1] r(2) "1.prems"(1) show ?case by auto
qed auto

lemma echo_reads_context:
  "echo_reads api bss c0 = (c, tr) \<Longrightarrow> echo_context c = Some ctx \<Longrightarrow> \<exists>ctx0. echo_context c0 = Some ctx0"
  by (cases "(api, bss, c0)" rule: echo_reads.cases) auto

lemma on_conn_context: "echo_context (on_conn api status accepted) = Some ctx \<Longrightarrow> stream_data sid ctx = []"
  by (auto simp: on_conn_def h2_context_new_def stream_data_def um_find_def Let_def split: if_splits prod.splits)

section \<open>A sample nghttp2\<close>

text \<open>One DATA frame of stream 1 per chunk, answered when nghttp2 is asked to send.\<close>

definition sample_api :: "nat echo_api" where
  "sample_api =
     \<lparr>api_server_new = 0,
      api_submit_settings = (\<lambda>iv ng. (0, ng)),
      api_mem_recv = (\<lambda>bs ng. Rx_call (Cb_data_chunk 1 bs) ng (\<lambda>ng1. Rx_call (Cb_frame 0 1) ng1 (Rx_done 0))),
      api_send = (\<lambda>ng. if ng = 0 then Tx_done 0 0
                      else Tx_data 1 16384 (\<lambda>(n, eof, bs). Tx_bytes bs (\<lambda>_. Tx_done 0 0))),
      api_submit_response = (\<lambda>sid hs ng. (0, Suc ng)),
      api_uv_write = (\<lambda>bs. 0)\<rparr>"

section \<open>Properties\<close>

text \<open>C38: the echo. On a connection of the echo server, after any sequence of reads and however nghttp2
  interleaves its callbacks, the data offered for a stream is exactly what was received on this
  stream, in order, if it fits the room that nghttp2 offers, and nothing otherwise; in both cases
  the stream is ended.\<close>

theorem echo_conversation:
  assumes "echo_reads api bss (on_conn api status accepted) = (c, tr)" "echo_context c = Some ctx"
  shows "fst (on_data_read sid len ctx) =
     (if length (chunks sid tr) \<le> len then (length (chunks sid tr), True, chunks sid tr) else (0, True, []))"
proof -
  obtain ctx0 where c0: "echo_context (on_conn api status accepted) = Some ctx0"
    using echo_reads_context [OF assms] by blast
  from echo_reads_data [OF c0 assms(1), of sid] on_conn_context [OF c0, of sid] assms(2)
  have "stream_data sid ctx = chunks sid tr" by simp
  then show ?thesis by (simp add: on_data_read_eq)
qed

theorem echo_conversation_witness:
  "\<exists>ctx. echo_reads sample_api [[104], [105]] (on_conn sample_api 0 0) =
       (Echo_reading ctx, [Cb_data_chunk 1 [104], Cb_frame 0 1, Cb_data_chunk 1 [105], Cb_frame 0 1]) \<and>
     hc_writes ctx = [[104], [104, 105]] \<and> fst (on_data_read 1 16384 ctx) = (2, True, [104, 105])"
proof -
  let ?tr = "[Cb_data_chunk 1 [104], Cb_frame 0 1, Cb_data_chunk 1 [105], Cb_frame 0 1]"
  let ?ctx = "\<lparr>hc_session = 0, hc_streams = [(1, \<lparr>hs_headers = [(''content-type'', [])], hs_data = [104, 105]\<rparr>)],
      hc_writes = [[104], [104, 105]], hc_in_flight = 2\<rparr>"
  have r: "echo_reads sample_api [[104], [105]] (on_conn sample_api 0 0) = (Echo_reading ?ctx, ?tr)"
    by (simp add: sample_api_def on_conn_def on_read_def h2_context_new_def h2_stream_new_def on_session_frame_def
        on_session_data_chunk_def on_data_read_def on_session_send_def map_index_def um_find_def um_emplace_def
        um_assign_def NGHTTP2_DATA_def Let_def)
  from echo_conversation [OF r, of ?ctx 1 16384] r show ?thesis by simp
qed

text \<open>C39: the room that nghttp2 offers. The callback never reports more bytes than fit, but it copies as many
  bytes as fit instead of as many as there are: it reads past the string and its terminating NUL
  exactly when the room exceeds the data by more than one byte.\<close>

theorem echo_data_read_bounds:
  "fst (fst (on_data_read sid len ctx)) \<le> len \<and>
   length (snd (snd (fst (on_data_read sid len ctx)))) = fst (fst (on_data_read sid len ctx)) \<and>
   (fst (snd (on_data_read sid len ctx)) > Suc (length (stream_data sid ctx))) =
     (Suc (length (stream_data sid ctx)) < len)"
  by (simp add: on_data_read_eq)

end
