(* ===== verification/Coro_Experiment.thy ===== *)
theory Coro_Experiment
  imports Uv_Io
begin

text \<open>
  The coroutine experiment (.experiments/coroutines: reader.h, writer.h, conn.h, task.h, server.h, main.cpp),
  from which the library's uv backend grew: a server that answers every chunk with a reply. Its
  awaitable reader differs from the library's in that reading is started once per connection and
  never stopped.

  libuv is not part of the sources: the results of its calls and what it passes to the callbacks are
  arguments. A connection is a coroutine that is suspended in the await of its reader or of its
  writer; libuv's callbacks resume it.
\<close>

section \<open>The reader\<close>

record x_buffer =
  xb_data :: bytes
  xb_size :: nat

definition x_buffer_capacity :: nat where
  "x_buffer_capacity = 1024"

definition x_buffer_clear :: "x_buffer \<Rightarrow> x_buffer" where
  "x_buffer_clear b = b\<lparr>xb_size := 0\<rparr>"

definition x_buffer_set_size :: "nat \<Rightarrow> x_buffer \<Rightarrow> x_buffer" where
  "x_buffer_set_size s b =
     (if s > x_buffer_capacity then b\<lparr>xb_size := x_buffer_capacity\<rparr> else b\<lparr>xb_size := s\<rparr>)"

record x_reader =
  xr_buf :: x_buffer
  xr_eos :: bool
  xr_h :: "coro option"

text \<open>The storage of a buffer is not initialised; \<open>junk\<close> is what it holds.\<close>

definition x_reader_new :: "x_buffer \<Rightarrow> x_reader" where
  "x_reader_new junk = \<lparr>xr_buf = junk, xr_eos = False, xr_h = None\<rparr>"

definition x_reader_bool :: "x_reader \<Rightarrow> bool" where
  "x_reader_bool r = (\<not> xr_eos r)"

definition x_reader_await_ready :: "x_reader \<Rightarrow> bool" where
  "x_reader_await_ready r = xr_eos r"

definition x_reader_await_suspend :: "coro \<Rightarrow> x_reader \<Rightarrow> x_reader" where
  "x_reader_await_suspend h r = r\<lparr>xr_h := Some h\<rparr>"

definition x_reader_data :: "x_reader \<Rightarrow> bytes" where
  "x_reader_data r = take (xb_size (xr_buf r)) (xb_data (xr_buf r))"

definition x_reader_await_resume :: "x_reader \<Rightarrow> bytes \<times> x_reader" where
  "x_reader_await_resume r = (let r1 = r\<lparr>xr_h := None\<rparr> in (x_reader_data r1, r1))"

text \<open>\<open>resume\<close> calls the stored coroutine, if any; here and below the callbacks' results say which.\<close>

definition x_reader_resume :: "x_reader \<Rightarrow> coro option" where
  "x_reader_resume r = xr_h r"

definition x_reader_close :: "x_reader \<Rightarrow> x_reader \<times> coro option" where
  "x_reader_close r = (let r1 = r\<lparr>xr_eos := True\<rparr> in (r1, x_reader_resume r1))"

section \<open>The writer\<close>

record x_writer =
  xw_done :: bool
  xw_e :: "cpp_exn option"
  xw_h :: "coro option"

definition x_writer_new :: "int \<Rightarrow> cpp_exn + x_writer" where
  "x_writer_new started =
     (if started \<noteq> 0 then Inl (Runtime_error ''Failed to start writing data: '')
      else Inr \<lparr>xw_done = False, xw_e = None, xw_h = None\<rparr>)"

definition x_writer_await_ready :: "x_writer \<Rightarrow> bool" where
  "x_writer_await_ready w = xw_done w"

definition x_writer_await_suspend :: "coro \<Rightarrow> x_writer \<Rightarrow> x_writer" where
  "x_writer_await_suspend h w = w\<lparr>xw_h := Some h\<rparr>"

definition x_writer_await_resume :: "x_writer \<Rightarrow> (cpp_exn + unit) \<times> x_writer" where
  "x_writer_await_resume w =
     (let w1 = w\<lparr>xw_h := None\<rparr> in case xw_e w1 of Some e \<Rightarrow> (Inl e, w1) | None \<Rightarrow> (Inr (), w1))"

definition x_writer_resume :: "x_writer \<Rightarrow> coro option" where
  "x_writer_resume w = xw_h w"

definition x_writer_done :: "x_writer \<Rightarrow> x_writer \<times> coro option" where
  "x_writer_done w = (let w1 = w\<lparr>xw_done := True\<rparr> in (w1, x_writer_resume w1))"

definition x_writer_exception :: "cpp_exn \<Rightarrow> x_writer \<Rightarrow> x_writer" where
  "x_writer_exception e w = w\<lparr>xw_e := Some e\<rparr>"

definition x_writer_write_cb :: "int \<Rightarrow> x_writer \<Rightarrow> x_writer \<times> coro option" where
  "x_writer_write_cb status w =
     x_writer_done
       (if status \<noteq> 0 then x_writer_exception (Runtime_error ''Failed to write data: '') w else w)"

section \<open>The connection\<close>

text \<open>Where the coroutine of a connection is: in the await of the reader, in the await of a writer, or over.\<close>

datatype x_pos = At_read | At_write x_writer | At_end "cpp_exn option"

record x_conn =
  xc_reader :: x_reader
  xc_pos :: x_pos
  xc_written :: "bytes list"

text \<open>The constructor with \<open>accept\<close>, given the results of \<^verbatim>\<open>uv_accept\<close> and \<^verbatim>\<open>uv_read_start\<close>.\<close>

definition x_conn_accept :: "int \<Rightarrow> int \<Rightarrow> cpp_exn + unit" where
  "x_conn_accept accepted started =
     (if accepted \<noteq> 0 then Inl (Runtime_error ''Failed to accept for connection: '')
      else if started \<noteq> 0 then Inl (Runtime_error ''Failed to start reading data: '')
      else Inr ())"

text \<open>\<open>alloc_cb\<close> clears the buffer and gives libuv its storage, into which it puts at most \<open>capacity\<close> bytes.\<close>

definition x_conn_alloc_cb :: "bytes \<Rightarrow> x_conn \<Rightarrow> x_conn" where
  "x_conn_alloc_cb bs c =
     (let r = xc_reader c; b = x_buffer_clear (xr_buf r); got = take x_buffer_capacity bs
      in c\<lparr>xc_reader := r\<lparr>xr_buf := b\<lparr>xb_data := got @ drop (length got) (xb_data b)\<rparr>\<rparr>\<rparr>)"

definition x_conn_read_cb :: "int \<Rightarrow> x_conn \<Rightarrow> x_conn \<times> coro option" where
  "x_conn_read_cb nread c =
     (let r = xc_reader c
      in if nread < 0 then (let (r1, h) = x_reader_close r in (c\<lparr>xc_reader := r1\<rparr>, h))
         else (let r1 = r\<lparr>xr_buf := x_buffer_set_size (nat nread) (xr_buf r)\<rparr>
               in (c\<lparr>xc_reader := r1\<rparr>, x_reader_resume r1)))"

section \<open>The server's coroutine\<close>

definition x_reply :: "bytes \<Rightarrow> bytes" where
  "x_reply bs = map of_char ''reply: '' @ bs"

text \<open>The loop of \<^verbatim>\<open>server::accept\<close>, run by the coroutine 0: from its head to the next suspension, and on from
  the two awaits. \<open>wr\<close> is the result of \<^verbatim>\<open>uv_write\<close> for given bytes.\<close>

definition x_loop_head :: "x_conn \<Rightarrow> x_conn" where
  "x_loop_head c =
     (if \<not> x_reader_bool (xc_reader c) then c\<lparr>xc_pos := At_end None\<rparr>
      else c\<lparr>xc_reader := x_reader_await_suspend 0 (xc_reader c), xc_pos := At_read\<rparr>)"

definition x_loop_read :: "(bytes \<Rightarrow> int) \<Rightarrow> x_conn \<Rightarrow> x_conn" where
  "x_loop_read wr c =
     (let (bs, r) = x_reader_await_resume (xc_reader c); c1 = c\<lparr>xc_reader := r\<rparr>
      in if length bs > 0
         then (case x_writer_new (wr (x_reply bs)) of
                 Inl e \<Rightarrow> c1\<lparr>xc_pos := At_end (Some e)\<rparr>
               | Inr w \<Rightarrow> c1\<lparr>xc_pos := At_write (x_writer_await_suspend 0 w),
                             xc_written := xc_written c @ [x_reply bs]\<rparr>)
         else x_loop_head c1)"

definition x_loop_written :: "x_writer \<Rightarrow> x_conn \<Rightarrow> x_conn" where
  "x_loop_written w c =
     (case x_writer_await_resume w of
        (Inl e, _) \<Rightarrow> c\<lparr>xc_pos := At_end (Some e)\<rparr>
      | (Inr _, _) \<Rightarrow> x_loop_head c)"

definition x_server_accept :: "x_buffer \<Rightarrow> int \<Rightarrow> int \<Rightarrow> x_conn" where
  "x_server_accept junk accepted started =
     (let c = \<lparr>xc_reader = x_reader_new junk, xc_pos = At_end None, xc_written = []\<rparr>
      in case x_conn_accept accepted started of
           Inl e \<Rightarrow> c\<lparr>xc_pos := At_end (Some e)\<rparr>
         | Inr _ \<Rightarrow> x_loop_head c)"

text \<open>What libuv does next with a connection: it reads (or reports the end or an error), or a write has
  finished. A resumed coroutine goes on in the await that stored it; nothing is reported to a
  connection that is over, since its handle is closed.\<close>

datatype x_event = X_read int bytes | X_written int

fun x_step :: "(bytes \<Rightarrow> int) \<Rightarrow> x_event \<Rightarrow> x_conn \<Rightarrow> x_conn" where
  "x_step wr (X_read nread bs) c =
     (case xc_pos c of
        At_end _ \<Rightarrow> c
      | _ \<Rightarrow> (case x_conn_read_cb nread (x_conn_alloc_cb bs c) of
                (c1, None) \<Rightarrow> c1
              | (c1, Some h) \<Rightarrow> x_loop_read wr c1))"
| "x_step wr (X_written status) c =
     (case xc_pos c of
        At_write w \<Rightarrow> (case x_writer_write_cb status w of
                         (w1, None) \<Rightarrow> c\<lparr>xc_pos := At_write w1\<rparr>
                       | (w1, Some h) \<Rightarrow> x_loop_written w1 c)
      | _ \<Rightarrow> c)"

text \<open>The lines that the promise of a task writes about an exception, the callback for a new connection,
  \<^verbatim>\<open>server::run\<close> and \<^verbatim>\<open>main\<close>, over the results of libuv's calls.\<close>

definition x_task_unhandled_exception :: "(cpp_exn \<Rightarrow> string) \<Rightarrow> cpp_exn \<Rightarrow> string" where
  "x_task_unhandled_exception what e =
     (if is_std_exception e then ''Exception: '' @ what e @ ''\<newline>'' else ''Unknown exception\<newline>'')"

definition x_server_conn_cb :: "x_buffer \<Rightarrow> int \<Rightarrow> int \<Rightarrow> int \<Rightarrow> x_conn option" where
  "x_server_conn_cb junk status accepted started =
     (if status < 0 then None else Some (x_server_accept junk accepted started))"

definition x_server_run :: "int \<Rightarrow> int \<Rightarrow> cpp_exn + unit" where
  "x_server_run bound listening =
     (if bound \<noteq> 0 then Inl (Runtime_error ''Failed to bind to tcp address: '')
      else if listening \<noteq> 0 then Inl (Runtime_error ''Failed to listen for connections: '')
      else Inr ())"

definition x_main :: "int \<Rightarrow> int \<Rightarrow> int" where
  "x_main bound listening = (case x_server_run bound listening of Inl e \<Rightarrow> 1 | Inr _ \<Rightarrow> 0)"

section \<open>Specification\<close>

text \<open>A connection as its peer sees it: it reads, or it writes (and may know that the stream has ended), or it
  is over. Chunks that arrive while it writes have no effect.\<close>

datatype x_abs = Abs_reading | Abs_writing bool | Abs_over

fun x_abs_step :: "(bytes \<Rightarrow> int) \<Rightarrow> x_event \<Rightarrow> x_abs \<Rightarrow> x_abs \<times> bytes list" where
  "x_abs_step wr (X_read n bs) Abs_reading =
     (if n < 0 then (Abs_over, [])
      else let d = take (nat n) (take x_buffer_capacity bs)
           in if d = [] then (Abs_reading, [])
              else if wr (x_reply d) \<noteq> 0 then (Abs_over, []) else (Abs_writing False, [x_reply d]))"
| "x_abs_step wr (X_read n bs) (Abs_writing e) = (Abs_writing (e \<or> n < 0), [])"
| "x_abs_step wr (X_written status) (Abs_writing e) = (if status \<noteq> 0 \<or> e then Abs_over else Abs_reading, [])"
| "x_abs_step wr _ a = (a, [])"

fun x_abs_run :: "(bytes \<Rightarrow> int) \<Rightarrow> x_event list \<Rightarrow> x_abs \<Rightarrow> x_abs \<times> bytes list" where
  "x_abs_run wr [] a = (a, [])"
| "x_abs_run wr (ev # evs) a =
     (let (a1, out) = x_abs_step wr ev a; (a2, outs) = x_abs_run wr evs a1 in (a2, out @ outs))"

text \<open>libuv reports no more bytes than it has read.\<close>

fun x_event_ok :: "x_event \<Rightarrow> bool" where
  "x_event_ok (X_read n bs) = (n \<le> int (length bs))"
| "x_event_ok (X_written status) = True"

fun x_rel :: "x_conn \<Rightarrow> x_abs \<Rightarrow> bool" where
  "x_rel c Abs_reading \<longleftrightarrow> xc_pos c = At_read \<and> xr_h (xc_reader c) = Some 0 \<and> \<not> xr_eos (xc_reader c)"
| "x_rel c (Abs_writing e) \<longleftrightarrow> xc_pos c = At_write \<lparr>xw_done = False, xw_e = None, xw_h = Some 0\<rparr> \<and>
     xr_h (xc_reader c) = None \<and> xr_eos (xc_reader c) = e"
| "x_rel c Abs_over \<longleftrightarrow> (\<exists>e. xc_pos c = At_end e)"

section \<open>Lemmas\<close>

lemmas x_reader_defs = x_reader_await_suspend_def x_reader_await_resume_def x_reader_data_def x_reader_resume_def
  x_reader_close_def x_reader_bool_def

lemmas x_writer_defs = x_writer_new_def x_writer_await_suspend_def x_writer_await_resume_def x_writer_resume_def
  x_writer_done_def x_writer_exception_def x_writer_write_cb_def

interpretation x_writer: write_awaitable x_writer_new x_writer_await_suspend x_writer_await_resume x_writer_write_cb
  by unfold_locales (auto simp: x_writer_defs Let_def split: if_splits)

text \<open>To the coroutine that awaits it, the experiment's writer is the library's.\<close>

lemma writers_agree:
  "(case x_writer_new started of Inl e \<Rightarrow> Inl e
    | Inr w \<Rightarrow> fst (x_writer_await_resume (fst (x_writer_write_cb status (x_writer_await_suspend h w))))) =
   (case writer_new started of Inl e \<Rightarrow> Inl e
    | Inr w \<Rightarrow> fst (writer_await_resume (fst (writer_write_cb status (writer_await_suspend h w)))))"
  by (simp only: x_writer.await_outcome uv_writer.await_outcome)

lemmas x_conn_defs = x_conn_alloc_cb_def x_conn_read_cb_def x_buffer_clear_def x_buffer_set_size_def
  x_loop_head_def x_loop_read_def x_loop_written_def

lemma take_got:
  "n \<le> length bs \<Longrightarrow> take (min n m) (take m bs @ drop (length (take m bs)) old) = take n (take m bs)"
  by (simp add: min_def)

lemma x_read_data:
  assumes "0 \<le> n" "n \<le> int (length bs)"
  shows "x_reader_data (xc_reader (fst (x_conn_read_cb n (x_conn_alloc_cb bs c)))) =
     take (nat n) (take x_buffer_capacity bs)"
  using assms take_got [of "nat n" bs x_buffer_capacity "xb_data (xr_buf (xc_reader c))"]
  by (auto simp: x_conn_defs x_reader_defs Let_def min_def split: if_splits)

text \<open>The callback changes nothing but the buffer, unless the stream is over.\<close>

lemma x_read_cb_rest:
  "xr_h (xc_reader (fst (x_conn_read_cb n (x_conn_alloc_cb bs c)))) = xr_h (xc_reader c)"
  "snd (x_conn_read_cb n (x_conn_alloc_cb bs c)) = xr_h (xc_reader c)"
  "xr_eos (xc_reader (fst (x_conn_read_cb n (x_conn_alloc_cb bs c)))) \<longleftrightarrow> xr_eos (xc_reader c) \<or> n < 0"
  "xc_pos (fst (x_conn_read_cb n (x_conn_alloc_cb bs c))) = xc_pos c"
  "xc_written (fst (x_conn_read_cb n (x_conn_alloc_cb bs c))) = xc_written c"
  "n < 0 \<Longrightarrow> x_reader_data (xc_reader (fst (x_conn_read_cb n (x_conn_alloc_cb bs c)))) = []"
  "xb_size (xr_buf (xc_reader (fst (x_conn_read_cb n (x_conn_alloc_cb bs c))))) \<le> x_buffer_capacity"
  by (auto simp: x_conn_alloc_cb_def x_conn_read_cb_def x_buffer_clear_def x_buffer_set_size_def x_reader_defs Let_def)

lemma x_loop_read_cases:
  "x_loop_read wr c =
     (let c1 = c\<lparr>xc_reader := (xc_reader c)\<lparr>xr_h := None\<rparr>\<rparr>; d = x_reader_data (xc_reader c)
      in if d = [] then x_loop_head c1
         else if wr (x_reply d) \<noteq> 0
         then c1\<lparr>xc_pos := At_end (Some (Runtime_error ''Failed to start writing data: ''))\<rparr>
         else c1\<lparr>xc_pos := At_write \<lparr>xw_done = False, xw_e = None, xw_h = Some 0\<rparr>,
                 xc_written := xc_written c @ [x_reply d]\<rparr>)"
  by (simp add: x_loop_read_def x_reader_await_resume_def x_reader_data_def x_writer_new_def
      x_writer_await_suspend_def Let_def)

lemma x_step_read:
  "x_step wr (X_read n bs) c =
     (case xc_pos c of
        At_end _ \<Rightarrow> c
      | _ \<Rightarrow> (let c1 = fst (x_conn_read_cb n (x_conn_alloc_cb bs c))
              in if xr_h (xc_reader c) = None then c1 else x_loop_read wr c1))"
  using x_read_cb_rest(2) [of n bs c]
  by (cases "x_conn_read_cb n (x_conn_alloc_cb bs c)") (auto simp: Let_def split: x_pos.splits option.splits)

lemma x_sim_read:
  assumes "x_rel c a" "n \<le> int (length bs)"
  shows "x_rel (x_step wr (X_read n bs) c) (fst (x_abs_step wr (X_read n bs) a)) \<and>
     xc_written (x_step wr (X_read n bs) c) = xc_written c @ snd (x_abs_step wr (X_read n bs) a)"
proof (cases a)
  case Abs_reading
  show ?thesis
  proof (cases "n < 0")
    case True
    with assms Abs_reading show ?thesis
      unfolding x_step_read by (simp add: x_loop_read_cases x_loop_head_def x_reader_bool_def x_read_cb_rest Let_def)
  next
    case False
    with x_read_data [of n bs c] assms Abs_reading show ?thesis
      unfolding x_step_read
      by (simp add: x_loop_read_cases x_loop_head_def x_reader_bool_def x_reader_await_suspend_def x_read_cb_rest Let_def)
        (simp add: min_def x_buffer_capacity_def)
  qed
next
  case (Abs_writing e)
  with assms show ?thesis unfolding x_step_read by (simp add: x_read_cb_rest Let_def)
next
  case Abs_over
  with assms show ?thesis unfolding x_step_read by auto
qed

lemma x_sim_written:
  assumes "x_rel c a"
  shows "x_rel (x_step wr (X_written st) c) (fst (x_abs_step wr (X_written st) a)) \<and>
     xc_written (x_step wr (X_written st) c) = xc_written c @ snd (x_abs_step wr (X_written st) a)"
  using assms
  by (cases a) (auto simp: x_writer_defs x_loop_written_def x_loop_head_def x_reader_bool_def
      x_reader_await_suspend_def Let_def)

lemma x_sim_step:
  "x_rel c a \<Longrightarrow> x_event_ok ev \<Longrightarrow>
     x_rel (x_step wr ev c) (fst (x_abs_step wr ev a)) \<and>
     xc_written (x_step wr ev c) = xc_written c @ snd (x_abs_step wr ev a)"
  using x_sim_read x_sim_written by (cases ev) (metis x_event_ok.simps(1), blast)

lemma x_sim_run:
  assumes "x_rel c a" "list_all x_event_ok evs"
  shows "x_rel (fold (x_step wr) evs c) (fst (x_abs_run wr evs a)) \<and>
     xc_written (fold (x_step wr) evs c) = xc_written c @ snd (x_abs_run wr evs a)"
  using assms
proof (induction evs arbitrary: c a)
  case (Cons ev evs)
  from x_sim_step [OF Cons.prems(1), of ev wr] Cons.prems(2)
  have 1: "x_rel (x_step wr ev c) (fst (x_abs_step wr ev a))"
    "xc_written (x_step wr ev c) = xc_written c @ snd (x_abs_step wr ev a)" by auto
  from Cons.IH [OF 1(1)] 1(2) Cons.prems(2) show ?case by (simp add: case_prod_beta Let_def)
qed simp

lemma x_accept_rel: "x_rel (x_server_accept junk 0 0) Abs_reading" "xc_written (x_server_accept junk 0 0) = []"
  by (simp_all add: x_server_accept_def x_conn_accept_def x_loop_head_def x_reader_bool_def x_reader_new_def
      x_reader_await_suspend_def Let_def)

lemma x_abs_run_append:
  "x_abs_run wr (evs @ evs') a =
     (fst (x_abs_run wr evs' (fst (x_abs_run wr evs a))),
      snd (x_abs_run wr evs a) @ snd (x_abs_run wr evs' (fst (x_abs_run wr evs a))))"
  by (induction evs arbitrary: a) (simp_all add: case_prod_beta Let_def)

section \<open>Properties\<close>

text \<open>C40: the experiment's server implements its specification: for every sequence of callbacks, the coroutine
  is where the specification says and has written exactly the replies it lists, one for each
  chunk that arrived while the coroutine was reading.\<close>

theorem x_conn_refines:
  assumes "list_all x_event_ok evs"
  shows "x_rel (fold (x_step wr) evs (x_server_accept junk 0 0)) (fst (x_abs_run wr evs Abs_reading)) \<and>
     xc_written (fold (x_step wr) evs (x_server_accept junk 0 0)) = snd (x_abs_run wr evs Abs_reading)"
  using x_sim_run [OF x_accept_rel(1) assms, of wr junk] by (simp add: x_accept_rel)

theorem x_conn_refines_witness:
  "xc_written (fold (x_step (\<lambda>_. 0)) [X_read 1 [1], X_written 0, X_read 2 [2, 3], X_read (-4095) [], X_written 0]
     (x_server_accept \<lparr>xb_data = replicate 1024 0, xb_size = 7\<rparr> 0 0)) = [x_reply [1], x_reply [2, 3]]"
proof -
  let ?evs = "[X_read 1 [1], X_written 0, X_read 2 [2, 3], X_read (-4095) [], X_written 0]"
  have "list_all x_event_ok ?evs" by simp
  from x_conn_refines [OF this, of "\<lambda>_. 0" "\<lparr>xb_data = replicate 1024 0, xb_size = 7\<rparr>"] show ?thesis
    by (simp add: x_buffer_capacity_def Let_def)
qed

text \<open>A chunk that arrives while the reply to an earlier one is being written is lost: the replies are
  those of the same connection without this chunk. (The library's reader stops reading between
  its awaits.)\<close>

theorem x_chunk_lost:
  assumes "list_all x_event_ok (evs @ evs')" "0 \<le> n" "n \<le> int (length bs)"
    and "fold (x_step wr) evs (x_server_accept junk 0 0) = c" "xc_pos c = At_write w"
  shows "xc_written (fold (x_step wr) (evs @ X_read n bs # evs') (x_server_accept junk 0 0)) =
     xc_written (fold (x_step wr) (evs @ evs') (x_server_accept junk 0 0))"
proof -
  have ok: "list_all x_event_ok evs" "list_all x_event_ok (evs @ X_read n bs # evs')"
    using assms(1,3) by simp_all
  from x_sim_run [OF x_accept_rel(1) ok(1), of wr junk] assms(4,5)
  obtain e where e: "fst (x_abs_run wr evs Abs_reading) = Abs_writing e"
    by (cases "fst (x_abs_run wr evs Abs_reading)") auto
  have "snd (x_abs_run wr (evs @ X_read n bs # evs') Abs_reading) = snd (x_abs_run wr (evs @ evs') Abs_reading)"
    using assms(2) e by (simp add: x_abs_run_append case_prod_beta Let_def)
  with x_sim_run [OF x_accept_rel(1) ok(2), of wr junk] x_sim_run [OF x_accept_rel(1) assms(1), of wr junk]
  show ?thesis by (simp add: x_accept_rel)
qed

theorem x_chunk_lost_witness:
  "xc_written (fold (x_step (\<lambda>_. 0)) [X_read 1 [1], X_read 1 [2], X_written 0] (x_server_accept \<lparr>xb_data = [], xb_size = 0\<rparr> 0 0)) =
   xc_written (fold (x_step (\<lambda>_. 0)) [X_read 1 [1], X_written 0] (x_server_accept \<lparr>xb_data = [], xb_size = 0\<rparr> 0 0))"
proof -
  let ?c0 = "x_server_accept \<lparr>xb_data = [], xb_size = 0\<rparr> 0 0"
  have "x_rel (fold (x_step (\<lambda>_. 0)) [X_read 1 [1]] ?c0) (Abs_writing False)"
    using x_sim_run [OF x_accept_rel(1), of "[X_read 1 [1]]" "\<lambda>_. 0" "\<lparr>xb_data = [], xb_size = 0\<rparr>"]
    by (simp add: x_buffer_capacity_def Let_def del: x_step.simps)
  then have "xc_pos (fold (x_step (\<lambda>_. 0)) [X_read 1 [1]] ?c0) = At_write \<lparr>xw_done = False, xw_e = None, xw_h = Some 0\<rparr>"
    by simp
  from x_chunk_lost [of "[X_read 1 [1]]" "[X_written 0]" 1 "[2]", OF _ _ _ refl this] show ?thesis by simp
qed

text \<open>The replies are bounded. Whatever libuv reports, even a count beyond the buffer, every reply is the
  text \<^verbatim>\<open>reply: \<close> and between one byte and a buffer of data.\<close>

theorem x_replies_bounded:
  "list_all (\<lambda>out. take 7 out = x_reply [] \<and> 7 < length out \<and> length out \<le> 7 + 1024)
     (xc_written (fold (x_step wr) evs (x_server_accept junk accepted started)))"
proof -
  let ?P = "\<lambda>out. take 7 out = x_reply [] \<and> 7 < length out \<and> length out \<le> 7 + 1024"
  have P: "?P (x_reply d)" if "d \<noteq> []" "length d \<le> 1024" for d
    using that by (simp add: x_reply_def)
  have "list_all ?P (xc_written (x_step wr ev c))" if "list_all ?P (xc_written c)" for ev c
  proof (cases ev)
    case (X_read n bs)
    let ?r = "xc_reader (fst (x_conn_read_cb n (x_conn_alloc_cb bs c)))"
    have "length (x_reader_data ?r) \<le> 1024"
      using x_read_cb_rest(7) [of n bs c] by (simp add: x_reader_data_def x_buffer_capacity_def min.coboundedI2)
    then show ?thesis
      unfolding X_read x_step_read using that P [of "x_reader_data ?r"]
      by (auto simp: x_loop_read_cases x_loop_head_def x_read_cb_rest Let_def split: x_pos.splits)
  next
    case (X_written st)
    with that show ?thesis
      by (auto simp: x_loop_written_def x_loop_head_def split: x_pos.splits prod.splits option.splits sum.splits)
  qed
  then have "list_all ?P (xc_written (fold (x_step wr) evs c))" if "list_all ?P (xc_written c)" for c
    using that by (induction evs arbitrary: c) auto
  then show ?thesis by (auto simp: x_server_accept_def x_loop_head_def Let_def split: sum.splits)
qed

end
