(* ===== verification/Spec2Isabelle.thy ===== *)
theory Spec2Isabelle
  imports Prelude Message Request Status Service H2_Session Uv_Io Conn Server Scheduler Codegen
    Message_Memory Frames Locking Pool Calls Generated Uv_Loop Base64 Examples Echo_Server Coro_Experiment
begin

text \<open>
  A verification of \<^bold>\<open>grpcxx\<close>, a gRPC server library in C++ (lib/grpcxx) with its protoc plugin
  (src/protoc-gen-grpcxx), its example applications (examples) and the two prototypes it grew from
  (.experiments).

  \<^bold>\<open>The program.\<close> A connection reads bytes from a socket and gives them to nghttp2 through
  \<^verbatim>\<open>h2::detail::session\<close>, which turns nghttp2's callbacks into a list of events. The connection sorts
  the events by stream into \<^verbatim>\<open>request\<close>s: header events set the service, the method and the metadata,
  data events accumulate the length-prefixed \<^verbatim>\<open>message\<close>, the end of the stream finishes the request.
  \<^verbatim>\<open>server_base::process\<close> routes a finished request to a \<^verbatim>\<open>service\<close> and its \<^verbatim>\<open>rpc\<close>, and gives back a
  \<^verbatim>\<open>response\<close>, which the connection submits to nghttp2 as headers, data and trailers; whatever nghttp2
  then has to send is written to the socket. There are two backends: \<^verbatim>\<open>uv\<close>, whose connection is a
  coroutine on a libuv loop that moves the processing to a pool of threads, and \<^verbatim>\<open>asio\<close>. The protoc
  plugin generates the headers that declare a service's rpcs.

  \<^bold>\<open>Theories.\<close>
  \<^item> \<open>Prelude\<close>: shared types; C++ exceptions as values (\<open>cpp_exn\<close>) and a call that ends the program as
    \<open>Terminate\<close>; \<^verbatim>\<open>std::unordered_map\<close> as the locale \<open>unordered_map\<close>, interpreted on association lists;
    the operations of \<^verbatim>\<open>std::string\<close> that the sources use; refinement of machines as the locale
    \<open>forward_simulation\<close>.
  \<^item> \<open>Message\<close>: message.h, message.cpp. Bytes are 8-bit words, the length is a 32-bit word, and the length
    expression of \<^verbatim>\<open>parse\<close> is kept with the sign extension that C++ gives it.
  \<^item> \<open>Message_Memory\<close>: the same reading over an allocator that may refuse the growth of either string, with the
    memory that \<^verbatim>\<open>parse\<close> reserves. With an allocator that never refuses its operations are those of
    \<open>Message\<close> and \<open>Request\<close>.
  \<^item> \<open>Request\<close>: request.h, request.cpp, with the flag bits in a byte.
  \<^item> \<open>Status\<close>: status.h, with the cached text.
  \<^item> \<open>Service\<close>: context, response, fixed_string.h, rpc.h, service.h, server_base.h, server_base.cpp. The
    application's handlers and protobuf's parse and serialise functions are arguments.
  \<^item> \<open>H2_Session\<close>: h2/session.h, session.cpp, event.h, headers.h. nghttp2 is a record of functions over an
    unspecified state; its callbacks are values that the session's functions turn into events, and a
    send is a tree of requests to the data source.
  \<^item> \<open>Uv_Io\<close>: uv/reader, uv/writer as the state that the await functions and libuv's callbacks change; the locale
    \<open>write_awaitable\<close> is what awaiting a write promises.
  \<^item> \<open>Conn\<close>: uv/conn and asio/conn. The locale \<open>stream_demux\<close> states what sorting events into requests
    promises, stream by stream; both connections are interpretations of it. \<open>response_sent\<close> is what
    sending a response means independent of the backend, \<open>drains\<close> the big-step meaning of the loop
    that empties nghttp2.
  \<^item> \<open>Server\<close>: uv/server and asio/server. \<open>chunk_served\<close> and \<open>conversation\<close> are the abstract server.
  \<^item> \<open>Scheduler\<close>: uv/task and uv/scheduler as a state machine whose steps are the sections between two
    points where threads see each other. The locale \<open>task_pool\<close> is what a pool promises its clients.
  \<^item> \<open>Frames\<close>: the promise types of uv/coroutine.h, uv/task.h and the experiment's task.h, as what happens to the
    memory of a coroutine's frame, and the frames that the scheduler's steps move about and use.
  \<^item> \<open>Locking\<close>: the scheduler again, statement by statement, with its two mutexes and the places where its threads
    stand; an interpretation of \<open>forward_simulation\<close> onto the machine of \<open>Scheduler\<close>.
  \<^item> \<open>Pool\<close>: any number of uv connections that share a scheduler, over the contract \<open>task_pool\<close>.
  \<^item> \<open>Calls\<close>: conversations with the events and responses in them, and the one response of a call whose frames
    are spread over many chunks.
  \<^item> \<open>Codegen\<close>: \<^verbatim>\<open>Grpcxx::Generate\<close> of the protoc plugin.
  \<^item> \<open>Generated\<close>: what the generated text declares, as a service and rpcs of the theory \<open>Service\<close>, with the stubs
    an application specialises.
  \<^item> \<open>Uv_Loop\<close>: uv/loop, uv/coroutine.h and the end of a uv server: the destructors of server, scheduler and
    loop in the order in which C++ runs them, over a libuv that is a record of functions; the
    predicate \<open>libuv_ok\<close> states what its documentation promises about closing.
  \<^item> \<open>Base64\<close>: the encoder of examples/errors, with 32-bit signed arithmetic, next to the standard encoding
    (\<open>b64_spec\<close>) and a decoder.
  \<^item> \<open>Examples\<close>: examples/helloworld and examples/errors as services registered with a server.
  \<^item> \<open>Echo_Server\<close>: .experiments/h2c, callbacks of nghttp2 and libuv over a context per connection. nghttp2
    makes callbacks that call it back, so its calls are trees.
  \<^item> \<open>Coro_Experiment\<close>: .experiments/coroutines as a machine driven by libuv's callbacks, with its
    specification \<open>x_abs_step\<close>.
  \<^item> this theory: the path of a call through all of it.

  \<^bold>\<open>Lemmas.\<close> For messages: reassembly from chunks, for which lengths the encoding
  round-trips, when reading fails, the well-formedness invariant. For requests: which header sequences are
  accepted, which metadata is kept. For services: routing, answers, and the code of every failure. For the
  session: each header, piece of data, end and close of a stream becomes one event, handed out once and in
  order, other frames become none; the data source hands out its string in order. For connections:
  isolation of streams, one request per end of stream, writes that refine the abstract sending on both
  backends and so agree, what a refused submission does, termination. For servers: the abstract service of a
  chunk and of a conversation on both backends, and that a connection comes to its end. For the scheduler: by
  rule induction over the reachable states, exactly-once execution, no lost wake-up, and progress; every use
  of a task's frame is defined but for the signal of a thread that the continuation has overtaken, and no
  frame is left in an idle pool. With the mutexes in place: they exclude, they are always given back, and
  nothing more can happen than in the machine of coarse steps. For the pool: connections that share it behave
  as if each were alone, from their first input to their end, no two threads touch the same connection, and a
  call that came in on any of them in any number of chunks has one response, if the prefix of its message was
  not split and the length is one that the code reads correctly. For the generator: its output for every valid
  file, and that a server with the declared services answers. For memory: how much reading a prefix reserves,
  and the answer when there is not enough. For the teardown: the destructor returns with every handle closed
  once unless a write is in flight. For the examples: the greeting and the detailed error reach the client,
  and the encoder is right exactly on the inputs it can handle. For the prototypes: the echo is what was
  received, and the coroutine server refines its specification. Several theorems state exactly where the code
  does not do what it means to: the sign extension in the length, a prefix that is split over two chunks, the
  data source that all streams share, a refused submission that ends the uv server, a continuation that
  overtakes its signal, type names that look like the package, negative bytes in base64, a loop destroyed
  under a pending write, errors of reading and writing that the uv connection swallows, a start failure that
  asio drops, a copy beyond the end of a string, and chunks lost while a reply is written.

  \<^bold>\<open>Loops.\<close> The loops that drain nghttp2 and the loop that closes namespaces may not end and are partial
  functions into \<open>option\<close>; they are proved to return when nghttp2's output shrinks with every chunk
  (\<open>drain_decreases\<close>) and when the package does not start with a dot. The loop that closes a libuv loop is
  one too; it is proved to return when \<^verbatim>\<open>uv_run\<close> makes progress on closing handles. Connection coroutines, which wait
  for input, consume a list of inputs and say how far they got. No fuel is used.

  \<^bold>\<open>Not modelled.\<close> nghttp2, libuv, asio and protobuf are arguments; the text that their
  error functions append to messages is left out. The lifetime of string views is outside the model, as is
  what the programs print. \<open>Locking\<close> shows that \<^verbatim>\<open>_joiners.empty()\<close> is
  read while another thread writes; what such a data race may do is not modelled. server.h only selects a
  backend with a macro, and the plugin's \<^verbatim>\<open>main\<close> only calls protobuf; the test
  programs are not modelled. The concept \<^verbatim>\<open>rpc_type\<close> of service.h is a check at
  compile time; here the types of HOL do it.
\<close>

section \<open>A call in one chunk\<close>

text \<open>The request that the server sees for a call, and the answer it gets.\<close>

lemma call_answered:
  assumes "0 < i" "of_stream i evs = unary_events i hs (c # cs) @ ends" "streams_inv st" "um_find i st = None"
    and "\<not> list_ex bad_header hs" "path_target hs = (svc, meth)" "svc \<noteq> []" "meth \<noteq> []"
    and "length d < 2 ^ 32" "\<not> bit (length d) 15" "\<not> bit (length d) 23"
    and "concat (c # cs) = message_bytes (message_of_string d)" "5 \<le> length c" "[] \<notin> set cs"
    and "find (\<lambda>s. service_name s = svc) svcs = Some (service_new name impl rpcs)"
    and "find (\<lambda>r. rpc_method r = meth) rpcs = Some rpc" "rpc_parse rpc d = Some q"
    and "\<And>ctx. (\<And>k. context_meta ctx k = (case map_of (filter custom_header hs) k of None \<Rightarrow> [] | Some v \<Rightarrow> v)) \<Longrightarrow>
        impl rpc ctx q = Inr (stat, Some p)"
    and "rpc_serialize rpc p = Some out"
    and "fold uv_conn_event evs (st, []) = (st', reqs)" "answers (server_of svcs) reqs resps"
    and "list_all (\<lambda>e. ev_type e = Stream_close) ends"
  shows "\<exists>resp. filter (\<lambda>r. resp_id r = i) resps = [resp] \<and> resp_status resp = stat \<and>
     response_bytes resp = message_bytes (message_of_string out)"
proof -
  from call_request [OF assms(1-20,22)] obtain r resp where
    r: "filter (\<lambda>r. req_id r = i) reqs = [r]" "server_process (server_of svcs) r = Return resp"
    "resp_status resp = stat" "response_bytes resp = message_bytes (message_of_string out)" by blast
  with answers_filter [OF assms(21), of i] show ?thesis by auto
qed

section \<open>Properties\<close>

text \<open>C1: a call to the uv server, end to end. Any number of connections share a pool of threads that now has
  nothing left to do. One of them has read a list of chunks that fit its buffer, all writes succeeded,
  and nghttp2 made events of them, among which are those of a client's call on stream \<open>i\<close>, spread
  over the chunks in any way and mixed with those of other streams: acceptable headers that name a
  registered service and method, the framed payload \<open>d\<close> cut into pieces, the end of the stream, and
  possibly its closing. Two conditions on the pieces are needed: the first holds the whole prefix of
  five bytes and none is empty, because a prefix that is split over two pieces is misread
  (\<open>message_split_prefix\<close>); and the payload is shorter than 4 GiB with bits 15 and 23 of its length
  clear, because the code misreads the other lengths. The payload parses, the application,
  which sees exactly the client's metadata, answers and the answer serialises. Then the connection
  waits for more and has written the bytes of the whole exchange, and among the responses in it
  exactly one is for stream \<open>i\<close>, with the application's status and the framed answer.\<close>

theorem pooled_call_answered:
  assumes "pool_reachable ng (server_of svcs) n c0 p" "0 < n" "quiescent (po_sched p)" "\<not> sc_stop (po_sched p)"
    and "cs_inputs (po_slots p k) = reads_of bss" "list_all (\<lambda>bs. bs \<noteq> [] \<and> length bs \<le> reader_capacity) bss"
    and "uvc_buffer c0 = []" "uvc_streams c0 = st"
    and "exchange ng (server_of svcs) bss (uvc_session c0, st) evs resps outs y"
    and "0 < i" "of_stream i evs = unary_events i hs (c # cs) @ ends" "streams_inv st" "um_find i st = None"
    and "\<not> list_ex bad_header hs" "path_target hs = (svc, meth)" "svc \<noteq> []" "meth \<noteq> []"
    and "length d < 2 ^ 32" "\<not> bit (length d) 15" "\<not> bit (length d) 23"
    and "concat (c # cs) = message_bytes (message_of_string d)" "5 \<le> length c" "[] \<notin> set cs"
    and "find (\<lambda>s. service_name s = svc) svcs = Some (service_new name impl rpcs)"
    and "find (\<lambda>r. rpc_method r = meth) rpcs = Some rpc" "rpc_parse rpc d = Some q"
    and "\<And>ctx. (\<And>k. context_meta ctx k = (case map_of (filter custom_header hs) k of None \<Rightarrow> [] | Some v \<Rightarrow> v)) \<Longrightarrow>
        impl rpc ctx q = Inr (stat, Some ans)"
    and "rpc_serialize rpc ans = Some out" "list_all (\<lambda>e. ev_type e = Stream_close) ends"
  shows "end_of (cs_end (po_slots p k)) = Conn_waiting \<and> concat (cs_outs (po_slots p k)) = concat outs \<and>
     (\<exists>resp. filter (\<lambda>r. resp_id r = i) resps = [resp] \<and> resp_status resp = stat \<and>
        response_bytes resp = message_bytes (message_of_string out))"
  using pool_exchange(1,2) [OF assms(1) pool_quiet [OF assms(1-4)] assms(5,7,6)] call_exchanged [OF assms(9-29)] assms(8,9)
  by simp

theorem pooled_call_answered_witness:
  "\<exists>p resps resp.
     each (pool_step (sample_ng halves_rx) sample_server)
       (Pool_chunk 0 10 (Uv_read 1 [1], 0, 0) # map Pool_do [Do_pop 0, Do_run 0, Do_push 0, Do_send 0, Do_async, Do_join, Do_join] @
        Pool_chunk 0 11 (Uv_read 1 [2], 0, 0) # map Pool_do [Do_pop 0, Do_run 0, Do_push 0, Do_send 0, Do_async, Do_join, Do_join])
       (pool_new 1 (sample_uv_conn [])) = Some p \<and>
     concat (cs_outs (po_slots p 0)) = [1, 2, 0, 0, 0, 0, 2, 6, 5, 3] \<and>
     filter (\<lambda>r. resp_id r = 1) resps = [resp] \<and> resp_status resp = status_of_code Code_ok \<and>
     response_bytes resp = message_bytes (message_of_string [6, 5])"
proof -
  let ?ng = "sample_ng halves_rx"
  let ?as = "Pool_chunk 0 10 (Uv_read 1 [1], 0, 0) # map Pool_do [Do_pop 0, Do_run 0, Do_push 0, Do_send 0, Do_async, Do_join, Do_join] @
        Pool_chunk 0 11 (Uv_read 1 [2], 0, 0) # map Pool_do [Do_pop 0, Do_run 0, Do_push 0, Do_send 0, Do_async, Do_join, Do_join]"
  let ?rpc = "\<lparr>rpc_name = fixed_string_new (literal ''M''), rpc_parse = Some, rpc_serialize = Some\<rparr> :: (bytes, bytes) rpc"
  let ?impl = "\<lambda>rpc ctx q. Inr (status_of_code Code_ok, Some (rev q))"
  let ?svcs = "[service_new (fixed_string_new (literal ''S'')) ?impl [?rpc]]"
  have fl: "half_conn\<lparr>uvc_buffer := []\<rparr> = half_conn"
    by (rule uv_conn.equality) (simp_all add: half_conn_parts)
  obtain p where p: "each (pool_step ?ng sample_server) ?as (pool_new 1 (sample_uv_conn [])) = Some p"
    "cs_inputs (po_slots p 0) = reads_of [[1], [2]]"
    and s: "\<not> sc_stop (po_sched p)" "sc_threads (po_sched p) = [W_idle]" "sc_shifters (po_sched p) = []"
      "\<not> sc_async (po_sched p)" "\<not> sc_joining (po_sched p)"
    by (simp add: pool_new_def pool_chunk_def pool_sched_def work_run_def work_flush_def sched_step_def scheduler_new_def
        sched_defs step_ops halves_serve half_conn_parts fl uv_conn_flush_ok reader_capacity_def
        loop_head_def reader_steps reads_of_def)
  have "sched_step a (po_sched p) = None" if "internal a" for a
    using that s by (cases a) (simp_all add: sched_step_def step_ops)
  then have q: "quiescent (po_sched p)" by (simp add: quiescent_def)
  obtain resps outs where e: "exchange ?ng sample_server [[1], [2]] (sample_session [], [])
     (unary_events 1 [('':path'', ''/S/M'')] [[0, 0, 0, 0, 2, 5], [6]]) resps outs (sample_sent, [])"
    "concat outs = [1, 2, 0, 0, 0, 0, 2, 6, 5, 3]"
    using halves_exchange by blast
  note c = halves_call
  have sb: "sample_server = server_of ?svcs" by (simp add: sample_server_def)
  have "end_of (cs_end (po_slots p 0)) = Conn_waiting \<and> concat (cs_outs (po_slots p 0)) = concat outs \<and>
     (\<exists>resp. filter (\<lambda>r. resp_id r = 1) resps = [resp] \<and> resp_status resp = status_of_code Code_ok \<and>
        response_bytes resp = message_bytes (message_of_string [6, 5]))"
    by (rule pooled_call_answered [OF pool_run_reachable [OF pool_reach_new p(1), unfolded sb] zero_less_one q s(1),
          where bss = "[[1], [2]]" and st = "[]" and i = 1 and svc = "''S''" and meth = "''M''" and d = "[5, 6]" and
            c = "[0, 0, 0, 0, 2, 5]" and cs = "[[6]]" and ends = "[]" and rpc = ?rpc and rpcs = "[?rpc]" and impl = ?impl and q = "[5, 6]" and name = "fixed_string_new (literal ''S'')"])
      (use e(1) c p(2) in \<open>simp_all add: sb sample_uv_conn_def streams_inv_empty um.find_empty rpc_method_def bit_iff_odd
        reader_capacity_def\<close>)
  with p(1) e(2) show ?thesis by metis
qed

text \<open>C2: a call to the asio server, end to end. An exchange contains a client's call on stream \<open>i\<close>, its events
  spread over the chunks in any way and mixed with those of other streams, under the conditions of
  the same theorem for the uv server: acceptable headers with a registered service and method; a
  first piece of data with the whole prefix of five bytes, no empty pieces, a payload shorter than
  4 GiB with bits 15 and 23 of its length clear; a payload that parses, an application that
  answers and an answer that serialises. If the socket takes the bytes, the connection coroutine is
  waiting for more input, has written the bytes of the exchange to its socket in order, and exactly
  one of the responses in it is for stream \<open>i\<close>, with the application's status and the framed
  answer.\<close>

theorem asio_call_answered:
  assumes "exchange ng (server_of svcs) bss (s, st) evs resps outs (s', st')" "sock_run wr outs io = Some io'"
    and "0 < i" "of_stream i evs = unary_events i hs (c # cs) @ ends" "streams_inv st" "um_find i st = None"
    and "\<not> list_ex bad_header hs" "path_target hs = (svc, meth)" "svc \<noteq> []" "meth \<noteq> []"
    and "length d < 2 ^ 32" "\<not> bit (length d) 15" "\<not> bit (length d) 23"
    and "concat (c # cs) = message_bytes (message_of_string d)" "5 \<le> length c" "[] \<notin> set cs"
    and "find (\<lambda>s. service_name s = svc) svcs = Some (service_new name impl rpcs)"
    and "find (\<lambda>r. rpc_method r = meth) rpcs = Some rpc" "rpc_parse rpc d = Some q"
    and "\<And>ctx. (\<And>k. context_meta ctx k = (case map_of (filter custom_header hs) k of None \<Rightarrow> [] | Some v \<Rightarrow> v)) \<Longrightarrow>
        impl rpc ctx q = Inr (stat, Some ans)"
    and "rpc_serialize rpc ans = Some out" "list_all (\<lambda>e. ev_type e = Stream_close) ends"
  shows "asio_server_conn ng wr (server_of svcs) (map Some bss)
       \<lparr>aic_eos = False, aic_session = s, aic_streams = st, aic_sock = io\<rparr> =
       Some (Return (Conn_waiting, \<lparr>aic_eos = False, aic_session = s', aic_streams = st', aic_sock = io'\<rparr>)) \<and>
     (\<exists>resp. filter (\<lambda>r. resp_id r = i) resps = [resp] \<and> resp_status resp = stat \<and>
        response_bytes resp = message_bytes (message_of_string out))"
  using call_exchanged [OF assms(1,3-22)]
    asio_conversation [OF exchange_conversation [OF assms(1)],
      of "\<lparr>aic_eos = False, aic_session = s, aic_streams = st, aic_sock = io\<rparr>" wr io'] assms(2)
  by simp

theorem asio_call_answered_witness:
  "\<exists>outs resps resp.
     asio_server_conn (sample_ng halves_rx) sample_sock sample_server [Some [1], Some [2]] (sample_asio_conn []) =
       Some (Return (Conn_waiting, (sample_asio_conn [])\<lparr>aic_session := sample_sent, aic_sock := outs\<rparr>)) \<and>
     concat outs = [1, 2, 0, 0, 0, 0, 2, 6, 5, 3] \<and>
     filter (\<lambda>r. resp_id r = 1) resps = [resp] \<and> response_bytes resp = message_bytes (message_of_string [6, 5])"
proof -
  let ?rpc = "\<lparr>rpc_name = fixed_string_new (literal ''M''), rpc_parse = Some, rpc_serialize = Some\<rparr> :: (bytes, bytes) rpc"
  let ?impl = "\<lambda>rpc ctx q. Inr (status_of_code Code_ok, Some (rev q))"
  let ?svcs = "[service_new (fixed_string_new (literal ''S'')) ?impl [?rpc]]"
  obtain resps outs where e: "exchange (sample_ng halves_rx) sample_server [[1], [2]] (sample_session [], [])
     (unary_events 1 [('':path'', ''/S/M'')] [[0, 0, 0, 0, 2, 5], [6]]) resps outs (sample_sent, [])"
    "concat outs = [1, 2, 0, 0, 0, 0, 2, 6, 5, 3]"
    using halves_exchange by blast
  note c = halves_call
  have sb: "sample_server = server_of ?svcs" by (simp add: sample_server_def)
  have io: "sock_run sample_sock cs io = Some (io @ cs)" for cs io
    by (induction cs arbitrary: io) (simp_all add: sample_sock_def)
  have "asio_server_conn (sample_ng halves_rx) sample_sock (server_of ?svcs) (map Some [[1], [2]])
       \<lparr>aic_eos = False, aic_session = sample_session [], aic_streams = [], aic_sock = []\<rparr> =
       Some (Return (Conn_waiting, \<lparr>aic_eos = False, aic_session = sample_sent, aic_streams = [], aic_sock = [] @ outs\<rparr>)) \<and>
     (\<exists>resp. filter (\<lambda>r. resp_id r = 1) resps = [resp] \<and> resp_status resp = status_of_code Code_ok \<and>
        response_bytes resp = message_bytes (message_of_string [6, 5]))"
    by (rule asio_call_answered [OF e(1) [unfolded sb] io,
          where i = 1 and svc = "''S''" and meth = "''M''" and d = "[5, 6]" and
            c = "[0, 0, 0, 0, 2, 5]" and cs = "[[6]]" and ends = "[]" and rpc = ?rpc and rpcs = "[?rpc]" and impl = ?impl and q = "[5, 6]" and name = "fixed_string_new (literal ''S'')"])
      (use c in \<open>simp_all add: streams_inv_empty um.find_empty rpc_method_def bit_iff_odd\<close>)
  with e(2) sb show ?thesis by (auto simp: sample_asio_conn_def)
qed

text \<open>A unary call, end to end, in one chunk. A chunk of input completes the client's call on stream \<open>i\<close>: its
  headers, its framed payload \<open>d\<close> cut into pieces and the end of the stream, interleaved in any way
  with other streams. The headers are acceptable and name a registered service and method; the
  payload parses, the application, which sees exactly the client's metadata, answers and the
  answer serialises. When the uv server has served the chunk, its buffer has grown by what
  nghttp2 wanted to send by itself and then by the bytes of a list of responses, sent one after
  the other; exactly one of them is for stream \<open>i\<close>, with the application's status and the framed
  answer.\<close>

theorem call_end_to_end:
  assumes "0 < i" "session_read ng bs (uvc_session u) = (Inr evs, s1)"
    and "of_stream i evs = unary_events i hs (c # cs) @ ends"
    and "streams_inv (uvc_streams u)" "um_find i (uvc_streams u) = None"
    and "\<not> list_ex bad_header hs" "path_target hs = (svc, meth)" "svc \<noteq> []" "meth \<noteq> []"
    and "length d < 2 ^ 32" "\<not> bit (length d) 15" "\<not> bit (length d) 23"
    and "concat (c # cs) = message_bytes (message_of_string d)" "5 \<le> length c" "[] \<notin> set cs"
    and "find (\<lambda>s. service_name s = svc) svcs = Some (service_new name impl rpcs)"
    and "find (\<lambda>r. rpc_method r = meth) rpcs = Some rpc" "rpc_parse rpc d = Some q"
    and "\<And>ctx. (\<And>k. context_meta ctx k = (case map_of (filter custom_header hs) k of None \<Rightarrow> [] | Some v \<Rightarrow> v)) \<Longrightarrow>
        impl rpc ctx q = Inr (stat, Some p)"
    and "rpc_serialize rpc p = Some out"
    and "uv_serve ng (server_of svcs) bs u = Some (Return u')" "list_all (\<lambda>e. ev_type e = Stream_close) ends"
  shows "\<exists>cs1 s2 resps cs2 resp.
     drains ng s1 cs1 s2 \<and> all_sent ng resps s2 cs2 (uvc_session u') \<and>
     uvc_buffer u' = uvc_buffer u @ concat cs1 @ concat cs2 \<and>
     filter (\<lambda>r. resp_id r = i) resps = [resp] \<and> resp_status resp = stat \<and>
     response_bytes resp = message_bytes (message_of_string out)"
proof -
  obtain os s' st' where ch: "chunk_served ng (server_of svcs) bs (uvc_session u, uvc_streams u) os (s', st')"
    "u' = u\<lparr>uvc_session := s', uvc_streams := st', uvc_buffer := uvc_buffer u @ concat os\<rparr>"
    using assms(2,21) unfolding uv_serve_iff by auto
  then obtain reqs cs1 s2 resps cs2 where 1: "fold uv_conn_event evs (uvc_streams u, []) = (st', reqs)"
    "drains ng s1 cs1 s2" "answers (server_of svcs) reqs resps" "all_sent ng resps s2 cs2 s'" "os = cs1 @ cs2"
    using assms(2) unfolding chunk_served_def by auto
  from call_answered [OF assms(1,3-20) 1(1,3) assms(22)] obtain resp where
    "filter (\<lambda>r. resp_id r = i) resps = [resp]" "resp_status resp = stat"
    "response_bytes resp = message_bytes (message_of_string out)" by blast
  with 1 ch show ?thesis
    by (intro exI [of _ cs1] exI [of _ s2] exI [of _ resps] exI [of _ cs2] exI [of _ resp]) simp
qed

theorem call_end_to_end_witness:
  "\<exists>cs1 s2 resps cs2 resp.
     drains (sample_ng sample_rx) (sample_session []) cs1 s2 \<and>
     all_sent (sample_ng sample_rx) resps s2 cs2 sample_sent \<and>
     [1, 2, 0, 0, 0, 0, 2, 6, 5, 3] = [] @ concat cs1 @ concat cs2 \<and>
     filter (\<lambda>r. resp_id r = 1) resps = [resp] \<and> resp_status resp = status_of_code Code_ok \<and>
     response_bytes resp = message_bytes (message_of_string [6, 5])"
proof -
  let ?rpc = "\<lparr>rpc_name = fixed_string_new (literal ''M''), rpc_parse = Some, rpc_serialize = Some\<rparr>
    :: (bytes, bytes) rpc"
  let ?impl = "\<lambda>rpc ctx q. Inr (status_of_code Code_ok, Some (rev q))"
  let ?evs = "unary_events 1 [('':path'', ''/S/M'')] [[0, 0, 0, 0, 2, 5, 6]]"
  let ?u = "(sample_uv_conn [])\<lparr>uvc_session := sample_sent, uvc_buffer := [1, 2, 0, 0, 0, 0, 2, 6, 5, 3]\<rparr>"
  have sr: "session_read (sample_ng sample_rx) [0] (uvc_session (sample_uv_conn [])) = (Inr ?evs, sample_session [])"
    by (simp add: session_read_def sample_ng_def sample_rx_def sample_uv_conn_def sample_session_def unary_events_def
      header_event_def data_event_def end_event_def Let_def session_callbacks_def callback_defs session_emit_def)
  have sp: "split_path ''/S/M'' = Some (''S'', ''M'')" by (simp add: split_path_def)
  have "\<exists>cs1 s2 resps cs2 resp.
     drains (sample_ng sample_rx) (sample_session []) cs1 s2 \<and>
     all_sent (sample_ng sample_rx) resps s2 cs2 (uvc_session ?u) \<and>
     uvc_buffer ?u = uvc_buffer (sample_uv_conn []) @ concat cs1 @ concat cs2 \<and>
     filter (\<lambda>r. resp_id r = 1) resps = [resp] \<and> resp_status resp = status_of_code Code_ok \<and>
     response_bytes resp = message_bytes (message_of_string [6, 5])"
    by (rule call_end_to_end [where i = 1 and bs = "[0]" and evs = ?evs and hs = "[('':path'', ''/S/M'')]" and
          c = "[0, 0, 0, 0, 2, 5, 6]" and cs = "[]" and ends = "[]" and svc = "''S''" and meth = "''M''" and d = "[5, 6]" and
          rpc = ?rpc and rpcs = "[?rpc]" and impl = ?impl and q = "[5, 6]" and p = "[6, 5]" and
          name = "fixed_string_new (literal ''S'')" and
          svcs = "[service_new (fixed_string_new (literal ''S'')) ?impl [?rpc]]", OF _ sr])
      (use sample_serve in \<open>simp_all add: sp unary_events_def header_event_def data_event_def end_event_def um.find_empty
        bad_header_def path_target_def message_bytes_of_string prefix_bytes_def bit_iff_odd rpc_method_def
        sample_server_def sample_uv_conn_def\<close>)
  then show ?thesis by (simp add: sample_uv_conn_def)
qed

end
